(* ===== verification/Prelude.thy ===== *)
theory Prelude
  imports Main "HOL-Library.Word" "HOL-Library.AList"
begin

unbundle bit_operations_syntax

text \<open>
  What every component of the development shares: the machine types of the Rust source, the values
  that stand for a panic, the parts of Rust's standard library the components use (slices,
  big-endian bytes, the ordered map), the collections of automation facts, and the generic lemmas.

  \<^item> \<open>u8\<close>, \<open>u16\<close>, \<open>u32\<close>, \<open>u64\<close> are words; \<open>usize\<close> values (lengths, indices, byte counts) are \<open>nat\<close>,
    since they measure buffers in memory.
  \<^item> \<open>Instant\<close> and \<open>Duration\<close> are nanosecond counts in \<open>nat\<close>. A clock reading is an argument of the
    operation that takes it. \<open>Instant::elapsed\<close> saturates at zero, as subtraction on \<open>nat\<close> does.
  \<^item> A \<open>String\<close> is the list of its UTF-8 bytes.
\<close>

type_synonym u8 = "8 word"
type_synonym u16 = "16 word"
type_synonym u32 = "32 word"
type_synonym u64 = "64 word"
type_synonym bytes = "u8 list"
type_synonym instant = nat
type_synonym duration = nat
type_synonym usize_range = "nat \<times> nat"

named_theorems inv_simps \<open>unfolding facts of the components' invariants\<close>
named_theorems frame_simps \<open>fields an operation leaves alone\<close>
named_theorems step_intros \<open>an operation keeps an invariant\<close>

text \<open>The ways a Rust expression of the source can panic.\<close>

datatype panic = SliceOutOfRange | AssertFailed | UnwrapOnNone | IndexOutOfBounds | UnreachableCode

definition elapsed :: "instant \<Rightarrow> instant \<Rightarrow> duration" where
  "elapsed since now = now - since"

definition secs :: "nat \<Rightarrow> duration" where
  "secs n = n * 1000000000"

subsection \<open>Slices\<close>

definition sub_range :: "usize_range \<Rightarrow> 'a list \<Rightarrow> 'a list" where
  "sub_range r xs = take (snd r - fst r) (drop (fst r) xs)"

text \<open>\<open>&xs[a..b]\<close> panics unless \<open>a \<le> b \<le> xs.len()\<close>.\<close>

definition index_range :: "usize_range \<Rightarrow> 'a list \<Rightarrow> panic + 'a list" where
  "index_range r xs =
     (if fst r \<le> snd r \<and> snd r \<le> length xs then Inr (sub_range r xs) else Inl SliceOutOfRange)"

definition range_len :: "usize_range \<Rightarrow> nat" where
  "range_len r = snd r - fst r"

lemma length_sub_range [simp]: "length (sub_range r xs) = min (snd r - fst r) (length xs - fst r)"
  by (simp add: sub_range_def min.commute)

lemma index_range_Inr: "index_range r xs = Inr ys \<Longrightarrow> ys = sub_range r xs \<and> length ys = range_len r"
  by (auto simp: index_range_def range_len_def split: if_splits)

lemma sub_range_drop:
  "fst r + n \<le> snd r \<Longrightarrow> drop n (sub_range r xs) = sub_range (fst r + n, snd r) xs"
  by (simp add: sub_range_def drop_take add.commute)

lemma sub_range_take: "n \<le> snd r - fst r \<Longrightarrow> take n (sub_range r xs) = sub_range (fst r, fst r + n) xs"
  by (simp add: sub_range_def min_def)

lemma index_range_iff:
  "index_range r xs = Inr ys \<longleftrightarrow> fst r \<le> snd r \<and> snd r \<le> length xs \<and> ys = sub_range r xs"
  by (auto simp: index_range_def)

lemma index_range_drop:
  assumes "index_range r xs = Inr ys" and "n \<le> length ys"
  shows "index_range (fst r + n, snd r) xs = Inr (drop n ys)"
  using assms by (auto simp: index_range_iff sub_range_drop)

lemma index_range_take:
  assumes "index_range r xs = Inr ys" and "n \<le> length ys"
  shows "index_range (fst r, fst r + n) xs = Inr (take n ys)"
  using assms by (auto simp: index_range_iff sub_range_take)

lemma sub_range_full [simp]: "sub_range (0, length xs) xs = xs"
  by (simp add: sub_range_def)

subsection \<open>Arrays and big-endian bytes\<close>

text \<open>A fixed-size array \<open>[u8; n]\<close> (or \<open>GenericArray\<close>): a list brought to exactly \<open>n\<close> bytes.\<close>

definition fixed :: "nat \<Rightarrow> bytes \<Rightarrow> bytes" where
  "fixed n bs = take n (bs @ replicate n 0)"

lemma length_fixed [simp]: "length (fixed n bs) = n"
  by (simp add: fixed_def)

lemma fixed_id: "length bs = n \<Longrightarrow> fixed n bs = bs"
  by (simp add: fixed_def)

text \<open>\<open>u16::to_be_bytes\<close>, \<open>u16::from_be_bytes\<close>, \<open>u64::to_be_bytes\<close>.\<close>

definition be_u16 :: "u16 \<Rightarrow> bytes" where
  "be_u16 w = [ucast (drop_bit 8 w), ucast w]"

definition u16_of_be :: "u8 \<Rightarrow> u8 \<Rightarrow> u16" where
  "u16_of_be a b = (push_bit 8 (ucast a) OR ucast b)"

definition be_u64 :: "u64 \<Rightarrow> bytes" where
  "be_u64 w = map (\<lambda>i. ucast (drop_bit (8 * (7 - i)) w)) [0..<8]"

lemma length_be [simp]: "length (be_u16 w) = 2" "length (be_u64 v) = 8"
  by (simp_all add: be_u16_def be_u64_def)

lemma u16_of_be_be: "u16_of_be (be_u16 w ! 0) (be_u16 w ! 1) = w"
  by (rule bit_word_eqI)
    (auto simp: u16_of_be_def be_u16_def bit_simps; metis add_diff_inverse_nat)

lemma be_u64_inject: "be_u64 v = be_u64 w \<longleftrightarrow> v = w"
proof
  assume eq: "be_u64 v = be_u64 w"
  show "v = w"
  proof (rule bit_word_eqI)
    fix n assume "n < LENGTH(64)"
    then have i: "7 - n div 8 < 8" "7 - (7 - n div 8) = n div 8" by simp_all
    have "be_u64 v ! (7 - n div 8) = be_u64 w ! (7 - n div 8)" using eq by simp
    then have "(ucast (drop_bit (8 * (n div 8)) v) :: u8) = ucast (drop_bit (8 * (n div 8)) w)"
      using i by (simp add: be_u64_def)
    then have "bit (ucast (drop_bit (8 * (n div 8)) v) :: u8) (n mod 8)
        = bit (ucast (drop_bit (8 * (n div 8)) w) :: u8) (n mod 8)" by simp
    then show "bit v n = bit w n" by (simp add: bit_simps)
  qed
qed simp

lemma mod_add_le: "m \<le> n \<Longrightarrow> n mod m + m \<le> n" for n m :: nat
  using mod_less_eq_dividend [of "n - m" m] le_mod_geq [of m n] by linarith

end
