(* ===== verification/Ordered_Map.thy ===== *)
theory Ordered_Map
  imports Prelude
begin

text \<open>
  The ordered map of Rust's standard library (\<open>std::collections::BTreeMap\<close>), as far as the source
  uses it: \<open>get\<close>, \<open>insert\<close>, \<open>remove\<close>, \<open>len\<close>, \<open>is_empty\<close>, \<open>clear\<close> and the first entry of \<open>iter()\<close>. The
  interface is the locale \<open>ordered_map\<close>; its laws are what the standard library documents. The model
  is an association list with strictly ascending keys, and the interpretation \<open>btree\<close> discharges the
  laws for it. Lemmas about the total weight of the entries, which the reassembler's byte counters
  rest on, are proved once, inside the locale.
\<close>

type_synonym ('k, 'v) btree_map = "('k \<times> 'v) list"

fun bt_get :: "('k::linorder, 'v) btree_map \<Rightarrow> 'k \<Rightarrow> 'v option" where
  "bt_get [] k = None"
| "bt_get ((k', v) # m) k = (if k = k' then Some v else bt_get m k)"

fun bt_insert :: "'k::linorder \<Rightarrow> 'v \<Rightarrow> ('k, 'v) btree_map \<Rightarrow> ('k, 'v) btree_map" where
  "bt_insert k v [] = [(k, v)]"
| "bt_insert k v ((k', v') # m) =
     (if k < k' then (k, v) # (k', v') # m
      else if k = k' then (k, v) # m
      else (k', v') # bt_insert k v m)"

fun bt_remove :: "'k::linorder \<Rightarrow> ('k, 'v) btree_map \<Rightarrow> ('k, 'v) btree_map" where
  "bt_remove k [] = []"
| "bt_remove k ((k', v') # m) = (if k = k' then m else (k', v') # bt_remove k m)"

definition bt_first :: "('k, 'v) btree_map \<Rightarrow> ('k \<times> 'v) option" where
  "bt_first m = (case m of [] \<Rightarrow> None | e # _ \<Rightarrow> Some e)"

definition bt_sorted :: "('k::linorder, 'v) btree_map \<Rightarrow> bool" where
  "bt_sorted m = sorted_wrt (<) (map fst m)"

text \<open>
  The interface. \<open>entries\<close> lists what \<open>iter()\<close> yields: the entries in ascending order of their keys.
\<close>

locale ordered_map =
  fixes empty :: "'m"
    and get :: "'m \<Rightarrow> 'k::linorder \<Rightarrow> 'v option"
    and insert :: "'k \<Rightarrow> 'v \<Rightarrow> 'm \<Rightarrow> 'm"
    and remove :: "'k \<Rightarrow> 'm \<Rightarrow> 'm"
    and first :: "'m \<Rightarrow> ('k \<times> 'v) option"
    and entries :: "'m \<Rightarrow> ('k \<times> 'v) list"
    and invar :: "'m \<Rightarrow> bool"
  assumes invar_empty: "invar empty"
    and invar_insert: "invar m \<Longrightarrow> invar (insert k v m)"
    and invar_remove: "invar m \<Longrightarrow> invar (remove k m)"
    and entries_empty: "entries empty = []"
    and entries_sorted: "invar m \<Longrightarrow> sorted_wrt (<) (map fst (entries m))"
    and get_entries: "invar m \<Longrightarrow> get m k = Some v \<longleftrightarrow> (k, v) \<in> set (entries m)"
    and insert_entries: "invar m \<Longrightarrow>
      set (entries (insert k v m)) = {(k, v)} \<union> {e \<in> set (entries m). fst e \<noteq> k}"
    and remove_entries: "invar m \<Longrightarrow>
      set (entries (remove k m)) = {e \<in> set (entries m). fst e \<noteq> k}"
    and first_entries: "first m = (case entries m of [] \<Rightarrow> None | e # _ \<Rightarrow> Some e)"
begin

lemma distinct_entries: "invar m \<Longrightarrow> distinct (entries m)"
  using entries_sorted [of m] by (metis distinct_map strict_sorted_iff)

lemma get_insert: "invar m \<Longrightarrow> get (insert k v m) k' = (if k' = k then Some v else get m k')"
  using get_entries [of "insert k v m" k'] get_entries [of m k'] insert_entries [of m k v]
    invar_insert [of m k v]
  by (cases "get (insert k v m) k'"; cases "get m k'") auto

lemma get_remove: "invar m \<Longrightarrow> get (remove k m) k' = (if k' = k then None else get m k')"
  using get_entries [of "remove k m" k'] get_entries [of m k'] remove_entries [of m k]
    invar_remove [of m k]
  by (cases "get (remove k m) k'"; cases "get m k'") auto

lemma first_least:
  assumes "invar m" and "first m = Some (k, v)" and "(k', v') \<in> set (entries m)"
  shows "k \<le> k'"
  using assms entries_sorted [of m] by (force simp: first_entries split: list.splits)

lemma first_get: "invar m \<Longrightarrow> first m = Some (k, v) \<Longrightarrow> get m k = Some v"
  by (auto simp: first_entries get_entries split: list.splits)

lemma weight_sum: "invar m \<Longrightarrow> sum_list (map w (entries m)) = sum w (set (entries m))"
  by (simp add: distinct_entries sum_list_distinct_conv_sum_set)

lemma absent_entries: "invar m \<Longrightarrow> get m k = None \<Longrightarrow> {e \<in> set (entries m). fst e \<noteq> k} = set (entries m)"
  using get_entries [of m k] by force

lemma present_entries:
  assumes "invar m" and "get m k = Some v"
  shows "set (entries m) = Set.insert (k, v) {e \<in> set (entries m). fst e \<noteq> k}"
proof -
  have only: "(k, u) \<in> set (entries m) \<longleftrightarrow> u = v" for u
    using get_entries [OF assms(1), of k u] assms(2) by auto
  show ?thesis
  proof (rule set_eqI)
    fix e
    show "e \<in> set (entries m) \<longleftrightarrow> e \<in> Set.insert (k, v) {e \<in> set (entries m). fst e \<noteq> k}"
      using only [of "snd e"] by (cases e) auto
  qed
qed

lemma weight_insert_fresh:
  fixes w :: "'k \<times> 'v \<Rightarrow> nat"
  assumes "invar m" and "get m k = None"
  shows "sum_list (map w (entries (insert k v m))) = w (k, v) + sum_list (map w (entries m))"
proof -
  let ?R = "{e \<in> set (entries m). fst e \<noteq> k}"
  have "sum w ({(k, v)} \<union> ?R) = w (k, v) + sum w ?R" by simp
  then show ?thesis
    using assms by (simp add: weight_sum invar_insert insert_entries absent_entries)
qed

lemma weight_insert_replace:
  fixes w :: "'k \<times> 'v \<Rightarrow> nat"
  assumes "invar m" and "get m k = Some u"
  shows "sum_list (map w (entries (insert k v m))) + w (k, u)
       = w (k, v) + sum_list (map w (entries m))"
proof -
  let ?R = "{e \<in> set (entries m). fst e \<noteq> k}"
  have "sum w (set (entries m)) = w (k, u) + sum w ?R"
    by (subst present_entries [OF assms]) simp
  moreover have "sum w ({(k, v)} \<union> ?R) = w (k, v) + sum w ?R"
    by simp
  ultimately show ?thesis
    using assms by (simp add: weight_sum invar_insert insert_entries)
qed

lemma weight_remove:
  fixes w :: "'k \<times> 'v \<Rightarrow> nat"
  assumes "invar m" and "get m k = Some u"
  shows "sum_list (map w (entries (remove k m))) + w (k, u) = sum_list (map w (entries m))"
proof -
  let ?R = "{e \<in> set (entries m). fst e \<noteq> k}"
  have "sum w (set (entries m)) = w (k, u) + sum w ?R"
    by (subst present_entries [OF assms]) simp
  then show ?thesis
    using assms by (simp add: weight_sum invar_remove remove_entries)
qed

end

subsection \<open>The interpretation\<close>

lemma set_bt_insert:
  "bt_sorted m \<Longrightarrow> set (bt_insert k v m) = {(k, v)} \<union> {e \<in> set m. fst e \<noteq> k}"
  by (induction k v m rule: bt_insert.induct) (auto simp: bt_sorted_def)

lemma set_bt_remove: "bt_sorted m \<Longrightarrow> set (bt_remove k m) = {e \<in> set m. fst e \<noteq> k}"
  by (induction k m rule: bt_remove.induct) (auto simp: bt_sorted_def)

lemma bt_sorted_insert: "bt_sorted m \<Longrightarrow> bt_sorted (bt_insert k v m)"
proof (induction k v m rule: bt_insert.induct)
  case (2 k v k' v' m)
  then show ?case using set_bt_insert [of m k v] by (fastforce simp: bt_sorted_def)
qed (simp add: bt_sorted_def)

lemma bt_sorted_remove: "bt_sorted m \<Longrightarrow> bt_sorted (bt_remove k m)"
proof (induction k m rule: bt_remove.induct)
  case (2 k k' v' m)
  then show ?case using set_bt_remove [of m k] by (fastforce simp: bt_sorted_def)
qed (simp add: bt_sorted_def)

lemma bt_get_iff: "bt_sorted m \<Longrightarrow> bt_get m k = Some v \<longleftrightarrow> (k, v) \<in> set m"
  by (induction m k rule: bt_get.induct) (force simp: bt_sorted_def)+

interpretation btree: ordered_map "[]" bt_get bt_insert bt_remove bt_first "\<lambda>m. m" bt_sorted
  by unfold_locales
    (simp_all add: bt_sorted_insert bt_sorted_remove set_bt_insert set_bt_remove bt_get_iff
       bt_first_def, simp_all add: bt_sorted_def)

lemma bt_remove_first [simp]: "bt_remove k ((k, v) # m) = m"
  by simp

lemma bt_first_simps [simp]: "bt_first [] = None" "bt_first (e # m) = Some e"
  by (simp_all add: bt_first_def)

lemma bt_sorted_simps [simp]:
  "bt_sorted []" "bt_sorted ((k, v) # m) \<longleftrightarrow> (\<forall>e \<in> set m. k < fst e) \<and> bt_sorted m"
  by (auto simp: bt_sorted_def)

lemma length_bt_insert_le: "length (bt_insert k v m) \<le> Suc (length m)"
  by (induction k v m rule: bt_insert.induct) auto

lemma bt_insert_nonempty [simp]: "bt_insert k v m \<noteq> []"
  by (cases "(k, v, m)" rule: bt_insert.cases) auto

end
