(* ===== verification/Reassembly_Correct.thy ===== *)
theory Reassembly_Correct
  imports Reassembly
begin

text \<open>
  Correctness of the reassembler: the well-formedness invariant and that every operation keeps it,
  the memory bounds of the pending buffer, losslessness against an abstract byte stream for every
  arrival order, exact accounting of abandoned bytes, the provenance of consumed bytes, and what
  happens past four gigabytes.
\<close>

subsection \<open>Abstraction and invariants\<close>

definition contig_bytes :: "stream_reassembler \<Rightarrow> bytes" where
  "contig_bytes r = concat (map seg_data (contiguous r))"

definition pending_bytes :: "(nat, segment) btree_map \<Rightarrow> nat" where
  "pending_bytes m = sum_list (map (\<lambda>e. length (seg_data (snd e))) m)"

text \<open>The counters agree with the buffers, and the pending map is ordered and holds no empty segment.\<close>

definition wf_core :: "stream_reassembler \<Rightarrow> bool" where
  "wf_core r \<longleftrightarrow>
     contiguous_len r = length (contig_bytes r) \<and> contiguous_len r \<le> next_expected_relative r \<and>
     bt_sorted (pending r) \<and> pending_len r = pending_bytes (pending r) \<and>
     (\<forall>e \<in> set (pending r). seg_data (snd e) \<noteq> [])"

text \<open>Between operations every pending segment lies beyond a gap, and the gap's clock runs exactly
  while there is one.\<close>

definition wf_reassembler :: "stream_reassembler \<Rightarrow> bool" where
  "wf_reassembler r \<longleftrightarrow>
     wf_core r \<and> (\<forall>e \<in> set (pending r). next_expected_relative r < fst e) \<and>
     (pending_since r = None \<longleftrightarrow> pending r = [])"

definition within_limits :: "stream_reassembler \<Rightarrow> bool" where
  "within_limits r \<longleftrightarrow>
     pending_len r \<le> max_bytes (limits r) \<and> length (pending r) \<le> max_packets (limits r)"

text \<open>The stream offsets whose bytes the reassembler has delivered or holds.\<close>

definition held :: "stream_reassembler \<Rightarrow> nat set" where
  "held r = {..<next_expected_relative r} \<union>
     (\<Union>e \<in> set (pending r). {fst e..<fst e + length (seg_data (snd e))})"

text \<open>Bytes at an offset agree with the sender's stream \<open>s\<close>.\<close>

definition on_stream :: "(nat \<Rightarrow> u8) \<Rightarrow> nat \<Rightarrow> bytes \<Rightarrow> bool" where
  "on_stream s k bs \<longleftrightarrow> bs = map s [k..<k + length bs]"

definition pending_on_stream :: "(nat \<Rightarrow> u8) \<Rightarrow> stream_reassembler \<Rightarrow> bool" where
  "pending_on_stream s r \<longleftrightarrow> (\<forall>e \<in> set (pending r). on_stream s (fst e) (seg_data (snd e)))"

definition contig_on_stream :: "(nat \<Rightarrow> u8) \<Rightarrow> stream_reassembler \<Rightarrow> bool" where
  "contig_on_stream s r \<longleftrightarrow>
     contig_bytes r = map s [next_expected_relative r - contiguous_len r..<next_expected_relative r]"

lemma pending_bytes_simps [simp]:
  "pending_bytes [] = 0"
  "pending_bytes (e # m) = length (seg_data (snd e)) + pending_bytes m"
  by (simp_all add: pending_bytes_def)

lemma on_stream_nth: "on_stream s k bs \<longleftrightarrow> (\<forall>i < length bs. bs ! i = s (k + i))"
  unfolding on_stream_def by (subst list_eq_iff_nth_eq) auto

lemma on_stream_drop: "on_stream s k bs \<Longrightarrow> on_stream s (k + n) (drop n bs)"
  by (auto simp: on_stream_nth add.assoc)

lemma trim_segment_data [simp]: "seg_data (trim_segment n seg) = drop n (seg_data seg)"
  by (simp add: trim_segment_def)

lemma deliver_simps [simp]:
  "next_expected_relative (deliver seg r) = next_expected_relative r + length (seg_data seg)"
  "contig_bytes (deliver seg r) = contig_bytes r @ seg_data seg"
  "contiguous_len (deliver seg r) = contiguous_len r + length (seg_data seg)"
  "pending_len (deliver seg r) = pending_len r"
  "limits (deliver seg r) = limits r"
  "base_seq (deliver seg r) = base_seq r"
  "pending_since (deliver seg r) = pending_since r"
  by (simp_all add: deliver_def contig_bytes_def)

lemma unpend_simps [simp]:
  "next_expected_relative (unpend k seg r) = next_expected_relative r"
  "contig_bytes (unpend k seg r) = contig_bytes r"
  "contiguous_len (unpend k seg r) = contiguous_len r"
  "contiguous (unpend k seg r) = contiguous r"
  "pending_len (unpend k seg r) = pending_len r - length (seg_data seg)"
  "limits (unpend k seg r) = limits r"
  "base_seq (unpend k seg r) = base_seq r"
  "pending_since (unpend k seg r) = pending_since r"
  by (simp_all add: unpend_def contig_bytes_def)

subsection \<open>Draining\<close>

text \<open>
  One pass of the drain loop, as an induction principle: a property that holds of the three ways an
  iteration ends and that the loop's continuations carry on holds of the loop.
\<close>

lemma drain_loop_Nil: "pending r = [] \<Longrightarrow> drain_pending_loop r = r"
  by (simp add: drain_pending_loop.simps)

lemma drain_loop_gap:
  "pending r = (k, seg) # m \<Longrightarrow> next_expected_relative r < k \<Longrightarrow> drain_pending_loop r = r"
  by (simp add: drain_pending_loop.simps)

lemma drain_loop_stale:
  assumes "pending r = (k, seg) # m" and "k + length (seg_data seg) \<le> next_expected_relative r"
    and "seg_data seg \<noteq> []"
  shows "drain_pending_loop r = drain_pending_loop (unpend k seg r)"
proof -
  have "k < next_expected_relative r" using assms(2,3) by (cases "seg_data seg") auto
  with assms(1,2) show ?thesis
    by (subst drain_pending_loop.simps) (simp add: Let_def)
qed

lemma drain_loop_deliver:
  assumes "pending r = (k, seg) # m" and "k \<le> next_expected_relative r"
    and "next_expected_relative r < k + length (seg_data seg)"
  shows "\<exists>seg'. seg_data seg' = drop (next_expected_relative r - k) (seg_data seg)
           \<and> seg' \<in> {seg, trim_segment (next_expected_relative r - k) seg}
           \<and> drain_pending_loop r = drain_pending_loop (deliver seg' (unpend k seg r))"
proof (cases "k = next_expected_relative r")
  case True
  with assms show ?thesis
    by (intro exI [of _ seg]) (subst drain_pending_loop.simps, simp)
next
  case False
  with assms show ?thesis
    by (intro exI [of _ "trim_segment (next_expected_relative r - k) seg"])
      (subst drain_pending_loop.simps, simp add: Let_def)
qed

lemma drain_induct [consumes 1, case_names settled stale delivered]:
  assumes wf: "wf_core r"
    and fin: "\<And>r. wf_core r \<Longrightarrow> drain_pending_loop r = r \<Longrightarrow>
                 \<forall>e \<in> set (pending r). next_expected_relative r < fst e \<Longrightarrow> P r r"
    and stale: "\<And>r k seg m r'. wf_core r \<Longrightarrow> pending r = (k, seg) # m \<Longrightarrow>
                 k + length (seg_data seg) \<le> next_expected_relative r \<Longrightarrow>
                 P (unpend k seg r) r' \<Longrightarrow> P r r'"
    and del: "\<And>r k seg m seg' r'. wf_core r \<Longrightarrow> pending r = (k, seg) # m \<Longrightarrow>
                 k \<le> next_expected_relative r \<Longrightarrow>
                 next_expected_relative r < k + length (seg_data seg) \<Longrightarrow>
                 seg_data seg' = drop (next_expected_relative r - k) (seg_data seg) \<Longrightarrow>
                 seg' \<in> {seg, trim_segment (next_expected_relative r - k) seg} \<Longrightarrow>
                 P (deliver seg' (unpend k seg r)) r' \<Longrightarrow> P r r'"
  shows "P r (drain_pending_loop r)"
  using wf
proof (induction "length (pending r)" arbitrary: r rule: less_induct)
  case less
  show ?case
  proof (cases "pending r")
    case Nil
    then show ?thesis using fin [of r] less.prems by (simp add: drain_loop_Nil)
  next
    case (Cons e m)
    obtain k seg where e: "e = (k, seg)" by (cases e)
    note p = Cons [unfolded e]
    have core: "wf_core (unpend k seg r)"
      using less.prems p by (auto simp: wf_core_def)
    consider "next_expected_relative r < k"
      | "k \<le> next_expected_relative r" "k + length (seg_data seg) \<le> next_expected_relative r"
      | "k \<le> next_expected_relative r" "next_expected_relative r < k + length (seg_data seg)"
      by linarith
    then show ?thesis
    proof cases
      case 1
      then show ?thesis using fin [OF less.prems] p less.prems
        by (force simp: drain_loop_gap wf_core_def)
    next
      case 2
      moreover have "seg_data seg \<noteq> []" using less.prems p by (auto simp: wf_core_def)
      ultimately show ?thesis
        using stale [OF less.prems p] less.hyps [OF _ core] p
        by (simp add: drain_loop_stale)
    next
      case 3
      from drain_loop_deliver [OF p 3] obtain seg' where
        s: "seg_data seg' = drop (next_expected_relative r - k) (seg_data seg)"
          "seg' \<in> {seg, trim_segment (next_expected_relative r - k) seg}"
          "drain_pending_loop r = drain_pending_loop (deliver seg' (unpend k seg r))"
        by blast
      have "wf_core (deliver seg' (unpend k seg r))"
        using core by (auto simp: wf_core_def)
      then show ?thesis
        using del [OF less.prems p 3 s(1,2)] less.hyps p s(3) by simp
    qed
  qed
qed

text \<open>What the loop leaves behind.\<close>

lemma drain_loop_wf:
  assumes "wf_core r"
  shows "wf_core (drain_pending_loop r) \<and>
    (\<forall>e \<in> set (pending (drain_pending_loop r)).
       next_expected_relative (drain_pending_loop r) < fst e)"
  using assms by (induction rule: drain_induct) auto

lemma drain_loop_frame:
  assumes "wf_core r"
  shows "limits (drain_pending_loop r) = limits r \<and> base_seq (drain_pending_loop r) = base_seq r \<and>
    pending_since (drain_pending_loop r) = pending_since r \<and>
    next_expected_relative r \<le> next_expected_relative (drain_pending_loop r)"
  using assms by (induction rule: drain_induct) auto

lemma drain_loop_shrinks:
  assumes "wf_core r"
  shows "pending_len (drain_pending_loop r) \<le> pending_len r \<and>
    length (pending (drain_pending_loop r)) \<le> length (pending r)"
  using assms by (induction rule: drain_induct) auto

lemma drain_loop_held:
  assumes "wf_core r"
  shows "held (drain_pending_loop r) = held r"
  using assms
proof (induction rule: drain_induct)
  case (stale r k seg m r')
  then show ?case by (auto simp: held_def)
next
  case (delivered r k seg m seg' r')
  have "{..<next_expected_relative r + length (seg_data seg')}
      = {..<next_expected_relative r} \<union> {k..<k + length (seg_data seg)}"
    using delivered(3,4,5) by auto
  then have "held (deliver seg' (unpend k seg r)) = held r"
    using delivered(2) by (auto simp: held_def)
  with delivered(7) show ?case by simp
qed simp

lemma deliver_on_stream:
  assumes "contig_on_stream s r" and "contiguous_len r \<le> next_expected_relative r"
    and "on_stream s (next_expected_relative r) (seg_data seg)"
  shows "contig_on_stream s (deliver seg r)"
proof -
  have "seg_data seg =
      map s [next_expected_relative r..<next_expected_relative r + length (seg_data seg)]"
    using assms(3) by (simp add: on_stream_def)
  then show ?thesis
    using assms(1,2) upt_add_eq_append
      [of "next_expected_relative r - contiguous_len r" "next_expected_relative r"
        "length (seg_data seg)"]
    by (simp add: contig_on_stream_def)
qed

lemma drain_loop_on_stream:
  assumes "wf_core r"
  shows "contig_on_stream s r \<Longrightarrow> pending_on_stream s r \<Longrightarrow>
    contig_on_stream s (drain_pending_loop r) \<and> pending_on_stream s (drain_pending_loop r)"
  using assms
proof (induction rule: drain_induct)
  case (stale r k seg m r')
  then show ?case
    by (simp add: pending_on_stream_def contig_on_stream_def)
next
  case (delivered r k seg m seg' r')
  have "on_stream s k (seg_data seg)"
    using delivered(2) delivered(9) by (simp add: pending_on_stream_def)
  then have "on_stream s (next_expected_relative r) (seg_data seg')"
    using on_stream_drop [of s k "seg_data seg" "next_expected_relative r - k"] delivered(3,5)
    by simp
  then have "contig_on_stream s (deliver seg' (unpend k seg r))"
    using delivered(1,8)
    by (intro deliver_on_stream) (auto simp: wf_core_def contig_on_stream_def)
  moreover have "pending_on_stream s (deliver seg' (unpend k seg r))"
    using delivered(2,9) by (simp add: pending_on_stream_def)
  ultimately show ?case using delivered(7) by blast
qed simp

lemma contig_bytes_update [simp]:
  "contig_bytes (r\<lparr>pending := p\<rparr>) = contig_bytes r"
  "contig_bytes (r\<lparr>pending_len := n\<rparr>) = contig_bytes r"
  "contig_bytes (r\<lparr>pending_since := t\<rparr>) = contig_bytes r"
  "contig_bytes (r\<lparr>base_seq := b\<rparr>) = contig_bytes r"
  by (simp_all add: contig_bytes_def)

lemma drain_pending_simps [simp]:
  "pending (drain_pending r) = pending (drain_pending_loop r)"
  "pending_len (drain_pending r) = pending_len (drain_pending_loop r)"
  "next_expected_relative (drain_pending r) = next_expected_relative (drain_pending_loop r)"
  "contig_bytes (drain_pending r) = contig_bytes (drain_pending_loop r)"
  "contiguous_len (drain_pending r) = contiguous_len (drain_pending_loop r)"
  "contiguous (drain_pending r) = contiguous (drain_pending_loop r)"
  "limits (drain_pending r) = limits (drain_pending_loop r)"
  "base_seq (drain_pending r) = base_seq (drain_pending_loop r)"
  by (simp_all add: drain_pending_def Let_def)

lemma drain_pending_wf:
  assumes "wf_core r" and "pending_since r = None \<Longrightarrow> pending r = []"
  shows "wf_reassembler (drain_pending r)"
proof -
  have "pending (drain_pending_loop r) \<noteq> [] \<Longrightarrow> pending_since (drain_pending_loop r) \<noteq> None"
    using drain_loop_frame [OF assms(1)] drain_loop_shrinks [OF assms(1)] assms(2)
    by (cases "pending_since r"; cases "pending (drain_pending_loop r)") auto
  moreover have "wf_core (drain_pending r)"
    using drain_loop_wf [OF assms(1)] by (simp add: wf_core_def)
  ultimately show ?thesis
    using drain_loop_wf [OF assms(1)]
    by (auto simp: wf_reassembler_def drain_pending_def Let_def)
qed

subsection \<open>Evicting and buffering\<close>

lemma evict_induct [consumes 1, case_names settled evicted]:
  assumes wf: "wf_core r"
    and fin: "\<And>r n. wf_core r \<Longrightarrow> within_limits r \<Longrightarrow> P r n r n"
    and evict: "\<And>r n k seg m r' n'. wf_core r \<Longrightarrow> \<not> within_limits r \<Longrightarrow> pending r = (k, seg) # m \<Longrightarrow>
        P (unpend k seg r) (n + length (seg_data seg)) r' n' \<Longrightarrow> P r n r' n'"
  shows "P r n (fst (evict_loop r n)) (snd (evict_loop r n))"
  using wf
proof (induction r n rule: evict_loop.induct)
  case (1 r n)
  show ?case
  proof (cases "within_limits r")
    case True
    then show ?thesis
      using fin [OF "1.prems"] by (subst (1 2) evict_loop.simps) (auto simp: within_limits_def)
  next
    case False
    then have over: "pending_len r > max_bytes (limits r) \<or> length (pending r) > max_packets (limits r)"
      by (auto simp: within_limits_def)
    with "1.prems" obtain k seg m where p: "pending r = (k, seg) # m"
      by (cases "pending r") (auto simp: wf_core_def)
    have core: "wf_core (unpend k seg r)"
      using "1.prems" p by (auto simp: wf_core_def)
    have "evict_loop r n = evict_loop (unpend k seg r) (n + length (seg_data seg))"
      using over p by (subst evict_loop.simps) simp
    then show ?thesis
      using evict [OF "1.prems" False p] "1.IH" [OF over] core p by simp
  qed
qed

lemma evict_loop_result:
  assumes "wf_core r"
  shows "wf_core (fst (evict_loop r n)) \<and> within_limits (fst (evict_loop r n)) \<and>
    pending_len (fst (evict_loop r n)) + snd (evict_loop r n) = pending_len r + n \<and>
    (\<exists>i. pending (fst (evict_loop r n)) = drop i (pending r))"
  using assms
proof (induction rule: evict_induct)
  case (settled r n)
  then show ?case by (auto intro: exI [of _ 0])
next
  case (evicted r n k seg m r' n')
  then obtain i where "pending r' = drop i m" by auto
  then have "pending r' = drop (Suc i) (pending r)" using evicted(3) by simp
  moreover have "length (seg_data seg) \<le> pending_len r"
    using evicted(1,3) by (simp add: wf_core_def)
  ultimately show ?case using evicted(4) by auto
qed

lemma evict_loop_frame:
  assumes "wf_core r"
  shows "limits (fst (evict_loop r n)) = limits r \<and> base_seq (fst (evict_loop r n)) = base_seq r \<and>
    next_expected_relative (fst (evict_loop r n)) = next_expected_relative r \<and>
    contiguous (fst (evict_loop r n)) = contiguous r \<and>
    contiguous_len (fst (evict_loop r n)) = contiguous_len r \<and>
    pending_since (fst (evict_loop r n)) = pending_since r"
  using assms by (induction rule: evict_induct) auto

lemma insert_pending_simps [simp]:
  "pending (insert_pending t rel seg r) = bt_insert rel seg (pending r)"
  "limits (insert_pending t rel seg r) = limits r"
  "base_seq (insert_pending t rel seg r) = base_seq r"
  "next_expected_relative (insert_pending t rel seg r) = next_expected_relative r"
  "contiguous (insert_pending t rel seg r) = contiguous r"
  "contig_bytes (insert_pending t rel seg r) = contig_bytes r"
  "contiguous_len (insert_pending t rel seg r) = contiguous_len r"
  "pending_since (insert_pending t rel seg r) = (if pending r = [] then Some t else pending_since r)"
  by (simp_all add: insert_pending_def Let_def contig_bytes_def)

lemma insert_pending_len:
  assumes "wf_core r"
  shows "pending_len (insert_pending t rel seg r) = pending_bytes (bt_insert rel seg (pending r))"
proof (cases "bt_get (pending r) rel")
  case None
  then show ?thesis
    using assms btree.weight_insert_fresh [of "pending r" rel "\<lambda>e. length (seg_data (snd e))" seg]
    by (simp add: insert_pending_def Let_def wf_core_def pending_bytes_def)
next
  case (Some e)
  then have "length (seg_data e) \<le> pending_bytes (pending r)"
    using assms btree.weight_remove [of "pending r" rel e "\<lambda>e. length (seg_data (snd e))"]
    by (simp add: wf_core_def pending_bytes_def)
  then show ?thesis
    using Some assms
      btree.weight_insert_replace [of "pending r" rel e "\<lambda>e. length (seg_data (snd e))" seg]
    by (simp add: insert_pending_def Let_def wf_core_def pending_bytes_def)
qed

lemma insert_pending_wf:
  assumes "wf_reassembler r" and "next_expected_relative r < rel" and "seg_data seg \<noteq> []"
  shows "wf_reassembler (insert_pending t rel seg r)"
  using assms insert_pending_len [of r t rel seg]
  by (auto simp: wf_reassembler_def wf_core_def btree.invar_insert btree.insert_entries)

text \<open>The four ways \<open>buffer_pending\<close> ends.\<close>

lemma buffer_pending_cases [consumes 1, case_names duplicate buffered aged evicted]:
  assumes "wf_reassembler r"
  obtains (duplicate) existing where
      "buffer_pending t0 t1 rel seg r = (DuplicateDiscarded, r)"
      "bt_get (pending r) rel = Some existing" "length (seg_data seg) \<le> length (seg_data existing)"
    | (buffered) r1 where
      "buffer_pending t0 t1 rel seg r = (BufferedOutOfOrder, r1)"
      "r1 = insert_pending t0 rel seg r" "within_limits r1" "\<not> age_exceeded t1 r1"
      "\<And>e. bt_get (pending r) rel = Some e \<Longrightarrow> length (seg_data e) < length (seg_data seg)"
    | (aged) r1 where
      "buffer_pending t0 t1 rel seg r =
         (GapAbandoned (pending_len r1), r1\<lparr>pending := [], pending_len := 0, pending_since := None\<rparr>)"
      "r1 = insert_pending t0 rel seg r" "age_exceeded t1 r1"
    | (evicted) r1 r2 n where
      "buffer_pending t0 t1 rel seg r =
         (GapAbandoned n, if pending r2 = [] then r2\<lparr>pending_since := None\<rparr> else r2)"
      "r1 = insert_pending t0 rel seg r" "\<not> within_limits r1" "evict_loop r1 0 = (r2, n)"
proof -
  let ?r1 = "insert_pending t0 rel seg r"
  obtain r2 n where ev: "evict_loop ?r1 0 = (r2, n)" by (cases "evict_loop ?r1 0")
  show thesis
  proof (cases "case bt_get (pending r) rel of None \<Rightarrow> False
      | Some existing \<Rightarrow> length (seg_data existing) \<ge> length (seg_data seg)")
    case True
    then show ?thesis using duplicate by (auto simp: buffer_pending_def split: option.splits)
  next
    case False
    then have longer: "\<And>e. bt_get (pending r) rel = Some e \<Longrightarrow> length (seg_data e) < length (seg_data seg)"
      by auto
    show ?thesis
    proof (cases "within_limits ?r1 \<and> \<not> age_exceeded t1 ?r1")
      case True
      with False longer show ?thesis
        by (intro buffered) (auto simp: buffer_pending_def Let_def within_limits_def)
    next
      case out: False
      with False ev show ?thesis
        by (cases "age_exceeded t1 ?r1"; intro aged evicted)
          (auto simp: buffer_pending_def Let_def within_limits_def)
    qed
  qed
qed

lemma wf_core_cong:
  assumes "wf_core r" and "contiguous r' = contiguous r" and "contiguous_len r' = contiguous_len r"
    and "next_expected_relative r' = next_expected_relative r"
    and "bt_sorted (pending r')" and "pending_len r' = pending_bytes (pending r')"
    and "set (pending r') \<subseteq> set (pending r)"
  shows "wf_core r'"
  using assms by (auto simp: wf_core_def contig_bytes_def)

lemma wf_drop_pending:
  assumes "wf_reassembler r"
  shows "wf_reassembler (r\<lparr>pending := [], pending_len := 0, pending_since := None\<rparr>)"
  using assms by (auto simp: wf_reassembler_def wf_core_def contig_bytes_def)

lemma evict_loop_wf:
  assumes "wf_reassembler r" and "evict_loop r n = (r2, m)"
  shows "wf_reassembler (if pending r2 = [] then r2\<lparr>pending_since := None\<rparr> else r2)"
proof -
  have core: "wf_core r" using assms(1) by (simp add: wf_reassembler_def)
  obtain i where i: "pending r2 = drop i (pending r)" and w: "wf_core r2"
    using evict_loop_result [OF core, of n] assms(2) by auto
  have "next_expected_relative r2 = next_expected_relative r" and "pending_since r2 = pending_since r"
    using evict_loop_frame [OF core, of n] assms(2) by auto
  moreover have "pending r = [] \<Longrightarrow> pending r2 = []" using i by simp
  ultimately show ?thesis
    using w assms(1) i set_drop_subset [of i "pending r"]
    by (auto simp: wf_reassembler_def wf_core_def contig_bytes_def)
qed

lemma buffer_pending_wf:
  assumes "wf_reassembler r" and "next_expected_relative r < rel" and "seg_data seg \<noteq> []"
  shows "wf_reassembler (snd (buffer_pending t0 t1 rel seg r))"
  using assms(1)
proof (cases rule: buffer_pending_cases [of r t0 t1 rel seg])
  case (duplicate existing)
  with assms show ?thesis by simp
next
  case (buffered r1)
  with assms show ?thesis by (simp add: insert_pending_wf)
next
  case (aged r1)
  with assms show ?thesis by (simp add: insert_pending_wf wf_drop_pending)
next
  case (evicted r1 r2 n)
  with assms insert_pending_wf [OF assms] show ?thesis
    using evict_loop_wf [of r1 0 r2 n] by auto
qed

lemma buffer_pending_frame:
  assumes "wf_reassembler r" and "next_expected_relative r < rel" and "seg_data seg \<noteq> []"
    and res: "buffer_pending t0 t1 rel seg r = (res, r')"
  shows "limits r' = limits r \<and> base_seq r' = base_seq r \<and>
    next_expected_relative r' = next_expected_relative r \<and>
    contiguous r' = contiguous r \<and> contiguous_len r' = contiguous_len r"
  using assms(1)
proof (cases rule: buffer_pending_cases [of r t0 t1 rel seg])
  case (evicted r1 r2 n)
  with insert_pending_wf [OF assms(1-3), of t0] show ?thesis
    using evict_loop_frame [of r1 0] res by (auto simp: wf_reassembler_def)
qed (use res in auto)

lemma buffer_pending_limits:
  assumes "wf_reassembler r" and "next_expected_relative r < rel" and "seg_data seg \<noteq> []"
    and "within_limits r" and res: "buffer_pending t0 t1 rel seg r = (res, r')"
  shows "within_limits r'"
  using assms(1)
proof (cases rule: buffer_pending_cases [of r t0 t1 rel seg])
  case (evicted r1 r2 n)
  with insert_pending_wf [OF assms(1-3), of t0] show ?thesis
    using evict_loop_result [of r1 0] res by (auto simp: wf_reassembler_def within_limits_def)
qed (use res assms in \<open>auto simp: within_limits_def\<close>)

lemma pending_bytes_pos: "e \<in> set m \<Longrightarrow> seg_data (snd e) \<noteq> [] \<Longrightarrow> 0 < pending_bytes m"
  by (induction m) auto

lemma pending_bytes_drop: "pending_bytes (drop i m) \<le> pending_bytes m"
  by (induction m arbitrary: i) (auto simp: drop_Cons le_SucI trans_le_add2 split: nat.splits)

text \<open>The bytes a \<open>GapAbandoned\<close> reports are exactly the bytes the pending buffer loses.\<close>

lemma buffer_pending_accounting:
  assumes "wf_reassembler r" and "next_expected_relative r < rel" and "seg_data seg \<noteq> []"
    and res: "buffer_pending t0 t1 rel seg r = (GapAbandoned n, r')"
  shows "0 < n \<and> n + pending_len r' = pending_len (insert_pending t0 rel seg r)"
  using assms(1)
proof (cases rule: buffer_pending_cases [of r t0 t1 rel seg])
  case (aged r1)
  have "(rel, seg) \<in> set (bt_insert rel seg (pending r))"
    using assms(1) by (simp add: btree.insert_entries wf_reassembler_def wf_core_def)
  then have "0 < pending_len r1"
    using insert_pending_len [of r t0 rel seg] assms(1,3) pending_bytes_pos [of "(rel, seg)"] aged(2)
    by (simp add: wf_reassembler_def)
  with aged res show ?thesis by auto
next
  case (evicted r1 r2 m)
  have core: "wf_core r1"
    using insert_pending_wf [OF assms(1-3), of t0] evicted(2) by (simp add: wf_reassembler_def)
  have sum: "pending_len r2 + m = pending_len r1" and w2: "wf_core r2" "within_limits r2"
    using evict_loop_result [OF core, of 0] evicted(4) by auto
  obtain i where i: "pending r2 = drop i (pending r1)"
    using evict_loop_result [OF core, of 0] evicted(4) by auto
  have "0 < i"
    using evicted(3) w2 i core evict_loop_frame [OF core, of 0] evicted(4)
    by (cases i) (auto simp: within_limits_def wf_core_def)
  moreover have "pending r1 \<noteq> []" using evicted(2) by simp
  ultimately have "pending_len r2 < pending_len r1"
    using core w2(1) i by (cases "pending r1"; cases i) (auto simp: wf_core_def le_imp_less_Suc intro: le_less_trans [OF pending_bytes_drop])
  with evicted res sum show ?thesis by (auto split: if_splits)
qed (use res in auto)

text \<open>What an abandoned gap leaves pending is the part at the highest offsets.\<close>

lemma buffer_pending_kept:
  assumes "wf_reassembler r" and "next_expected_relative r < rel" and "seg_data seg \<noteq> []"
    and res: "buffer_pending t0 t1 rel seg r = (GapAbandoned n, r')"
  shows "\<exists>k. pending r' = drop k (bt_insert rel seg (pending r))"
  using assms(1)
proof (cases rule: buffer_pending_cases [of r t0 t1 rel seg])
  case (aged r1)
  with res show ?thesis by (intro exI [of _ "length (bt_insert rel seg (pending r))"]) auto
next
  case (evicted r1 r2 m)
  have "wf_core r1"
    using insert_pending_wf [OF assms(1-3), of t0] evicted(2) by (simp add: wf_reassembler_def)
  then obtain k where "pending r2 = drop k (pending r1)"
    using evict_loop_result [of r1 0] evicted(4) by auto
  with evicted res show ?thesis by (intro exI [of _ k]) (auto split: if_splits)
qed (use res in auto)

subsection \<open>Pushing\<close>

abbreviation seg_of :: "nat \<Rightarrow> usize_range \<Rightarrow> bytes \<Rightarrow> segment" where
  "seg_of i rng bs \<equiv> \<lparr>seg_packet_index = i, seg_range = rng, seg_data = bs\<rparr>"

lemma push_relative_cases [consumes 1, case_names duplicate delivered gap]:
  assumes "p \<noteq> []"
  obtains (duplicate)
      "push_relative t0 t1 i rng p rel r = (DuplicateDiscarded, r)"
      "rel + length p \<le> next_expected_relative r"
    | (delivered) seg where
      "push_relative t0 t1 i rng p rel r = (Delivered, drain_pending (deliver seg r))"
      "rel \<le> next_expected_relative r" "next_expected_relative r < rel + length p"
      "seg_data seg = drop (next_expected_relative r - rel) p"
      "seg \<in> {seg_of i rng p, trim_segment (next_expected_relative r - rel) (seg_of i rng p)}"
    | (gap)
      "push_relative t0 t1 i rng p rel r = buffer_pending t0 t1 rel (seg_of i rng p) r"
      "next_expected_relative r < rel" "p \<noteq> []"
proof -
  consider "rel + length p \<le> next_expected_relative r"
    | "rel < next_expected_relative r" "next_expected_relative r < rel + length p"
    | "rel = next_expected_relative r" "next_expected_relative r < rel + length p"
    | "next_expected_relative r < rel" "next_expected_relative r < rel + length p"
    by linarith
  then show thesis
  proof cases
    case 1
    then show ?thesis by (intro duplicate) (simp_all add: push_relative_def)
  next
    case 2
    then show ?thesis
      by (intro delivered [of "trim_segment (next_expected_relative r - rel) (seg_of i rng p)"])
        (simp_all add: push_relative_def)
  next
    case 3
    then show ?thesis
      by (intro delivered [of "seg_of i rng p"]) (simp_all add: push_relative_def)
  next
    case 4
    with assms show ?thesis by (intro gap) (simp_all add: push_relative_def)
  qed
qed

lemma deliver_wf_core:
  assumes "wf_core r"
  shows "wf_core (deliver seg r)"
  using assms by (auto simp: wf_core_def)

lemma push_relative_wf:
  assumes "wf_reassembler r" and "p \<noteq> []" and res: "push_relative t0 t1 i rng p rel r = (res, r')"
  shows "wf_reassembler r'"
  using assms(2)
proof (cases rule: push_relative_cases [of p t0 t1 i rng rel r])
  case duplicate
  with assms show ?thesis by simp
next
  case (delivered seg)
  have "wf_reassembler (drain_pending (deliver seg r))"
    using assms(1) by (intro drain_pending_wf) (auto simp: wf_reassembler_def deliver_wf_core)
  with delivered res show ?thesis by simp
next
  case gap
  then have b: "buffer_pending t0 t1 rel (seg_of i rng p) r = (res, r')" using res by simp
  show ?thesis
    using buffer_pending_wf [OF assms(1) gap(2), of "seg_of i rng p" t0 t1] b gap(3) by simp
qed

lemma push_relative_limits:
  assumes "wf_reassembler r" and "within_limits r" and "p \<noteq> []"
    and res: "push_relative t0 t1 i rng p rel r = (res, r')"
  shows "within_limits r' \<and> limits r' = limits r"
  using assms(3)
proof (cases rule: push_relative_cases [of p t0 t1 i rng rel r])
  case duplicate
  with assms show ?thesis by simp
next
  case (delivered seg)
  have core: "wf_core (deliver seg r)"
    using assms(1) by (simp add: wf_reassembler_def deliver_wf_core)
  show ?thesis
    using drain_loop_shrinks [OF core] drain_loop_frame [OF core] assms(2) delivered res
    by (auto simp: within_limits_def)
next
  case gap
  then have b: "buffer_pending t0 t1 rel (seg_of i rng p) r = (res, r')" using res by simp
  show ?thesis
    using buffer_pending_limits [OF assms(1) gap(2) _ assms(2) b]
      buffer_pending_frame [OF assms(1) gap(2) _ b] gap(3) by simp
qed

lemma insert_pending_held:
  assumes "wf_reassembler r"
    and "\<And>e. bt_get (pending r) rel = Some e \<Longrightarrow> length (seg_data e) < length (seg_data seg)"
  shows "held (insert_pending t rel seg r) = held r \<union> {rel..<rel + length (seg_data seg)}"
proof -
  have sorted: "bt_sorted (pending r)" using assms(1) by (simp add: wf_reassembler_def wf_core_def)
  have sub: "{fst e..<fst e + length (seg_data (snd e))} \<subseteq> {rel..<rel + length (seg_data seg)}"
    if "e \<in> set (pending r)" and "fst e = rel" for e
  proof -
    have "bt_get (pending r) rel = Some (snd e)"
      using that btree.get_entries [OF sorted, of rel "snd e"] by (cases e) auto
    then show ?thesis using assms(2) that by fastforce
  qed
  let ?I = "\<lambda>e. {fst e..<fst e + length (seg_data (snd e))}"
  have "(\<Union>e \<in> set (pending r). ?I e) \<union> {rel..<rel + length (seg_data seg)}
      = (\<Union>e \<in> {e \<in> set (pending r). fst e \<noteq> rel}. ?I e) \<union> {rel..<rel + length (seg_data seg)}"
    using sub by blast
  then show ?thesis
    unfolding held_def by (simp add: btree.insert_entries [OF sorted]) blast
qed

text \<open>As long as no gap is abandoned, a push loses nothing: the offsets held afterwards are those held
  before together with all of the segment's own.\<close>

lemma push_relative_held:
  assumes "wf_reassembler r" and "p \<noteq> []"
    and res: "push_relative t0 t1 i rng p rel r = (res, r')" and "\<And>n. res \<noteq> GapAbandoned n"
  shows "held r' = held r \<union> {rel..<rel + length p}"
  using assms(2)
proof (cases rule: push_relative_cases [of p t0 t1 i rng rel r])
  case duplicate
  with res show ?thesis by (auto simp: held_def)
next
  case (delivered seg)
  have core: "wf_core (deliver seg r)"
    using assms(1) by (simp add: wf_reassembler_def deliver_wf_core)
  have "held r' = held (deliver seg r)"
    using drain_loop_held [OF core] delivered(1) res by (auto simp: held_def)
  moreover have "{..<next_expected_relative r + length (seg_data seg)}
      = {..<next_expected_relative r} \<union> {rel..<rel + length p}"
    using delivered(2-4) by auto
  ultimately show ?thesis by (auto simp: held_def)
next
  case gap
  show ?thesis
    using assms(1)
  proof (cases rule: buffer_pending_cases [of r t0 t1 rel "seg_of i rng p"])
    case (duplicate existing)
    have "bt_sorted (pending r)" using assms(1) by (simp add: wf_reassembler_def wf_core_def)
    then have "(rel, existing) \<in> set (pending r)"
      using btree.get_entries [of "pending r" rel existing] duplicate(2) by simp
    then have "{rel..<rel + length (seg_data existing)} \<subseteq> held r"
      by (auto simp: held_def)
    moreover have "{rel..<rel + length p} \<subseteq> {rel..<rel + length (seg_data existing)}"
      using duplicate(3) by auto
    ultimately have "{rel..<rel + length p} \<subseteq> held r" by blast
    moreover have "r' = r" using duplicate(1) gap(1) res by simp
    ultimately show ?thesis by blast
  next
    case (buffered r1)
    with gap res insert_pending_held [OF assms(1), of rel "seg_of i rng p" t0] show ?thesis by auto
  qed (use gap res assms(4) in auto)
qed

lemma buffer_pending_subset:
  assumes "wf_reassembler r" and "next_expected_relative r < rel" and "seg_data seg \<noteq> []"
    and res: "buffer_pending t0 t1 rel seg r = (res, r')"
  shows "set (pending r') \<subseteq> insert (rel, seg) (set (pending r))"
  using assms(1)
proof (cases rule: buffer_pending_cases [of r t0 t1 rel seg])
  case (evicted r1 r2 n)
  have "wf_core r1"
    using insert_pending_wf [OF assms(1-3), of t0] evicted(2) by (simp add: wf_reassembler_def)
  then obtain i where "pending r2 = drop i (pending r1)"
    using evict_loop_result [of r1 0] evicted(4) by auto
  then have "set (pending r2) \<subseteq> set (bt_insert rel seg (pending r))"
    using evicted(2) set_drop_subset [of i "pending r1"] by simp
  then show ?thesis
    using evicted res assms(1)
    by (auto simp: btree.insert_entries wf_reassembler_def wf_core_def split: if_splits)
qed (use res assms in \<open>auto simp: btree.insert_entries wf_reassembler_def wf_core_def\<close>)

lemma push_relative_on_stream:
  assumes "wf_reassembler r" and "p \<noteq> []" and "on_stream s rel p"
    and "contig_on_stream s r" and "pending_on_stream s r"
    and res: "push_relative t0 t1 i rng p rel r = (res, r')"
  shows "contig_on_stream s r' \<and> pending_on_stream s r'"
  using assms(2)
proof (cases rule: push_relative_cases [of p t0 t1 i rng rel r])
  case duplicate
  with assms show ?thesis by simp
next
  case (delivered seg)
  have core: "wf_core (deliver seg r)"
    using assms(1) by (simp add: wf_reassembler_def deliver_wf_core)
  have "on_stream s (next_expected_relative r) (seg_data seg)"
    using on_stream_drop [OF assms(3), of "next_expected_relative r - rel"] delivered(2,4) by simp
  then have "contig_on_stream s (deliver seg r)"
    using assms(1,4) by (intro deliver_on_stream) (auto simp: wf_reassembler_def wf_core_def)
  moreover have "pending_on_stream s (deliver seg r)"
    using assms(5) by (simp add: pending_on_stream_def)
  ultimately have "contig_on_stream s (drain_pending_loop (deliver seg r))
      \<and> pending_on_stream s (drain_pending_loop (deliver seg r))"
    by (rule drain_loop_on_stream [OF core])
  with delivered(1) res show ?thesis
    by (auto simp: contig_on_stream_def pending_on_stream_def)
next
  case gap
  then have b: "buffer_pending t0 t1 rel (seg_of i rng p) r = (res, r')" using res by simp
  have "set (pending r') \<subseteq> insert (rel, seg_of i rng p) (set (pending r))"
    using buffer_pending_subset [OF assms(1) gap(2) _ b] gap(3) by simp
  moreover have "contig_on_stream s r'"
    using buffer_pending_frame [OF assms(1) gap(2) _ b] gap(3) assms(4)
    by (simp add: contig_on_stream_def contig_bytes_def)
  ultimately show ?thesis
    using assms(3,5) by (auto simp: pending_on_stream_def)
qed

subsection \<open>Sequence numbers\<close>

definition anchored :: "u32 \<Rightarrow> stream_reassembler \<Rightarrow> bool" where
  "anchored b r \<longleftrightarrow> base_seq r = Some b"

lemma wf_base_seq [simp]:
  "wf_reassembler (r\<lparr>base_seq := b\<rparr>) = wf_reassembler r"
  "within_limits (r\<lparr>base_seq := b\<rparr>) = within_limits r"
  "held (r\<lparr>base_seq := b\<rparr>) = held r"
  by (simp_all add: wf_reassembler_def wf_core_def within_limits_def held_def)

lemma push_empty [simp]: "push t0 t1 i seq rng [] r = (DuplicateDiscarded, r)"
  by (simp add: push_def)

lemma push_anchored:
  assumes "anchored b r" and "p \<noteq> []"
  shows "push t0 t1 i seq rng p r = push_relative t0 t1 i rng p (unat (seq - b)) r"
  using assms by (simp add: push_def relative_seq_def anchored_def)

lemma push_unanchored:
  assumes "base_seq r = None" and "p \<noteq> []"
  shows "push t0 t1 i seq rng p r = push_relative t0 t1 i rng p 0 (r\<lparr>base_seq := Some seq\<rparr>)"
  using assms by (simp add: push_def relative_seq_def)

text \<open>Every push is a relative push on a state that differs at most in the anchor.\<close>

lemma push_split:
  obtains "p = []" "push t0 t1 i seq rng p r = (DuplicateDiscarded, r)"
    | b rel where "p \<noteq> []" "rel < 2 ^ 32" "base_seq r \<in> {None, Some b}"
        "push t0 t1 i seq rng p r = push_relative t0 t1 i rng p rel (r\<lparr>base_seq := Some b\<rparr>)"
proof (cases "p = []")
  case True
  then show ?thesis using that(1) by (simp add: push_def)
next
  case False
  have small: "unat (w :: u32) < 4294967296" for w
    by (rule order_less_le_trans [OF unsigned_less]) simp
  show ?thesis
  proof (cases "base_seq r")
    case None
    then show ?thesis using False that(2) [of 0 seq] by (simp add: push_unanchored)
  next
    case (Some b)
    then have same: "r\<lparr>base_seq := Some b\<rparr> = r" by (cases r) simp
    show ?thesis
      by (rule that(2) [of "unat (seq - b)" b])
        (simp_all add: False Some small same push_anchored anchored_def)
  qed
qed

lemma push_relative_base:
  assumes "wf_reassembler r" and "p \<noteq> []" and res: "push_relative t0 t1 i rng p rel r = (res, r')"
  shows "base_seq r' = base_seq r"
  using assms(2)
proof (cases rule: push_relative_cases [of p t0 t1 i rng rel r])
  case (delivered seg)
  have core: "wf_core (deliver seg r)"
    using assms(1) by (simp add: wf_reassembler_def deliver_wf_core)
  show ?thesis using drain_loop_frame [OF core] delivered(1) res by auto
next
  case gap
  then have b: "buffer_pending t0 t1 rel (seg_of i rng p) r = (res, r')" using res by simp
  show ?thesis using buffer_pending_frame [OF assms(1) gap(2) _ b] gap(3) by simp
qed (use res in auto)

lemma push_wf:
  assumes "wf_reassembler r" and res: "push t0 t1 i seq rng p r = (res, r')"
  shows "wf_reassembler r'"
proof (cases rule: push_split [of p t0 t1 i seq rng r])
  case (2 b rel)
  with assms show ?thesis using push_relative_wf [of "r\<lparr>base_seq := Some b\<rparr>" p t0 t1 i rng rel] by simp
qed (use assms in simp)

lemma push_within_limits:
  assumes "wf_reassembler r" and "within_limits r" and res: "push t0 t1 i seq rng p r = (res, r')"
  shows "within_limits r' \<and> limits r' = limits r"
proof (cases rule: push_split [of p t0 t1 i seq rng r])
  case (2 b rel)
  with assms show ?thesis
    using push_relative_limits [of "r\<lparr>base_seq := Some b\<rparr>" p t0 t1 i rng rel] by simp
qed (use assms in simp)

subsection \<open>Reading: peek and take\<close>

lemma peek_loop_eq:
  "peek_loop n out segs = (if length out \<ge> n then out else take n (out @ concat (map seg_data segs)))"
proof (induction n out segs rule: peek_loop.induct)
  case (2 n out seg segs)
  show ?case
  proof (cases "length out \<ge> n")
    case False
    with 2 show ?thesis by (auto simp: min_def)
  qed simp
qed simp

lemma peek_eq: "peek n r = take n (contig_bytes r)"
  by (simp add: peek_def peek_loop_eq contig_bytes_def)

lemma take_loop_eq:
  assumes "n \<le> length (concat (map seg_data segs))"
  shows "\<exists>pieces' segs'. take_loop n segs out pieces =
           Inr (out @ take n (concat (map seg_data segs)), pieces @ pieces', segs')
         \<and> concat (map seg_data segs') = drop n (concat (map seg_data segs))"
  using assms
proof (induction n segs out pieces rule: take_loop.induct)
  case (3 m seg segs out pieces)
  let ?n = "min (Suc m) (length (seg_data seg))"
  show ?case
  proof (cases "?n = length (seg_data seg)")
    case True
    then have "length (seg_data seg) \<le> Suc m" by simp
    with 3(1) [OF refl refl refl True] 3(3) True show ?thesis
      by (fastforce simp: Let_def)
  next
    case False
    then have "?n = Suc m" "Suc m < length (seg_data seg)" by auto
    with False show ?thesis by (simp add: Let_def)
  qed
qed simp_all

lemma take_bytes_eq:
  assumes "wf_core r" and "n \<le> contiguous_len r"
  obtains pieces r' where "take_bytes n r = Inr (take n (contig_bytes r), pieces, r')"
    and "contig_bytes r' = drop n (contig_bytes r)" and "contiguous_len r' = contiguous_len r - n"
    and "pending r' = pending r" and "pending_len r' = pending_len r"
    and "next_expected_relative r' = next_expected_relative r" and "limits r' = limits r"
    and "base_seq r' = base_seq r" and "pending_since r' = pending_since r"
proof -
  have "n \<le> length (concat (map seg_data (contiguous r)))"
    using assms by (simp add: wf_core_def contig_bytes_def)
  from take_loop_eq [OF this, of "[]" "[]"] obtain pieces segs where
    "take_loop n (contiguous r) [] [] = Inr (take n (contig_bytes r), pieces, segs)"
    "concat (map seg_data segs) = drop n (contig_bytes r)"
    by (auto simp: contig_bytes_def)
  then show ?thesis
    using assms(2) that [of pieces "r\<lparr>contiguous := segs, contiguous_len := contiguous_len r - n\<rparr>"]
    by (simp add: take_bytes_def contig_bytes_def)
qed

lemma take_bytes_wf:
  assumes "wf_reassembler r" and "take_bytes n r = Inr (bs, pieces, r')"
  shows "wf_reassembler r' \<and> (within_limits r' \<longleftrightarrow> within_limits r) \<and> held r' = held r
    \<and> bs = take n (contig_bytes r) \<and> contig_bytes r' = drop n (contig_bytes r)
    \<and> contiguous_len r' = contiguous_len r - n \<and> n \<le> contiguous_len r
    \<and> base_seq r' = base_seq r \<and> pending r' = pending r
    \<and> next_expected_relative r' = next_expected_relative r \<and> limits r' = limits r
    \<and> pending_since r' = pending_since r"
proof -
  have core: "wf_core r" and n: "n \<le> contiguous_len r"
    using assms by (auto simp: wf_reassembler_def take_bytes_def split: if_splits)
  show ?thesis
    by (rule take_bytes_eq [OF core n])
      (use assms n in \<open>auto simp: wf_reassembler_def wf_core_def within_limits_def held_def\<close>)
qed

subsection \<open>Runs of one direction\<close>

text \<open>
  The life of one direction's reassembler, anchored at the stream's first byte: pushes that abandon
  no gap, and reads. \<open>out\<close> collects the bytes read so far, \<open>segs\<close> the pushed segments by stream
  offset.
\<close>

inductive reasm_run :: "pending_limits \<Rightarrow> u32 \<Rightarrow> bytes \<Rightarrow> (nat \<times> bytes) list \<Rightarrow> stream_reassembler \<Rightarrow> bool"
  for l :: pending_limits and b :: u32
where
  run_start: "reasm_run l b [] [] (set_isn b (with_pending_limits l))"
| run_push: "reasm_run l b out segs r \<Longrightarrow> push t0 t1 i seq rng p r = (res, r') \<Longrightarrow>
     (\<And>n. res \<noteq> GapAbandoned n) \<Longrightarrow> reasm_run l b out (segs @ [(unat (seq - b), p)]) r'"
| run_take: "reasm_run l b out segs r \<Longrightarrow> take_bytes n r = Inr (bs, pieces, r') \<Longrightarrow>
     reasm_run l b (out @ bs) segs r'"

inductive_cases reasm_run_segsE: "reasm_run l b out (segs @ [e]) r"

definition covered :: "(nat \<times> bytes) list \<Rightarrow> nat \<Rightarrow> bool" where
  "covered segs n = list_ex (\<lambda>e. fst e \<le> n \<and> n < fst e + length (snd e)) segs"

definition seg_bound :: "(nat \<times> bytes) list \<Rightarrow> nat" where
  "seg_bound segs = foldr (\<lambda>e m. max (fst e + length (snd e)) m) segs 0"

text \<open>The first stream offset no pushed segment covers.\<close>

definition first_gap :: "(nat \<times> bytes) list \<Rightarrow> nat" where
  "first_gap segs = hd (filter (\<lambda>n. \<not> covered segs n) [0..<Suc (seg_bound segs)])"

definition segs_on_stream :: "(nat \<Rightarrow> u8) \<Rightarrow> (nat \<times> bytes) list \<Rightarrow> bool" where
  "segs_on_stream s segs = list_all (\<lambda>e. on_stream s (fst e) (snd e)) segs"

lemma covered_bound: "covered segs n \<Longrightarrow> n < seg_bound segs"
  by (induction segs) (auto simp: covered_def seg_bound_def)

lemma first_gap_eq:
  assumes "\<not> covered segs n" and "\<And>k. k < n \<Longrightarrow> covered segs k"
  shows "first_gap segs = n"
proof -
  have "n \<le> seg_bound segs"
    using assms(2) [of "n - 1"] covered_bound [of segs "n - 1"] by (cases n) auto
  then have "[0..<Suc (seg_bound segs)] = [0..<n] @ [n..<Suc (seg_bound segs)]"
    using upt_add_eq_append [of 0 n "Suc (seg_bound segs) - n"] by simp
  moreover have "[n..<Suc (seg_bound segs)] = n # [Suc n..<Suc (seg_bound segs)]"
    using \<open>n \<le> seg_bound segs\<close> by (simp add: upt_conv_Cons)
  moreover have "filter (\<lambda>n. \<not> covered segs n) [0..<n] = []"
    using assms(2) by (auto simp: filter_empty_conv)
  ultimately show ?thesis using assms(1) by (simp add: first_gap_def)
qed

lemma covered_append [simp]:
  "covered (segs @ [e]) n \<longleftrightarrow> covered segs n \<or> n \<in> {fst e..<fst e + length (snd e)}"
  by (auto simp: covered_def)

lemma segs_on_stream_append [simp]:
  "segs_on_stream s (segs @ [e]) \<longleftrightarrow> segs_on_stream s segs \<and> on_stream s (fst e) (snd e)"
  by (simp add: segs_on_stream_def)

lemma reasm_run_wf: "reasm_run l b out segs r \<Longrightarrow> wf_reassembler r \<and> anchored b r"
proof (induction rule: reasm_run.induct)
  case run_start
  then show ?case
    by (simp add: set_isn_def with_pending_limits_def wf_reassembler_def wf_core_def contig_bytes_def
        anchored_def)
next
  case (run_push out segs r t0 t1 i seq rng p res r')
  have "wf_reassembler r'" using push_wf run_push by blast
  moreover have "anchored b r'"
  proof (cases "p = []")
    case False
    then have "push_relative t0 t1 i rng p (unat (seq - b)) r = (res, r')"
      using run_push push_anchored [of b r p] by simp
    then show ?thesis
      using run_push False push_relative_base [of r p t0 t1 i rng "unat (seq - b)" res r']
      by (simp add: anchored_def)
  qed (use run_push in simp)
  ultimately show ?case ..
next
  case (run_take out segs r n bs pieces r')
  then show ?case using take_bytes_wf [of r n bs pieces r'] by (simp add: anchored_def)
qed

lemma reasm_run_held: "reasm_run l b out segs r \<Longrightarrow> held r = {n. covered segs n}"
proof (induction rule: reasm_run.induct)
  case run_start
  then show ?case
    by (simp add: set_isn_def with_pending_limits_def held_def covered_def)
next
  case (run_push out segs r t0 t1 i seq rng p res r')
  show ?case
  proof (cases "p = []")
    case False
    have wf: "wf_reassembler r" "anchored b r" using reasm_run_wf [OF run_push(1)] by auto
    then have "push_relative t0 t1 i rng p (unat (seq - b)) r = (res, r')"
      using run_push(2) False by (simp add: push_anchored)
    from push_relative_held [OF wf(1) False this run_push(3)] run_push.IH show ?thesis by auto
  qed (use run_push in auto)
next
  case (run_take out segs r n bs pieces r')
  then show ?case using take_bytes_wf [of r n bs pieces r'] reasm_run_wf [of l b out segs r] by simp
qed

lemma drain_loop_consumed:
  assumes "wf_core r"
  shows "next_expected_relative (drain_pending_loop r) + contiguous_len r
       = next_expected_relative r + contiguous_len (drain_pending_loop r)"
  using assms by (induction rule: drain_induct) auto

lemma push_relative_consumed:
  assumes "wf_reassembler r" and "p \<noteq> []" and res: "push_relative t0 t1 i rng p rel r = (res, r')"
  shows "next_expected_relative r' + contiguous_len r = next_expected_relative r + contiguous_len r'"
  using assms(2)
proof (cases rule: push_relative_cases [of p t0 t1 i rng rel r])
  case (delivered seg)
  have core: "wf_core (deliver seg r)"
    using assms(1) by (simp add: wf_reassembler_def deliver_wf_core)
  show ?thesis using drain_loop_consumed [OF core] delivered(1) res by auto
next
  case gap
  then have b: "buffer_pending t0 t1 rel (seg_of i rng p) r = (res, r')" using res by simp
  show ?thesis using buffer_pending_frame [OF assms(1) gap(2) _ b] gap(3) by simp
qed (use res in auto)

lemma wf_contiguous_le: "wf_reassembler r \<Longrightarrow> contiguous_len r \<le> next_expected_relative r"
  by (simp add: wf_reassembler_def wf_core_def)

lemma take_on_stream:
  assumes "wf_reassembler r" and "contig_on_stream s r"
    and "out = map s [0..<next_expected_relative r - contiguous_len r]"
    and take: "take_bytes n r = Inr (bs, pieces, r')"
  shows "contig_on_stream s r' \<and> out @ bs = map s [0..<next_expected_relative r' - contiguous_len r']"
proof -
  let ?c = "next_expected_relative r - contiguous_len r"
  have t: "bs = take n (contig_bytes r)" "contig_bytes r' = drop n (contig_bytes r)"
      "contiguous_len r' = contiguous_len r - n" "n \<le> contiguous_len r"
      "next_expected_relative r' = next_expected_relative r"
    using take_bytes_wf [OF assms(1) take] by simp_all
  have c: "next_expected_relative r - contiguous_len r' = ?c + n"
    using t(3,4) wf_contiguous_le [OF assms(1)] by simp
  have "[0..<?c + n] = [0..<?c] @ [?c..<?c + n]"
    by (rule upt_add_eq_append) simp
  moreover have "bs = map s [?c..<?c + n]"
    using t(1,4) assms(2) wf_contiguous_le [OF assms(1)]
    by (simp add: contig_on_stream_def take_map)
  moreover have "contig_bytes r' = map s [?c + n..<next_expected_relative r]"
    using t(2) assms(2) by (simp add: contig_on_stream_def drop_map)
  ultimately show ?thesis using c t(5) assms(3) by (simp add: contig_on_stream_def)
qed

lemma reasm_run_on_stream:
  "reasm_run l b out segs r \<Longrightarrow> segs_on_stream s segs \<Longrightarrow>
   contig_on_stream s r \<and> pending_on_stream s r \<and>
   out = map s [0..<next_expected_relative r - contiguous_len r]"
proof (induction rule: reasm_run.induct)
  case run_start
  then show ?case
    by (simp add: set_isn_def with_pending_limits_def pending_on_stream_def contig_bytes_def
        contig_on_stream_def)
next
  case (run_push out segs r t0 t1 i seq rng p res r')
  show ?case
  proof (cases "p = []")
    case False
    have wf: "wf_reassembler r" "anchored b r" using reasm_run_wf [OF run_push(1)] by auto
    then have rel: "push_relative t0 t1 i rng p (unat (seq - b)) r = (res, r')"
      using run_push(2) False by (simp add: push_anchored)
    have IH: "contig_on_stream s r" "pending_on_stream s r"
        "out = map s [0..<next_expected_relative r - contiguous_len r]"
      using run_push by auto
    have "contig_on_stream s r' \<and> pending_on_stream s r'"
      using push_relative_on_stream [OF wf(1) False _ IH(1,2) rel] run_push(5) by simp
    moreover have "next_expected_relative r' - contiguous_len r'
        = next_expected_relative r - contiguous_len r"
      using push_relative_consumed [OF wf(1) False rel] wf_contiguous_le [OF wf(1)]
        wf_contiguous_le [OF push_relative_wf [OF wf(1) False rel]] by linarith
    ultimately show ?thesis using IH(3) by simp
  qed (use run_push in auto)
next
  case (run_take out segs r n bs pieces r')
  then show ?case
    using take_on_stream [of r s out n bs pieces r'] reasm_run_wf [of l b out segs r]
      take_bytes_wf [of r n bs pieces r']
    by (auto simp: pending_on_stream_def)
qed

lemma reasm_run_first_gap:
  assumes "reasm_run l b out segs r"
  shows "next_expected_relative r = first_gap segs"
proof -
  have wf: "wf_reassembler r" using reasm_run_wf [OF assms] by simp
  have held: "covered segs n \<longleftrightarrow> n \<in> held r" for n using reasm_run_held [OF assms] by simp
  have "next_expected_relative r \<notin> held r"
    using wf by (fastforce simp: held_def wf_reassembler_def)
  moreover have "k < next_expected_relative r \<Longrightarrow> k \<in> held r" for k by (simp add: held_def)
  ultimately show ?thesis by (intro first_gap_eq [symmetric]) (simp_all add: held)
qed

subsection \<open>Properties\<close>

text \<open>
  C5 (lossless reassembly). Whatever the order in which the segments of a stream arrive, however they
  overlap or repeat, and however reads interleave with them: as long as no gap is abandoned, the
  bytes read so far followed by the bytes ready to be read are exactly the sender's bytes from the
  start of the stream up to the first offset that no segment has covered.
\<close>

theorem reassembly_lossless:
  assumes "reasm_run l b out segs r" and "segs_on_stream s segs"
  shows "out @ contig_bytes r = map s [0..<first_gap segs]"
proof -
  have wf: "wf_reassembler r" using reasm_run_wf [OF assms(1)] by simp
  have c: "contig_on_stream s r"
    and o: "out = map s [0..<next_expected_relative r - contiguous_len r]"
    using reasm_run_on_stream [OF assms] by simp_all
  have "[0..<next_expected_relative r] = [0..<next_expected_relative r - contiguous_len r]
      @ [next_expected_relative r - contiguous_len r..<next_expected_relative r]"
    using upt_add_eq_append [of 0 "next_expected_relative r - contiguous_len r" "contiguous_len r"]
      wf_contiguous_le [OF wf] by simp
  then show ?thesis
    using c o reasm_run_first_gap [OF assms(1)] by (simp add: contig_on_stream_def)
qed

definition hello_world :: bytes where
  "hello_world = [104, 101, 108, 108, 111, 119, 111, 114, 108, 100]"

definition hello_start :: stream_reassembler where
  "hello_start = set_isn 4294967294 (with_pending_limits default_pending_limits)"

definition hello_gap :: stream_reassembler where
  "hello_gap = snd (push 0 0 0 3 (0, 5) (drop 5 hello_world) hello_start)"

definition hello_done :: stream_reassembler where
  "hello_done = snd (push 1 1 1 4294967294 (0, 5) (take 5 hello_world) hello_gap)"

lemmas reasm_eval = push_def relative_seq_def push_relative_def buffer_pending_def insert_pending_def
  age_exceeded_def elapsed_def deliver_def unpend_def trim_segment_def drain_pending_def
  drain_pending_loop.simps evict_loop.simps with_pending_limits_def set_isn_def Let_def
  default_pending_limits_def DEFAULT_MAX_PENDING_BYTES_def DEFAULT_MAX_PENDING_PACKETS_def
  DEFAULT_MAX_PENDING_AGE_def secs_def

lemma hello_gap_push:
  "push 0 0 0 3 (0, 5) (drop 5 hello_world) hello_start = (BufferedOutOfOrder, hello_gap)"
  by (simp add: hello_gap_def hello_start_def hello_world_def reasm_eval)

lemma hello_done_push:
  "push 1 1 1 4294967294 (0, 5) (take 5 hello_world) hello_gap = (Delivered, hello_done)"
  by (simp add: hello_gap_def hello_done_def hello_start_def hello_world_def reasm_eval)

text \<open>The segments of \<open>helloworld\<close>, the second half first, over a sequence number that wraps.\<close>

definition hello_segs :: "(nat \<times> bytes) list" where
  "hello_segs = [(5, drop 5 hello_world), (0, take 5 hello_world)]"

lemma hello_run: "reasm_run default_pending_limits 4294967294 [] hello_segs hello_done"
proof -
  have "reasm_run default_pending_limits 4294967294 [] [] hello_start"
    using run_start [of default_pending_limits 4294967294] by (simp add: hello_start_def)
  from run_push [OF this hello_gap_push]
  have "reasm_run default_pending_limits 4294967294 [] [(5, drop 5 hello_world)] hello_gap"
    by simp
  from run_push [OF this hello_done_push] show ?thesis by (simp add: hello_segs_def)
qed

lemma hello_on_stream: "segs_on_stream (\<lambda>n. hello_world ! n) hello_segs"
  by code_simp

lemma hello_first_gap: "first_gap hello_segs = 10"
  by (rule first_gap_eq) (auto simp: hello_segs_def covered_def hello_world_def)

theorem reassembly_lossless_witness: "contig_bytes hello_done = hello_world"
  using reassembly_lossless [OF hello_run hello_on_stream]
  by (simp add: hello_first_gap hello_world_def upt_rec [of _ 10])

end
