(* ===== verification/Reassembly_Reach.thy ===== *)
theory Reassembly_Reach
  imports Reassembly_Correct
begin

text \<open>
  The reachable states of one direction's reassembler, under any sequence of its operations, gaps
  abandoned and age-outs included: the invariant and the memory bound, the bound on stream offsets,
  the provenance of every buffered byte, the accounting of abandoned gaps and the end of the sequence
  space.
\<close>

text \<open>
  \<open>Q\<close> says which pushes the caller makes: packet index, byte range within the packet, payload.
\<close>

inductive reasm_reach ::
  "pending_limits \<Rightarrow> (nat \<Rightarrow> usize_range \<Rightarrow> bytes \<Rightarrow> bool) \<Rightarrow> stream_reassembler \<Rightarrow> bool"
  for l :: pending_limits and Q :: "nat \<Rightarrow> usize_range \<Rightarrow> bytes \<Rightarrow> bool"
where
  reach_new: "reasm_reach l Q (with_pending_limits l)"
| reach_isn: "reasm_reach l Q r \<Longrightarrow> reasm_reach l Q (set_isn seq r)"
| reach_push: "reasm_reach l Q r \<Longrightarrow> Q i rng p \<Longrightarrow> push t0 t1 i seq rng p r = (res, r') \<Longrightarrow>
     reasm_reach l Q r'"
| reach_take: "reasm_reach l Q r \<Longrightarrow> take_bytes n r = Inr (bs, pieces, r') \<Longrightarrow> reasm_reach l Q r'"

lemma set_isn_simps [simp]:
  "wf_reassembler (set_isn q r) = wf_reassembler r" "within_limits (set_isn q r) = within_limits r"
  "limits (set_isn q r) = limits r" "pending (set_isn q r) = pending r"
  "contiguous (set_isn q r) = contiguous r"
  "next_expected_relative (set_isn q r) = next_expected_relative r"
  by (simp_all add: set_isn_def)

lemma wf_new [simp]: "wf_reassembler (with_pending_limits l)" "within_limits (with_pending_limits l)"
  "limits (with_pending_limits l) = l"
  by (simp_all add: with_pending_limits_def wf_reassembler_def wf_core_def contig_bytes_def
      within_limits_def)

lemma reasm_reach_inv:
  "reasm_reach l Q r \<Longrightarrow> wf_reassembler r \<and> within_limits r \<and> limits r = l"
proof (induction rule: reasm_reach.induct)
  case (reach_push r i rng p t0 t1 seq res r')
  then show ?case using push_wf [of r] push_within_limits [of r] by blast
next
  case (reach_take r n bs pieces r')
  then show ?case using take_bytes_wf [of r n bs pieces r'] by simp
qed simp_all

subsection \<open>Facts that hold of every buffered segment\<close>

text \<open>
  A fact about segments that trimming keeps holds of every segment in a reachable state once it holds
  of every pushed one.
\<close>

definition all_segs :: "(segment \<Rightarrow> bool) \<Rightarrow> stream_reassembler \<Rightarrow> bool" where
  "all_segs S r \<longleftrightarrow> (\<forall>seg \<in> set (contiguous r). S seg) \<and> (\<forall>e \<in> set (pending r). S (snd e))"

definition trim_closed :: "(segment \<Rightarrow> bool) \<Rightarrow> bool" where
  "trim_closed S \<longleftrightarrow> (\<forall>seg n. S seg \<longrightarrow> n \<le> length (seg_data seg) \<longrightarrow> S (trim_segment n seg))"

lemma all_segs_deliver: "all_segs S r \<Longrightarrow> S seg \<Longrightarrow> all_segs S (deliver seg r)"
  by (auto simp: all_segs_def deliver_def)

lemma drain_loop_all_segs:
  assumes "wf_core r" and "trim_closed S"
  shows "all_segs S r \<Longrightarrow> all_segs S (drain_pending_loop r)"
  using assms(1)
proof (induction rule: drain_induct)
  case (stale r k seg m r')
  have "all_segs S (unpend k seg r)" using stale(2,5) by (simp add: all_segs_def)
  then show ?case by (rule stale(4))
next
  case (delivered r k seg m seg' r')
  have "S seg" using delivered(2,8) by (simp add: all_segs_def)
  moreover have "next_expected_relative r - k \<le> length (seg_data seg)" using delivered(4) by simp
  ultimately have "S seg'" using delivered(6) assms(2) by (auto simp: trim_closed_def)
  moreover have "all_segs S (unpend k seg r)" using delivered(2,8) by (simp add: all_segs_def)
  ultimately show ?case using delivered(7) all_segs_deliver by blast
qed simp

lemma push_relative_all_segs:
  assumes "wf_reassembler r" and "p \<noteq> []" and "trim_closed S" and "all_segs S r"
    and "S (seg_of i rng p)" and res: "push_relative t0 t1 i rng p rel r = (res, r')"
  shows "all_segs S r'"
  using assms(2)
proof (cases rule: push_relative_cases [of p t0 t1 i rng rel r])
  case duplicate
  with assms show ?thesis by simp
next
  case (delivered seg)
  have core: "wf_core (deliver seg r)"
    using assms(1) by (simp add: wf_reassembler_def deliver_wf_core)
  have "S (trim_segment (next_expected_relative r - rel) (seg_of i rng p))"
    using assms(3,5) delivered(3) by (auto simp: trim_closed_def)
  then have "S seg" using delivered(5) assms(5) by auto
  then have "all_segs S (drain_pending_loop (deliver seg r))"
    using drain_loop_all_segs [OF core assms(3)] all_segs_deliver assms(4) by blast
  with delivered(1) res show ?thesis by (auto simp: all_segs_def)
next
  case gap
  then have b: "buffer_pending t0 t1 rel (seg_of i rng p) r = (res, r')" using res by simp
  show ?thesis
    using buffer_pending_frame [OF assms(1) gap(2) _ b] buffer_pending_subset [OF assms(1) gap(2) _ b]
      gap(3) assms(4,5) by (auto simp: all_segs_def)
qed

lemma take_loop_all_segs:
  assumes "trim_closed S" and "\<forall>seg \<in> set segs. S seg"
    and "take_loop n segs out pieces = Inr (out', pieces', segs')"
  shows "\<forall>seg \<in> set segs'. S seg"
  using assms(2,3)
proof (induction n segs out pieces rule: take_loop.induct)
  case (3 m seg segs out pieces)
  let ?n = "min (Suc m) (length (seg_data seg))"
  show ?case
  proof (cases "?n = length (seg_data seg)")
    case True
    with 3(1) [OF refl refl refl True] 3(3,4) show ?thesis by (simp add: Let_def)
  next
    case False
    then have n: "?n = Suc m" "Suc m \<noteq> length (seg_data seg)" by auto
    have "S (trim_segment ?n seg)" using assms(1) 3(3) by (simp add: trim_closed_def)
    with 3(3,4) n show ?thesis by (auto simp: Let_def)
  qed
qed simp_all

lemma reasm_reach_all_segs:
  assumes "trim_closed S" and "\<And>i rng p. Q i rng p \<Longrightarrow> p \<noteq> [] \<Longrightarrow> S (seg_of i rng p)"
  shows "reasm_reach l Q r \<Longrightarrow> all_segs S r"
proof (induction rule: reasm_reach.induct)
  case (reach_push r i rng p t0 t1 seq res r')
  show ?case
  proof (cases rule: push_split [of p t0 t1 i seq rng r])
    case (2 b rel)
    let ?r = "r\<lparr>base_seq := Some b\<rparr>"
    have "wf_reassembler ?r" "all_segs S ?r"
      using reasm_reach_inv [OF reach_push(1)] reach_push(4) by (auto simp: all_segs_def)
    moreover have "push_relative t0 t1 i rng p rel ?r = (res, r')" using 2(4) reach_push(3) by simp
    ultimately show ?thesis
      using push_relative_all_segs [of ?r p S i rng] assms reach_push(2) 2(1) by blast
  qed (use reach_push in simp)
next
  case (reach_take r n bs pieces r')
  then show ?case
    using take_loop_all_segs [OF assms(1), of "contiguous r" n "[]" "[]"]
    by (auto simp: all_segs_def take_bytes_def split: if_splits sum.splits)
qed (simp_all add: all_segs_def with_pending_limits_def)

subsection \<open>Provenance\<close>

text \<open>\<open>pk i\<close> is the frame with packet index \<open>i\<close>. The caller pushes a range of that frame's bytes.\<close>

definition from_packet :: "(nat \<Rightarrow> bytes) \<Rightarrow> nat \<Rightarrow> usize_range \<Rightarrow> bytes \<Rightarrow> bool" where
  "from_packet pk i rng p \<longleftrightarrow> index_range rng (pk i) = Inr p"

definition seg_backed :: "(nat \<Rightarrow> bytes) \<Rightarrow> segment \<Rightarrow> bool" where
  "seg_backed pk seg \<longleftrightarrow> from_packet pk (seg_packet_index seg) (seg_range seg) (seg_data seg)"

definition piece_bytes :: "(nat \<Rightarrow> bytes) \<Rightarrow> source_piece \<Rightarrow> bytes" where
  "piece_bytes pk pc = sub_range (sp_range pc) (pk (sp_packet_index pc))"

definition piece_valid :: "(nat \<Rightarrow> bytes) \<Rightarrow> source_piece \<Rightarrow> bool" where
  "piece_valid pk pc \<longleftrightarrow> index_range (sp_range pc) (pk (sp_packet_index pc)) = Inr (piece_bytes pk pc)"

lemma seg_backed_trim_closed: "trim_closed (seg_backed pk)"
  by (simp add: trim_closed_def seg_backed_def from_packet_def trim_segment_def index_range_drop)

lemma seg_backed_piece:
  assumes "seg_backed pk seg" and "n \<le> length (seg_data seg)"
  shows "piece_valid pk \<lparr>sp_packet_index = seg_packet_index seg,
             sp_range = (fst (seg_range seg), fst (seg_range seg) + n)\<rparr>
      \<and> piece_bytes pk \<lparr>sp_packet_index = seg_packet_index seg,
             sp_range = (fst (seg_range seg), fst (seg_range seg) + n)\<rparr> = take n (seg_data seg)"
proof -
  have "index_range (fst (seg_range seg), fst (seg_range seg) + n) (pk (seg_packet_index seg))
      = Inr (take n (seg_data seg))"
    using assms index_range_take [of "seg_range seg"] by (simp add: seg_backed_def from_packet_def)
  then show ?thesis by (auto simp: piece_valid_def piece_bytes_def index_range_iff)
qed

lemma take_loop_pieces:
  assumes "\<forall>seg \<in> set segs. seg_backed pk seg" and "out = concat (map (piece_bytes pk) pieces)"
    and "list_all (piece_valid pk) pieces" and "take_loop n segs out pieces = Inr (out', pieces', segs')"
  shows "out' = concat (map (piece_bytes pk) pieces') \<and> list_all (piece_valid pk) pieces'"
  using assms
proof (induction n segs out pieces rule: take_loop.induct)
  case (3 m seg segs out pieces)
  let ?n = "min (Suc m) (length (seg_data seg))"
  let ?pc = "\<lparr>sp_packet_index = seg_packet_index seg,
      sp_range = (fst (seg_range seg), fst (seg_range seg) + ?n)\<rparr>"
  have "seg_backed pk seg" using 3(3) by simp
  from seg_backed_piece [OF this, of ?n]
  have pc: "piece_valid pk ?pc" "piece_bytes pk ?pc = take ?n (seg_data seg)" by simp_all
  show ?case
  proof (cases "?n = length (seg_data seg)")
    case True
    have rest: "take_loop (Suc m - ?n) segs (out @ take ?n (seg_data seg)) (pieces @ [?pc])
        = Inr (out', pieces', segs')"
      using 3(6) unfolding take_loop.simps Let_def if_P [OF True] .
    show ?thesis
      by (rule 3(1) [OF refl refl refl True _ _ _ rest]) (use 3(3-5) pc in auto)
  next
    case False
    then have "?n = Suc m" by auto
    then have "out' = out @ take ?n (seg_data seg)" "pieces' = pieces @ [?pc]"
      using 3(6) unfolding take_loop.simps Let_def if_not_P [OF False] by simp_all
    then show ?thesis using 3(4,5) pc by simp
  qed
qed auto

subsection \<open>Offsets\<close>

definition offsets_below :: "nat \<Rightarrow> stream_reassembler \<Rightarrow> bool" where
  "offsets_below m r \<longleftrightarrow> next_expected_relative r < 4294967296 + m \<and>
     (\<forall>e \<in> set (pending r). fst e < 4294967296 \<and> length (seg_data (snd e)) \<le> m)"

lemma drain_loop_offsets:
  assumes "wf_core r"
  shows "offsets_below m r \<Longrightarrow> offsets_below m (drain_pending_loop r)"
  using assms
proof (induction rule: drain_induct)
  case (stale r k seg p r')
  have "offsets_below m (unpend k seg r)" using stale(2,5) by (simp add: offsets_below_def)
  then show ?case by (rule stale(4))
next
  case (delivered r k seg p seg' r')
  have "offsets_below m (deliver seg' (unpend k seg r))"
    using delivered(2-5,8) by (auto simp: offsets_below_def)
  then show ?case by (rule delivered(7))
qed simp

lemma push_relative_offsets:
  assumes "wf_reassembler r" and "p \<noteq> []" and "offsets_below m r" and "length p \<le> m"
    and "rel < 4294967296" and res: "push_relative t0 t1 i rng p rel r = (res, r')"
  shows "offsets_below m r'"
  using assms(2)
proof (cases rule: push_relative_cases [of p t0 t1 i rng rel r])
  case duplicate
  with assms show ?thesis by simp
next
  case (delivered seg)
  have core: "wf_core (deliver seg r)"
    using assms(1) by (simp add: wf_reassembler_def deliver_wf_core)
  have "offsets_below m (deliver seg r)"
    using assms(3-5) delivered(2-4) by (auto simp: offsets_below_def)
  from drain_loop_offsets [OF core this] show ?thesis
    using delivered(1) res by (auto simp: offsets_below_def)
next
  case gap
  then have b: "buffer_pending t0 t1 rel (seg_of i rng p) r = (res, r')" using res by simp
  show ?thesis
    using buffer_pending_frame [OF assms(1) gap(2) _ b] buffer_pending_subset [OF assms(1) gap(2) _ b]
      gap(3) assms(3-5) by (auto simp: offsets_below_def)
qed

lemma reasm_reach_offsets:
  "reasm_reach l (\<lambda>i rng p. length p \<le> m) r \<Longrightarrow> offsets_below m r"
proof (induction rule: reasm_reach.induct)
  case (reach_push r i rng p t0 t1 seq res r')
  show ?case
  proof (cases rule: push_split [of p t0 t1 i seq rng r])
    case (2 b rel)
    let ?r = "r\<lparr>base_seq := Some b\<rparr>"
    have "wf_reassembler ?r" "offsets_below m ?r"
      using reasm_reach_inv [OF reach_push(1)] reach_push(4) by (auto simp: offsets_below_def)
    moreover have "push_relative t0 t1 i rng p rel ?r = (res, r')" using 2(4) reach_push(3) by simp
    ultimately show ?thesis
      using push_relative_offsets [of ?r p m rel t0 t1 i rng res r'] reach_push(2) 2(1,2) by simp
  qed (use reach_push in simp)
next
  case (reach_take r n bs pieces r')
  then show ?case
    using take_bytes_wf [of r n bs pieces r'] reasm_reach_inv [OF reach_take(1)]
    by (simp add: offsets_below_def)
qed (simp_all add: offsets_below_def with_pending_limits_def)

subsection \<open>Properties\<close>

text \<open>
  C6 (invariant and memory bound). After any sequence of operations from a new reassembler, gaps
  abandoned included: the byte counters are exactly the bytes in the buffers, the pending segments
  are non-empty, ordered and strictly beyond the gap, the gap's clock runs exactly while something
  is pending, and the pending buffer is within its byte and packet limits.
\<close>

theorem reassembler_invariant:
  assumes "reasm_reach l Q r"
  shows "wf_reassembler r \<and> pending_bytes (pending r) \<le> max_bytes l
    \<and> length (pending r) \<le> max_packets l"
  using reasm_reach_inv [OF assms] by (auto simp: wf_reassembler_def wf_core_def within_limits_def)

text \<open>
  C12 (provenance of consumed bytes). In every reachable state a read of at most the contiguous bytes
  does not panic, returns what \<open>peek\<close> shows, leaves the rest, and the pieces it reports name, in
  order, valid ranges of the packets whose bytes concatenate to exactly the bytes read.
\<close>

theorem take_bytes_provenance:
  assumes "reasm_reach l (from_packet pk) r" and "n \<le> contiguous_len r"
  shows "\<exists>pieces r'. take_bytes n r = Inr (peek n r, pieces, r')
    \<and> length (peek n r) = n \<and> contig_bytes r = peek n r @ contig_bytes r'
    \<and> peek n r = concat (map (piece_bytes pk) pieces) \<and> list_all (piece_valid pk) pieces"
proof -
  have core: "wf_core r" using reasm_reach_inv [OF assms(1)] by (simp add: wf_reassembler_def)
  have "all_segs (seg_backed pk) r"
    using reasm_reach_all_segs [OF seg_backed_trim_closed _ assms(1)] by (simp add: seg_backed_def)
  then have backed: "\<forall>seg \<in> set (contiguous r). seg_backed pk seg" by (simp add: all_segs_def)
  obtain pieces r' where t: "take_bytes n r = Inr (peek n r, pieces, r')"
    and c: "contig_bytes r' = drop n (contig_bytes r)"
    by (rule take_bytes_eq [OF core assms(2)]) (simp add: peek_eq)
  obtain segs where "take_loop n (contiguous r) [] [] = Inr (peek n r, pieces, segs)"
    using t by (auto simp: take_bytes_def split: if_splits sum.splits)
  from take_loop_pieces [OF backed _ _ this]
  have "peek n r = concat (map (piece_bytes pk) pieces)" "list_all (piece_valid pk) pieces" by simp_all
  moreover have "length (peek n r) = n" using core assms(2) by (simp add: peek_eq wf_core_def)
  moreover have "contig_bytes r = peek n r @ contig_bytes r'" using c by (simp add: peek_eq)
  ultimately show ?thesis using t by blast
qed

text \<open>
  Stream offsets do not overflow. With payloads of at most \<open>m\<close> bytes, the next expected offset
  stays below \<open>2 ^ 32 + m\<close> and pending offsets below \<open>2 ^ 32\<close>: the \<open>u64\<close> offset arithmetic of the
  source never wraps.
\<close>

lemma stream_offset_bound:
  assumes "reasm_reach l (\<lambda>i rng p. length p \<le> m) r"
  shows "next_expected_relative r < 2 ^ 32 + m
    \<and> list_all (\<lambda>e. fst e + length (seg_data (snd e)) < 2 ^ 32 + m) (pending r)"
  using reasm_reach_offsets [OF assms] by (fastforce simp: offsets_below_def list_all_iff)

text \<open>
  C13 (abandoned gaps are accounted for). When a push abandons a gap it reports a positive number of
  bytes, and that number is exactly what the pending buffer, with the new segment in it, loses. What
  is kept is what lies at the highest offsets, and nothing already contiguous is touched.
\<close>

theorem gap_abandoned_accounting:
  assumes "reasm_reach l Q r" and "anchored b r"
    and "push t0 t1 i seq rng p r = (GapAbandoned n, r')"
  shows "0 < n
    \<and> n + pending_bytes (pending r')
        = pending_bytes (bt_insert (unat (seq - b)) (seg_of i rng p) (pending r))
    \<and> (\<exists>k. pending r' = drop k (bt_insert (unat (seq - b)) (seg_of i rng p) (pending r)))
    \<and> contiguous r' = contiguous r \<and> next_expected_relative r' = next_expected_relative r"
proof -
  let ?rel = "unat (seq - b)" and ?seg = "seg_of i rng p"
  have wf: "wf_reassembler r" using reasm_reach_inv [OF assms(1)] by simp
  have p: "p \<noteq> []" using assms(3) by (cases "p = []") auto
  have rel: "push_relative t0 t1 i rng p ?rel r = (GapAbandoned n, r')"
    using assms(3) push_anchored [OF assms(2) p] by simp
  have b: "buffer_pending t0 t1 ?rel ?seg r = (GapAbandoned n, r')"
    and beyond: "next_expected_relative r < ?rel"
    using p rel by (cases rule: push_relative_cases [of p t0 t1 i rng ?rel r]; auto)+
  have seg: "seg_data ?seg \<noteq> []" using p by simp
  have wf': "wf_reassembler r'" using push_wf [OF wf assms(3)] .
  have len: "pending_len (insert_pending t0 ?rel ?seg r) = pending_bytes (bt_insert ?rel ?seg (pending r))"
    using insert_pending_len [of r t0 ?rel ?seg] wf by (simp add: wf_reassembler_def)
  have kept: "\<exists>k. pending r' = drop k (bt_insert ?rel ?seg (pending r))"
    by (rule buffer_pending_kept [OF wf beyond seg b])
  show ?thesis
    using buffer_pending_accounting [OF wf beyond seg b] buffer_pending_frame [OF wf beyond seg b]
      len kept wf' by (simp add: wf_reassembler_def wf_core_def)
qed

text \<open>
  C14 (end of the sequence space). Once a direction has delivered \<open>2 ^ 32\<close> bytes, the next in-order
  segment, whatever its payload, is taken for a retransmission: the outcome is
  \<open>DuplicateDiscarded\<close> and the state does not change.
\<close>

theorem sequence_space_exhausted:
  assumes "anchored b r" and "2 ^ 32 \<le> next_expected_relative r" and "length p \<le> 2 ^ 32"
  shows "push t0 t1 i (b + of_nat (next_expected_relative r)) rng p r = (DuplicateDiscarded, r)"
proof (cases "p = []")
  case False
  let ?n = "next_expected_relative r"
  have "unat (of_nat ?n :: u32) = ?n mod 4294967296" by (simp add: unat_of_nat)
  moreover have "?n mod 4294967296 + 4294967296 \<le> ?n"
    using assms(2) by (intro mod_add_le) simp
  ultimately have "unat (b + of_nat ?n - b) + length p \<le> ?n" using assms(3) by simp
  then show ?thesis
    using push_anchored [OF assms(1) False] by (simp add: push_relative_def)
qed simp

subsection \<open>Witnesses\<close>

text \<open>
  The two segments of \<open>helloworld\<close> again, as reachable states; and a direction with room for one
  pending packet whose second out-of-order packet abandons the first.
\<close>

definition hello_packets :: "nat \<Rightarrow> bytes" where
  "hello_packets i = (if i = 0 then drop 5 hello_world else take 5 hello_world)"

lemma hello_reach:
  assumes "Q 0 (0, 5) (drop 5 hello_world)" and "Q 1 (0, 5) (take 5 hello_world)"
  shows "reasm_reach default_pending_limits Q hello_gap \<and> reasm_reach default_pending_limits Q hello_done"
proof -
  have "reasm_reach default_pending_limits Q hello_start"
    unfolding hello_start_def by (intro reach_isn reach_new)
  from reach_push [OF this assms(1) hello_gap_push]
  have gap: "reasm_reach default_pending_limits Q hello_gap" .
  from reach_push [OF this assms(2) hello_done_push] gap show ?thesis by simp
qed

lemma hello_done_len: "contiguous_len hello_done = 10"
  by (simp add: hello_gap_def hello_done_def hello_start_def hello_world_def reasm_eval)

theorem reassembler_invariant_witness:
  "wf_reassembler hello_gap \<and> pending_bytes (pending hello_gap) \<le> max_bytes default_pending_limits
    \<and> length (pending hello_gap) \<le> max_packets default_pending_limits"
  using reassembler_invariant [of default_pending_limits "\<lambda>_ _ _. True" hello_gap]
    hello_reach [of "\<lambda>_ _ _. True"] by blast

theorem take_bytes_provenance_witness:
  "\<exists>pieces r'. take_bytes 7 hello_done = Inr (peek 7 hello_done, pieces, r')
    \<and> length (peek 7 hello_done) = 7 \<and> contig_bytes hello_done = peek 7 hello_done @ contig_bytes r'
    \<and> peek 7 hello_done = concat (map (piece_bytes hello_packets) pieces)
    \<and> list_all (piece_valid hello_packets) pieces"
proof (rule take_bytes_provenance)
  have "from_packet hello_packets 0 (0, 5) (drop 5 hello_world)"
    and "from_packet hello_packets 1 (0, 5) (take 5 hello_world)"
    by (simp_all add: from_packet_def hello_packets_def hello_world_def index_range_def sub_range_def)
  then show "reasm_reach default_pending_limits (from_packet hello_packets) hello_done"
    using hello_reach by blast
  show "7 \<le> contiguous_len hello_done" by (simp add: hello_done_len)
qed

theorem stream_offset_bound_witness:
  "next_expected_relative hello_done < 2 ^ 32 + 5
    \<and> list_all (\<lambda>e. fst e + length (seg_data (snd e)) < 2 ^ 32 + 5) (pending hello_done)"
proof (rule stream_offset_bound)
  show "reasm_reach default_pending_limits (\<lambda>i rng p. length p \<le> 5) hello_done"
    using hello_reach [of "\<lambda>i rng p. length p \<le> 5"] by (simp add: hello_world_def)
qed

definition tight_limits :: pending_limits where
  "tight_limits = \<lparr>max_bytes = 100, max_packets = 1, max_age = 10\<rparr>"

definition tight_gap :: stream_reassembler where
  "tight_gap = snd (push 0 0 0 1005 (0, 2) [7, 8] (set_isn 1000 (with_pending_limits tight_limits)))"

definition tight_after :: stream_reassembler where
  "tight_after = snd (push 0 1 1 1020 (0, 1) [9] tight_gap)"

lemma tight_pushes:
  "push 0 0 0 1005 (0, 2) [7, 8] (set_isn 1000 (with_pending_limits tight_limits))
     = (BufferedOutOfOrder, tight_gap)"
  "push 0 1 1 1020 (0, 1) [9] tight_gap = (GapAbandoned 2, tight_after)"
  "anchored 1000 tight_gap"
  by (simp_all add: tight_gap_def tight_after_def tight_limits_def anchored_def reasm_eval)

theorem gap_abandoned_accounting_witness:
  "2 + pending_bytes (pending tight_after)
     = pending_bytes (bt_insert 20 (seg_of 1 (0, 1) [9]) (pending tight_gap))"
proof -
  have "reasm_reach tight_limits (\<lambda>_ _ _. True) tight_gap"
    using reach_push [OF reach_isn [OF reach_new] _ tight_pushes(1), of "\<lambda>_ _ _. True"] by simp
  from gap_abandoned_accounting [OF this tight_pushes(3,2)] show ?thesis by simp
qed

theorem sequence_space_exhausted_witness:
  "push 0 0 7 (4294967294 + 10) (0, 3) [1, 2, 3] (hello_start\<lparr>next_expected_relative := 4294967306\<rparr>)
     = (DuplicateDiscarded, hello_start\<lparr>next_expected_relative := 4294967306\<rparr>)"
proof -
  have "(of_nat 4294967306 :: u32) = 10" by simp
  then show ?thesis
    using sequence_space_exhausted [of 4294967294 "hello_start\<lparr>next_expected_relative := 4294967306\<rparr>"
        "[1, 2, 3]" 0 0 7 "(0, 3)"]
    by (simp add: hello_start_def anchored_def set_isn_def with_pending_limits_def del: of_nat_numeral)
qed

end
