(* ===== verification/Strings.thy ===== *)
theory Strings
  imports Prelude
begin

text \<open>
  The string operations of Rust's standard library the source uses, on the UTF-8 bytes of a \<open>str\<close>:
  \<open>lines\<close>, \<open>trim_end_matches\<close>, \<open>split_whitespace\<close>. White space is Unicode's \<open>White_Space\<close> set; each
  of its code points starts with a byte that never occurs inside another code point, so matching
  byte sequences is exact on valid UTF-8.
\<close>

abbreviation LF :: char where "LF \<equiv> CHR 0x0A"
abbreviation CR :: char where "CR \<equiv> CHR 0x0D"

text \<open>\<open>split_inclusive('\n')\<close>: the line terminator stays with its line.\<close>

fun split_inclusive :: "string \<Rightarrow> string list" where
  "split_inclusive [] = []"
| "split_inclusive (c # cs) =
     (if c = LF then [c] # split_inclusive cs
      else case split_inclusive cs of [] \<Rightarrow> [[c]] | l # ls \<Rightarrow> (c # l) # ls)"

definition strip_suffix :: "char \<Rightarrow> string \<Rightarrow> string option" where
  "strip_suffix c s = (if s \<noteq> [] \<and> last s = c then Some (butlast s) else None)"

definition strip_line_ending :: "string \<Rightarrow> string" where
  "strip_line_ending l =
     (case strip_suffix LF l of
        None \<Rightarrow> l
      | Some l' \<Rightarrow> (case strip_suffix CR l' of None \<Rightarrow> l' | Some l'' \<Rightarrow> l''))"

definition str_lines :: "string \<Rightarrow> string list" where
  "str_lines s = map strip_line_ending (split_inclusive s)"

definition trim_end_matches :: "char list \<Rightarrow> string \<Rightarrow> string" where
  "trim_end_matches cs s = rev (dropWhile (\<lambda>c. c \<in> set cs) (rev s))"

text \<open>The length in bytes of the white-space code point at the front, 0 when there is none.\<close>

definition byte_in :: "nat \<Rightarrow> nat \<Rightarrow> char \<Rightarrow> bool" where
  "byte_in lo hi c \<longleftrightarrow> lo \<le> of_char c \<and> of_char c \<le> hi"

fun ws_len :: "string \<Rightarrow> nat" where
  "ws_len [] = 0"
| "ws_len (a # rest) =
     (if byte_in 0x09 0x0D a \<or> a = CHR 0x20 then 1
      else (case rest of
        [] \<Rightarrow> 0
      | b # rest2 \<Rightarrow>
          (if a = CHR 0xC2 \<and> (b = CHR 0x85 \<or> b = CHR 0xA0) then 2
           else (case rest2 of
             [] \<Rightarrow> 0
           | c # _ \<Rightarrow>
              (if a = CHR 0xE1 \<and> b = CHR 0x9A \<and> c = CHR 0x80
                 \<or> a = CHR 0xE2 \<and> b = CHR 0x80 \<and>
                     (byte_in 0x80 0x8A c \<or> c = CHR 0xA8 \<or> c = CHR 0xA9 \<or> c = CHR 0xAF)
                 \<or> a = CHR 0xE2 \<and> b = CHR 0x81 \<and> c = CHR 0x9F
                 \<or> a = CHR 0xE3 \<and> b = CHR 0x80 \<and> c = CHR 0x80
               then 3 else 0)))))"

text \<open>\<open>tok\<close> is the token being collected; empty tokens are not yielded.\<close>

definition emit_token :: "string \<Rightarrow> string list \<Rightarrow> string list" where
  "emit_token tok toks = (if tok = [] then toks else tok # toks)"

function split_ws_from :: "string \<Rightarrow> string \<Rightarrow> string list" where
  "split_ws_from tok [] = emit_token tok []"
| "split_ws_from tok (c # cs) =
     (if ws_len (c # cs) = 0 then split_ws_from (tok @ [c]) cs
      else emit_token tok (split_ws_from [] (drop (ws_len (c # cs)) (c # cs))))"
  by pat_completeness auto
termination
  by (relation "measure (\<lambda>(tok, s). length s)") auto

definition split_whitespace :: "string \<Rightarrow> string list" where
  "split_whitespace s = split_ws_from [] s"

subsection \<open>Lines\<close>

lemma split_inclusive_line:
  "LF \<notin> set l \<Longrightarrow> split_inclusive (l @ LF # s) = (l @ [LF]) # split_inclusive s"
  by (induction l) auto

lemma split_inclusive_append:
  "s = [] \<or> last s = LF \<Longrightarrow> split_inclusive (s @ t) = split_inclusive s @ split_inclusive t"
proof (induction s)
  case (Cons c s)
  show ?case
  proof (cases "s = []")
    case False
    then have "split_inclusive s \<noteq> []" by (cases s) (auto split: list.splits)
    with Cons False show ?thesis by (auto split: list.splits)
  qed (use Cons in auto)
qed simp

lemma str_lines_append:
  "s = [] \<or> last s = LF \<Longrightarrow> str_lines (s @ t) = str_lines s @ str_lines t"
  by (simp add: str_lines_def split_inclusive_append)

lemma str_lines_line:
  assumes "LF \<notin> set l" and "CR \<notin> set l"
  shows "str_lines (l @ LF # s) = l # str_lines s"
proof -
  have "strip_line_ending (l @ [LF]) = l"
    using assms(2) by (cases l rule: rev_cases)
      (auto simp: strip_line_ending_def strip_suffix_def butlast_append)
  then show ?thesis using assms(1) by (simp add: str_lines_def split_inclusive_line)
qed

lemma trim_end_matches_id: "\<forall>c \<in> set s. c \<notin> set cs \<Longrightarrow> trim_end_matches cs s = s"
  by (cases s rule: rev_cases) (auto simp: trim_end_matches_def)

subsection \<open>Tokens\<close>

text \<open>Printable ASCII: neither white space nor the start of a longer code point.\<close>

definition graphic :: "char \<Rightarrow> bool" where
  "graphic c \<longleftrightarrow> byte_in 0x21 0x7E c"

lemma graphic_neq:
  assumes "graphic c"
  shows "\<not> byte_in 0x09 0x0D c" "c \<noteq> CHR 0x20" "c \<noteq> CHR 0xC2" "c \<noteq> CHR 0xE1" "c \<noteq> CHR 0xE2"
    "c \<noteq> CHR 0xE3" "c \<noteq> LF" "c \<noteq> CR"
  using assms by (auto simp: graphic_def byte_in_def)

lemma graphic_ws_len:
  assumes "graphic c"
  shows "ws_len (c # s) = 0"
  by (cases s; cases "tl s") (simp_all add: graphic_neq [OF assms])

lemma ws_len_space [simp]: "ws_len (CHR 0x20 # s) = 1"
  by simp

lemma split_ws_graphic:
  "\<forall>c \<in> set w. graphic c \<Longrightarrow> split_ws_from tok (w @ s) = split_ws_from (tok @ w) s"
proof (induction w arbitrary: tok)
  case (Cons c w)
  then have "ws_len (c # w @ s) = 0" by (simp add: graphic_ws_len del: ws_len.simps)
  then have "split_ws_from tok ((c # w) @ s) = split_ws_from (tok @ [c]) (w @ s)"
    by (simp del: ws_len.simps)
  with Cons show ?case by simp
qed simp

lemma split_ws_token:
  assumes "\<forall>c \<in> set w. graphic c" and "w \<noteq> []"
  shows "split_ws_from [] (w @ CHR 0x20 # s) = w # split_ws_from [] s"
  using assms split_ws_graphic [of w "[]" "CHR 0x20 # s"]
  by (simp add: emit_token_def del: ws_len.simps)

lemma split_ws_last:
  "\<forall>c \<in> set w. graphic c \<Longrightarrow> w \<noteq> [] \<Longrightarrow> split_ws_from [] w = [w]"
  using split_ws_graphic [of w "[]" "[]"] by (simp add: emit_token_def)

lemma split_whitespace_three:
  assumes "\<forall>c \<in> set a. graphic c" "a \<noteq> []" "\<forall>c \<in> set b. graphic c" "b \<noteq> []"
    "\<forall>c \<in> set d. graphic c" "d \<noteq> []"
  shows "split_whitespace (a @ CHR 0x20 # b @ CHR 0x20 # d) = [a, b, d]"
  using assms by (simp add: split_whitespace_def split_ws_token split_ws_last)

subsection \<open>Formatting\<close>

definition hex_digit :: "nat \<Rightarrow> char" where
  "hex_digit n = char_of (if n < 10 then 0x30 + n else 0x61 + (n - 10))"

text \<open>\<open>format!("{:02x}", b)\<close>\<close>

definition fmt_02x :: "u8 \<Rightarrow> string" where
  "fmt_02x b = [hex_digit (unat b div 16), hex_digit (unat b mod 16)]"

definition lower_hex :: "bytes \<Rightarrow> string" where
  "lower_hex bs = concat (map fmt_02x bs)"

lemma lower_hex_simps [simp]:
  "lower_hex [] = []" "lower_hex (b # bs) = fmt_02x b @ lower_hex bs"
  by (simp_all add: lower_hex_def)

text \<open>Decimal formatting of an unsigned integer, \<open>{}\<close> and \<open>{:0w}\<close>.\<close>

fun fmt_dec :: "nat \<Rightarrow> string" where
  "fmt_dec n = (if n < 10 then [char_of (0x30 + n)] else fmt_dec (n div 10) @ [char_of (0x30 + n mod 10)])"

declare fmt_dec.simps [simp del]

definition fmt_dec_pad :: "nat \<Rightarrow> nat \<Rightarrow> string" where
  "fmt_dec_pad w n = replicate (w - length (fmt_dec n)) (CHR ''0'') @ fmt_dec n"

definition dec_val :: "string \<Rightarrow> nat" where
  "dec_val s = foldl (\<lambda>a c. a * 10 + (of_char c - 0x30)) 0 s"

definition dec_digit :: "char \<Rightarrow> bool" where
  "dec_digit c \<longleftrightarrow> byte_in 0x30 0x39 c"

lemma dec_val_snoc [simp]: "dec_val (s @ [c]) = dec_val s * 10 + (of_char c - 0x30)"
  by (simp add: dec_val_def)

lemma of_char_digit: "n < 10 \<Longrightarrow> (of_char (char_of (0x30 + n :: nat) :: char) :: nat) = 0x30 + n"
  by simp

lemma fmt_dec_val: "dec_val (fmt_dec n) = n \<and> list_all dec_digit (fmt_dec n) \<and> fmt_dec n \<noteq> []"
proof (induction n rule: fmt_dec.induct)
  case (1 n)
  show ?case
  proof (cases "n < 10")
    case True
    then show ?thesis
      by (simp add: fmt_dec.simps [of n] dec_val_def dec_digit_def byte_in_def)
  next
    case False
    then show ?thesis
      using 1 by (simp add: fmt_dec.simps [of n] dec_digit_def byte_in_def)
  qed
qed

lemma fmt_dec_inject: "fmt_dec m = fmt_dec n \<longleftrightarrow> m = n"
  by (metis fmt_dec_val)

lemma dec_val_zeros: "dec_val (replicate k (CHR ''0'') @ s) = dec_val s"
proof -
  have "foldl (\<lambda>a c. a * 10 + (of_char c - 0x30)) 0 (replicate k (CHR ''0'')) = (0 :: nat)"
    by (induction k) simp_all
  then show ?thesis by (simp add: dec_val_def)
qed

lemma fmt_dec_pad_val: "dec_val (fmt_dec_pad w n) = n \<and> list_all dec_digit (fmt_dec_pad w n)"
  using fmt_dec_val [of n]
  by (auto simp: fmt_dec_pad_def dec_val_zeros dec_digit_def byte_in_def list_all_iff)

end
