(* ===== verification/Keylog.thy ===== *)
theory Keylog
  imports Strings
begin

text \<open>
  \<open>src/keylog.rs\<close>: parsing of the NSS key log format into an index from client random to the
  connection's secrets, and the lookup. The hexadecimal decoder is the \<open>hex\<close> crate's, a parameter;
  where a property needs the decoder to invert an encoder, that is the hypothesis \<open>hex_codec\<close>.
\<close>

datatype secret_label =
    ClientRandom
  | ClientHandshakeTrafficSecret
  | ServerHandshakeTrafficSecret
  | ClientTrafficSecret0
  | ServerTrafficSecret0
  | Other string

definition label_parse :: "string \<Rightarrow> secret_label" where
  "label_parse s =
     (if s = ''CLIENT_RANDOM'' then ClientRandom
      else if s = ''CLIENT_HANDSHAKE_TRAFFIC_SECRET'' then ClientHandshakeTrafficSecret
      else if s = ''SERVER_HANDSHAKE_TRAFFIC_SECRET'' then ServerHandshakeTrafficSecret
      else if s = ''CLIENT_TRAFFIC_SECRET_0'' then ClientTrafficSecret0
      else if s = ''SERVER_TRAFFIC_SECRET_0'' then ServerTrafficSecret0
      else Other s)"

fun label_fmt :: "secret_label \<Rightarrow> string" where
  "label_fmt ClientRandom = ''CLIENT_RANDOM''"
| "label_fmt ClientHandshakeTrafficSecret = ''CLIENT_HANDSHAKE_TRAFFIC_SECRET''"
| "label_fmt ServerHandshakeTrafficSecret = ''SERVER_HANDSHAKE_TRAFFIC_SECRET''"
| "label_fmt ClientTrafficSecret0 = ''CLIENT_TRAFFIC_SECRET_0''"
| "label_fmt ServerTrafficSecret0 = ''SERVER_TRAFFIC_SECRET_0''"
| "label_fmt (Other s) = s"

record keylog =
  by_client_random :: "bytes \<rightharpoonup> (secret_label \<rightharpoonup> bytes)"
  entry_count :: nat

definition empty_keylog :: keylog where
  "empty_keylog = \<lparr>by_client_random = Map.empty, entry_count = 0\<rparr>"

type_synonym hex_decoder = "string \<Rightarrow> bytes option"
type_synonym secret_entry = "bytes \<times> secret_label \<times> bytes"

text \<open>One line of the file: \<open>None\<close> for every \<open>continue\<close> of the loop.\<close>

definition parse_line :: "hex_decoder \<Rightarrow> string \<Rightarrow> secret_entry option" where
  "parse_line hex_decode raw_line =
     (let line = trim_end_matches [CR, LF] raw_line in
      if line = [] \<or> hd line = CHR ''#'' then None
      else (case split_whitespace line of
              label_str # random_hex # secret_hex # _ \<Rightarrow>
                (case (hex_decode random_hex, hex_decode secret_hex) of
                   (Some client_random, Some secret) \<Rightarrow>
                     Some (client_random, label_parse label_str, secret)
                 | _ \<Rightarrow> None)
            | _ \<Rightarrow> None))"

text \<open>\<open>entry(client_random).or_default().insert(label, secret)\<close> and the count.\<close>

definition insert_secret :: "secret_entry \<Rightarrow> keylog \<Rightarrow> keylog" where
  "insert_secret e k =
     (case e of (cr, label, secret) \<Rightarrow>
        let inner = (case by_client_random k cr of None \<Rightarrow> Map.empty | Some i \<Rightarrow> i) in
        k\<lparr>by_client_random := (by_client_random k)(cr \<mapsto> inner(label \<mapsto> secret)),
          entry_count := entry_count k + 1\<rparr>)"

fun parse_lines :: "hex_decoder \<Rightarrow> string list \<Rightarrow> keylog \<Rightarrow> keylog" where
  "parse_lines hex_decode [] k = k"
| "parse_lines hex_decode (raw_line # rest) k =
     (case parse_line hex_decode raw_line of
        None \<Rightarrow> parse_lines hex_decode rest k
      | Some e \<Rightarrow> parse_lines hex_decode rest (insert_secret e k))"

definition keylog_parse :: "hex_decoder \<Rightarrow> string \<Rightarrow> keylog" where
  "keylog_parse hex_decode contents = parse_lines hex_decode (str_lines contents) empty_keylog"

definition secret_for :: "keylog \<Rightarrow> bytes \<Rightarrow> secret_label \<Rightarrow> bytes option" where
  "secret_for k client_random label =
     (case by_client_random k client_random of None \<Rightarrow> None | Some inner \<Rightarrow> inner label)"

subsection \<open>The interface: an index of secrets\<close>

text \<open>
  What decryption relies on: looking a secret up after adding one. The client's view of a whole log,
  that the last entry for a key wins, follows from these two laws.
\<close>

locale secret_index =
  fixes none :: "'i"
    and add :: "secret_entry \<Rightarrow> 'i \<Rightarrow> 'i"
    and lookup :: "'i \<Rightarrow> bytes \<Rightarrow> secret_label \<Rightarrow> bytes option"
  assumes lookup_none: "lookup none cr lab = None"
    and lookup_add: "lookup (add (cr', lab', sec) i) cr lab =
      (if cr = cr' \<and> lab = lab' then Some sec else lookup i cr lab)"
begin

fun add_all :: "secret_entry list \<Rightarrow> 'i \<Rightarrow> 'i" where
  "add_all [] i = i"
| "add_all (e # es) i = add_all es (add e i)"

lemma add_all_append: "add_all (es @ fs) i = add_all fs (add_all es i)"
  by (induction es arbitrary: i) auto

lemma lookup_add_all:
  "lookup (add_all es i) cr lab =
     (case map_of (rev (map (\<lambda>(c, l, s). ((c, l), s)) es)) (cr, lab) of
        None \<Rightarrow> lookup i cr lab | Some s \<Rightarrow> Some s)"
proof (induction es arbitrary: i)
  case (Cons e es)
  obtain c l s where "e = (c, l, s)" by (cases e)
  with Cons show ?case by (auto simp: lookup_add map_add_def split: option.splits)
qed simp

lemma lookup_kept:
  assumes "lookup i cr lab = Some s"
  shows "\<exists>s'. lookup (add_all es i) cr lab = Some s'"
  using assms by (auto simp: lookup_add_all split: option.splits)

end

interpretation nss: secret_index empty_keylog insert_secret secret_for
  by unfold_locales
    (auto simp: secret_for_def insert_secret_def empty_keylog_def Let_def split: option.splits)

text \<open>The entries of a file, in order.\<close>

definition entries_of :: "hex_decoder \<Rightarrow> string \<Rightarrow> secret_entry list" where
  "entries_of hex_decode contents = List.map_filter (parse_line hex_decode) (str_lines contents)"

lemma parse_lines_eq:
  "parse_lines hx ls k = nss.add_all (List.map_filter (parse_line hx) ls) k"
  by (induction ls arbitrary: k) (auto simp: List.map_filter_def split: option.splits)

lemma keylog_parse_eq: "keylog_parse hx s = nss.add_all (entries_of hx s) empty_keylog"
  by (simp add: keylog_parse_def entries_of_def parse_lines_eq)

lemma add_all_entry_count: "entry_count (nss.add_all es k) = entry_count k + length es"
  by (induction es arbitrary: k) (auto simp: insert_secret_def Let_def)

lemma entries_of_append:
  "s = [] \<or> last s = LF \<Longrightarrow> entries_of hx (s @ t) = entries_of hx s @ entries_of hx t"
  by (simp add: entries_of_def str_lines_append List.map_filter_def)

lemma keylog_parse_append:
  "s = [] \<or> last s = LF \<Longrightarrow> keylog_parse hx (s @ t) = nss.add_all (entries_of hx t) (keylog_parse hx s)"
  by (simp add: keylog_parse_eq entries_of_append nss.add_all_append)

subsection \<open>Writing a key log\<close>

text \<open>A log as the format's writers emit it: one entry per line, the fields separated by a blank.\<close>

definition render_entry :: "(bytes \<Rightarrow> string) \<Rightarrow> secret_entry \<Rightarrow> string" where
  "render_entry hex_encode e =
     (case e of (cr, label, secret) \<Rightarrow>
        label_fmt label @ '' '' @ hex_encode cr @ '' '' @ hex_encode secret)"

definition render_log :: "(bytes \<Rightarrow> string) \<Rightarrow> secret_entry list \<Rightarrow> string" where
  "render_log hex_encode es = concat (map (\<lambda>e. render_entry hex_encode e @ [LF]) es)"

text \<open>What the \<open>hex\<close> crate documents: \<open>decode\<close> inverts \<open>encode\<close>, which emits two hexadecimal digits per byte.\<close>

definition hex_char :: "char \<Rightarrow> bool" where
  "hex_char c \<longleftrightarrow> byte_in 0x30 0x39 c \<or> byte_in 0x61 0x66 c"

definition hex_codec :: "(bytes \<Rightarrow> string) \<Rightarrow> hex_decoder \<Rightarrow> bool" where
  "hex_codec enc dec \<longleftrightarrow>
     (\<forall>bs. dec (enc bs) = Some bs \<and> length (enc bs) = 2 * length bs \<and> (\<forall>c \<in> set (enc bs). hex_char c))"

text \<open>A label that the format can carry: printable, no comment sign, and not one of the five known names
  under \<open>Other\<close>.\<close>

definition label_ok :: "secret_label \<Rightarrow> bool" where
  "label_ok l \<longleftrightarrow> (case l of
      Other s \<Rightarrow> s \<noteq> [] \<and> list_all graphic s \<and> hd s \<noteq> CHR ''#'' \<and> label_parse s = Other s
    | _ \<Rightarrow> True)"

definition entry_ok :: "secret_entry \<Rightarrow> bool" where
  "entry_ok e \<longleftrightarrow> (case e of (cr, label, secret) \<Rightarrow> cr \<noteq> [] \<and> secret \<noteq> [] \<and> label_ok label)"

lemma hex_char_graphic: "hex_char c \<Longrightarrow> graphic c"
  by (auto simp: hex_char_def graphic_def byte_in_def)

lemma label_parse_fmt: "label_ok l \<Longrightarrow> label_parse (label_fmt l) = l"
  by (cases l) (auto simp: label_parse_def label_ok_def)

lemma label_fmt_graphic:
  "label_ok l \<Longrightarrow> list_all graphic (label_fmt l) \<and> label_fmt l \<noteq> [] \<and> hd (label_fmt l) \<noteq> CHR ''#''"
  by (cases l) (auto simp: label_ok_def graphic_def byte_in_def)

lemma hex_token:
  assumes "hex_codec enc dec" and "bs \<noteq> []"
  shows "enc bs \<noteq> [] \<and> (\<forall>c \<in> set (enc bs). graphic c) \<and> dec (enc bs) = Some bs"
proof -
  have "length (enc bs) = 2 * length bs" using assms(1) by (simp add: hex_codec_def)
  then have "enc bs \<noteq> []" using assms(2) by (cases "enc bs") auto
  then show ?thesis using assms hex_char_graphic by (auto simp: hex_codec_def)
qed

lemma render_entry_chars:
  assumes "hex_codec enc dec" and "entry_ok e" and "c \<in> set (render_entry enc e)"
  shows "c \<noteq> LF \<and> c \<noteq> CR"
proof -
  obtain cr l s where e: "e = (cr, l, s)" by (cases e)
  then have "c = CHR 0x20 \<or> graphic c"
    using assms hex_token [OF assms(1), of cr] hex_token [OF assms(1), of s] label_fmt_graphic [of l]
    by (auto simp: render_entry_def entry_ok_def list_all_iff)
  then show ?thesis using graphic_neq(7,8) [of c] by auto
qed

lemma parse_line_render:
  assumes "hex_codec enc dec" and "entry_ok e"
  shows "parse_line dec (render_entry enc e) = Some e"
proof -
  obtain cr l s where e: "e = (cr, l, s)" by (cases e)
  have ok: "label_ok l" "cr \<noteq> []" "s \<noteq> []" using assms(2) e by (auto simp: entry_ok_def)
  have line: "trim_end_matches [CR, LF] (render_entry enc e) = render_entry enc e"
    using render_entry_chars [OF assms] by (intro trim_end_matches_id) auto
  have toks: "split_whitespace (render_entry enc e) = [label_fmt l, enc cr, enc s]"
    using label_fmt_graphic [OF ok(1)] hex_token [OF assms(1) ok(2)] hex_token [OF assms(1) ok(3)]
    by (simp add: e render_entry_def split_whitespace_three list_all_iff)
  have "hd (render_entry enc e) \<noteq> CHR ''#''" "render_entry enc e \<noteq> []"
    using label_fmt_graphic [OF ok(1)] by (auto simp: e render_entry_def)
  then show ?thesis
    using hex_token [OF assms(1) ok(2)] hex_token [OF assms(1) ok(3)] ok(1)
    unfolding parse_line_def line Let_def toks by (simp add: label_parse_fmt) (simp add: e)
qed

lemma entries_of_render:
  assumes "hex_codec enc dec" and "\<forall>e \<in> set es. entry_ok e"
  shows "entries_of dec (render_log enc es) = es"
  using assms(2)
proof (induction es)
  case (Cons e es)
  have "str_lines (render_log enc (e # es)) = render_entry enc e # str_lines (render_log enc es)"
    using render_entry_chars [OF assms(1), of e] Cons.prems
    by (simp add: render_log_def) (subst str_lines_line, auto)
  then show ?case
    using Cons parse_line_render [OF assms(1), of e]
    by (cases e) (simp add: entries_of_def List.map_filter_def)
qed (simp add: entries_of_def render_log_def str_lines_def List.map_filter_def)

subsection \<open>Properties\<close>

text \<open>
  C15 (lookup). Looking a secret up in a parsed key log returns the secret of the last line of the file
  that parses to that client random and label, and nothing when there is no such line; the entry
  count is the number of lines that parse. The documentation of the count has all lines that are no comment and not blank;
  a line that does not parse is not counted.
\<close>

theorem secret_for_last_entry:
  "secret_for (keylog_parse hx s) cr lab =
     map_of (rev (map (\<lambda>(c, l, sec). ((c, l), sec)) (entries_of hx s))) (cr, lab)
   \<and> entry_count (keylog_parse hx s) = length (entries_of hx s)"
  by (simp add: keylog_parse_eq nss.lookup_add_all nss.lookup_none add_all_entry_count
      empty_keylog_def [symmetric] split: option.splits) (simp add: empty_keylog_def)

text \<open>
  C16 (round trip). With a hexadecimal decoder that inverts its encoder, parsing a key log written line
  by line from a list of entries gives back exactly those entries, and with them every secret: the
  last one written for its client random and label.
\<close>

theorem keylog_round_trip:
  assumes "hex_codec enc dec" and "\<forall>e \<in> set es. entry_ok e"
  shows "entries_of dec (render_log enc es) = es
    \<and> (map_of (rev (map (\<lambda>(c, l, sec). ((c, l), sec)) es)) (cr, lab) = Some sec \<longrightarrow>
       secret_for (keylog_parse dec (render_log enc es)) cr lab = Some sec)"
  using entries_of_render [OF assms]
  by (simp add: keylog_parse_eq nss.lookup_add_all)

subsection \<open>A concrete codec\<close>

text \<open>\<open>{:02x}\<close> formatting and its inverse, to show that \<open>hex_codec\<close> can hold.\<close>

definition nibble_val :: "char \<Rightarrow> nat option" where
  "nibble_val c = (if byte_in 0x30 0x39 c then Some (of_char c - 0x30)
                   else if byte_in 0x61 0x66 c then Some (of_char c - 0x61 + 10) else None)"

fun hex_decode_lower :: "string \<Rightarrow> bytes option" where
  "hex_decode_lower [] = Some []"
| "hex_decode_lower [_] = None"
| "hex_decode_lower (a # b # s) =
     (case (nibble_val a, nibble_val b, hex_decode_lower s) of
        (Some h, Some l, Some bs) \<Rightarrow> Some (of_nat (16 * h + l) # bs)
      | _ \<Rightarrow> None)"

lemma nibble_round_trip:
  assumes "n < 16"
  shows "nibble_val (hex_digit n) = Some n \<and> hex_char (hex_digit n)"
proof -
  have "\<forall>n \<in> {..<16}. nibble_val (hex_digit n) = Some n \<and> hex_char (hex_digit n)"
    by (simp add: hex_digit_def nibble_val_def hex_char_def byte_in_def lessThan_nat_numeral
        lessThan_Suc)
  with assms show ?thesis by blast
qed

lemma lower_hex_codec: "hex_codec lower_hex hex_decode_lower"
proof -
  have byte: "unat (b :: u8) div 16 < 16" for b
  proof -
    have "unat b < 256" by (rule order_less_le_trans [OF unsigned_less]) simp
    then show ?thesis by (simp add: less_mult_imp_div_less)
  qed
  have "hex_decode_lower (lower_hex bs) = Some bs \<and> length (lower_hex bs) = 2 * length bs
      \<and> (\<forall>c \<in> set (lower_hex bs). hex_char c)" for bs
  proof (induction bs)
    case (Cons b bs)
    then show ?case
      using nibble_round_trip [OF byte [of b]] nibble_round_trip [of "unat b mod 16"]
      by (simp add: fmt_02x_def)
  qed simp
  then show ?thesis by (simp add: hex_codec_def)
qed

definition demo_entries :: "secret_entry list" where
  "demo_entries = [([0xAB, 0x01], ClientRandom, [0x11]), ([0xAB, 0x01], Other ''EXPORTER_SECRET'', [0x22]),
     ([0xAB, 0x01], ClientRandom, [0x33, 0xF0])]"

theorem keylog_round_trip_witness:
  "entries_of hex_decode_lower (render_log lower_hex demo_entries) = demo_entries
   \<and> secret_for (keylog_parse hex_decode_lower (render_log lower_hex demo_entries)) [0xAB, 0x01] ClientRandom
       = Some [0x33, 0xF0]"
proof -
  have "\<forall>e \<in> set demo_entries. entry_ok e"
    by (simp add: demo_entries_def entry_ok_def label_ok_def label_parse_def graphic_def byte_in_def)
  from keylog_round_trip [OF lower_hex_codec this, of "[0xAB, 0x01]" ClientRandom "[0x33, 0xF0]"]
  show ?thesis by (simp add: demo_entries_def)
qed

end
