(* ===== verification/Keylog_Source.thy ===== *)
theory Keylog_Source
  imports Keylog
begin

text \<open>
  \<open>src/keylog_source.rs\<close>: the key log of a long-running process, reloaded on an interval and after a
  decryption miss. The file system and the clock are the environment of a call: \<open>keylog_env\<close> holds what
  each system call of the operation returns.
\<close>

datatype io_error = NotFound | OtherIoError

text \<open>\<open>fs::Metadata\<close> as far as it is used: \<open>modified().ok()\<close> and \<open>len()\<close>.\<close>

record metadata =
  md_modified :: "nat option"
  md_len :: u64

record keylog_env =
  elapsed_at :: instant
  attempt_at :: instant
  miss_metadata :: "metadata option"
  read_result :: "io_error + string"
  read_metadata :: "metadata option"

record keylog_source =
  ks_path :: "string option"
  reload_interval :: duration
  last_reload_attempt :: instant
  last_seen_mtime :: "nat option"
  last_seen_len :: "u64 option"
  ks_current :: keylog

definition duration_MAX :: duration where
  "duration_MAX = 18446744073709551615 * 1000000000 + 999999999"

definition stat_signature :: "metadata option \<Rightarrow> nat option \<times> u64 option" where
  "stat_signature res =
     (case res of None \<Rightarrow> (None, None) | Some meta \<Rightarrow> (md_modified meta, Some (md_len meta)))"

definition ks_open ::
  "hex_decoder \<Rightarrow> string \<Rightarrow> duration \<Rightarrow> keylog_env \<Rightarrow> io_error + keylog_source"
where
  "ks_open hx path interval env =
     (let mk = (\<lambda>current mtime len.
          \<lparr>ks_path = Some path, reload_interval = interval, last_reload_attempt = attempt_at env,
           last_seen_mtime = mtime, last_seen_len = len, ks_current = current\<rparr>) in
      case read_result env of
        Inr text \<Rightarrow>
          (let (mtime, len) = stat_signature (read_metadata env) in
           Inr (mk (keylog_parse hx text) mtime len))
      | Inl NotFound \<Rightarrow> Inr (mk (keylog_parse hx []) None None)
      | Inl e \<Rightarrow> Inl e)"

definition from_parsed :: "keylog \<Rightarrow> instant \<Rightarrow> keylog_source" where
  "from_parsed k now =
     \<lparr>ks_path = None, reload_interval = duration_MAX, last_reload_attempt = now,
      last_seen_mtime = None, last_seen_len = None, ks_current = k\<rparr>"

definition reload_if_changed :: "hex_decoder \<Rightarrow> keylog_env \<Rightarrow> keylog_source \<Rightarrow> keylog_source" where
  "reload_if_changed hx env ks =
     (case ks_path ks of
        None \<Rightarrow> ks
      | Some path \<Rightarrow>
          let ks1 = ks\<lparr>last_reload_attempt := attempt_at env\<rparr> in
          (case read_result env of
             Inl _ \<Rightarrow> ks1
           | Inr text \<Rightarrow>
               let (mtime, len) = stat_signature (read_metadata env) in
               ks1\<lparr>last_seen_mtime := mtime, last_seen_len := len, ks_current := keylog_parse hx text\<rparr>))"

definition poll :: "hex_decoder \<Rightarrow> keylog_env \<Rightarrow> keylog_source \<Rightarrow> keylog_source" where
  "poll hx env ks =
     (if ks_path ks \<noteq> None \<and> elapsed (last_reload_attempt ks) (elapsed_at env) \<ge> reload_interval ks
      then reload_if_changed hx env ks else ks)"

definition poll_after_miss :: "hex_decoder \<Rightarrow> keylog_env \<Rightarrow> keylog_source \<Rightarrow> keylog_source" where
  "poll_after_miss hx env ks =
     (case ks_path ks of
        None \<Rightarrow> ks
      | Some path \<Rightarrow>
          let (mtime, len) = stat_signature (miss_metadata env) in
          if mtime \<noteq> last_seen_mtime ks \<or> len \<noteq> last_seen_len ks
          then reload_if_changed hx env ks else ks)"

subsection \<open>Runs\<close>

datatype ks_op = Poll | PollAfterMiss

fun ks_apply :: "hex_decoder \<Rightarrow> ks_op \<times> keylog_env \<Rightarrow> keylog_source \<Rightarrow> keylog_source" where
  "ks_apply hx (Poll, env) ks = poll hx env ks"
| "ks_apply hx (PollAfterMiss, env) ks = poll_after_miss hx env ks"

definition ks_run :: "hex_decoder \<Rightarrow> (ks_op \<times> keylog_env) list \<Rightarrow> keylog_source \<Rightarrow> keylog_source" where
  "ks_run hx ops ks = fold (ks_apply hx) ops ks"

text \<open>The file is only appended to, and reads see it at the end of a line.\<close>

fun append_only :: "string \<Rightarrow> keylog_env list \<Rightarrow> bool" where
  "append_only t [] = True"
| "append_only t (env # envs) =
     (case read_result env of
        Inl _ \<Rightarrow> append_only t envs
      | Inr t' \<Rightarrow> (t = [] \<or> last t = LF) \<and> take (length t) t' = t \<and> append_only t' envs)"

lemma ks_apply_current:
  "ks_current (ks_apply hx (op, env) ks) = ks_current ks \<or>
   (\<exists>t. read_result env = Inr t \<and> ks_current (ks_apply hx (op, env) ks) = keylog_parse hx t)"
  by (cases op)
    (auto simp: poll_def poll_after_miss_def reload_if_changed_def Let_def
      split: option.splits sum.splits prod.splits)

lemma secret_for_append:
  assumes "secret_for (keylog_parse hx t) cr lab = Some s" and "t = [] \<or> last t = LF"
    and "take (length t) t' = t"
  shows "\<exists>s'. secret_for (keylog_parse hx t') cr lab = Some s'"
proof -
  have "t' = t @ drop (length t) t'" using assms(3) by (metis append_take_drop_id)
  then show ?thesis
    using keylog_parse_append [OF assms(2), of hx "drop (length t) t'"]
      nss.lookup_kept [OF assms(1)] by metis
qed

subsection \<open>Properties\<close>

text \<open>
  Reloading. An interval poll does nothing on a source without a file or before the interval has
  passed since the last attempt, and a poll after a miss does nothing when the file's modification
  time and size are the ones last seen. Otherwise the attempt is recorded and the file is read: when
  that fails the last good key log and signature stay, and when it succeeds the key log is the parse of
  the contents and the signature is the file's.
\<close>

lemma reload_behaviour:
  "poll hx env ks =
     (if ks_path ks = None \<or> elapsed (last_reload_attempt ks) (elapsed_at env) < reload_interval ks
      then ks else reload_if_changed hx env ks)
   \<and> poll_after_miss hx env ks =
     (if ks_path ks = None \<or> stat_signature (miss_metadata env) = (last_seen_mtime ks, last_seen_len ks)
      then ks else reload_if_changed hx env ks)
   \<and> (case read_result env of
        Inl _ \<Rightarrow> ks_current (reload_if_changed hx env ks) = ks_current ks
          \<and> last_seen_mtime (reload_if_changed hx env ks) = last_seen_mtime ks
          \<and> last_seen_len (reload_if_changed hx env ks) = last_seen_len ks
      | Inr text \<Rightarrow> ks_path ks = None
          \<or> reload_if_changed hx env ks =
              ks\<lparr>last_reload_attempt := attempt_at env,
                 last_seen_mtime := fst (stat_signature (read_metadata env)),
                 last_seen_len := snd (stat_signature (read_metadata env)),
                 ks_current := keylog_parse hx text\<rparr>)"
  by (auto simp: poll_def poll_after_miss_def reload_if_changed_def Let_def
      split: option.splits sum.splits prod.splits)

text \<open>
  C17 (secrets survive reloads). While the key log file is only appended to, in whole lines, a secret
  that the source can look up stays available through every sequence of interval polls and polls after
  a miss, read errors included.
\<close>

theorem secrets_survive_reloads:
  assumes "ks_current ks = keylog_parse hx t" and "append_only t (map snd ops)"
    and "\<exists>s. secret_for (ks_current ks) cr lab = Some s"
  shows "\<exists>s. secret_for (ks_current (ks_run hx ops ks)) cr lab = Some s"
proof -
  have "\<exists>s. secret_for (ks_current (ks_run hx ops ks)) cr lab = Some s"
    if "\<exists>s. secret_for (keylog_parse hx t) cr lab = Some s"
      and "\<exists>s. secret_for (ks_current ks) cr lab = Some s" for ks
    using that assms(2)
  proof (induction ops arbitrary: ks t)
    case (Cons oe ops)
    obtain op env where oe: "oe = (op, env)" by (cases oe)
    let ?ks = "ks_apply hx (op, env) ks"
    have run: "ks_run hx (oe # ops) ks = ks_run hx ops ?ks" by (simp add: ks_run_def oe)
    show ?case
    proof (cases "read_result env")
      case (Inl e)
      then have "ks_current ?ks = ks_current ks" using ks_apply_current [of hx op env ks] by auto
      then show ?thesis using Cons.IH [of t ?ks] Cons.prems Inl run by (simp add: oe)
    next
      case (Inr t')
      then have t': "t = [] \<or> last t = LF" "take (length t) t' = t" "append_only t' (map snd ops)"
        using Cons.prems(3) by (auto simp: oe)
      then have new: "\<exists>s. secret_for (keylog_parse hx t') cr lab = Some s"
        using secret_for_append Cons.prems(1) by blast
      then have "\<exists>s. secret_for (ks_current ?ks) cr lab = Some s"
        using ks_apply_current [of hx op env ks] Cons.prems(2) Inr by auto
      with new t'(3) Cons.IH [of t' ?ks] run show ?thesis by simp
    qed
  qed (simp add: ks_run_def)
  with assms(1,3) show ?thesis by simp
qed

definition demo_text :: "secret_entry list \<Rightarrow> string" where
  "demo_text es = render_log lower_hex es"

definition demo_env :: "nat \<Rightarrow> io_error + string \<Rightarrow> keylog_env" where
  "demo_env now res =
     \<lparr>elapsed_at = now, attempt_at = now, miss_metadata = Some \<lparr>md_modified = Some now, md_len = 1\<rparr>,
      read_result = res, read_metadata = Some \<lparr>md_modified = Some now, md_len = 1\<rparr>\<rparr>"

definition demo_source :: keylog_source where
  "demo_source =
     \<lparr>ks_path = Some ''keylog.txt'', reload_interval = 5, last_reload_attempt = 0,
      last_seen_mtime = Some 0, last_seen_len = Some 1,
      ks_current = keylog_parse hex_decode_lower (demo_text (take 1 demo_entries))\<rparr>"

theorem secrets_survive_reloads_witness:
  "\<exists>s. secret_for
     (ks_current (ks_run hex_decode_lower
        [(PollAfterMiss, demo_env 3 (Inl OtherIoError)), (Poll, demo_env 9 (Inr (demo_text demo_entries)))]
        demo_source))
     [0xAB, 0x01] ClientRandom = Some s"
proof (rule secrets_survive_reloads)
  have ok: "\<forall>e \<in> set (take 1 demo_entries). entry_ok e"
    by (simp add: demo_entries_def entry_ok_def label_ok_def)
  show "ks_current demo_source = keylog_parse hex_decode_lower (demo_text (take 1 demo_entries))"
    by (simp add: demo_source_def)
  have "demo_text demo_entries = demo_text (take 1 demo_entries) @ demo_text (drop 1 demo_entries)"
    and "last (demo_text (take 1 demo_entries)) = LF"
    by (simp_all add: demo_text_def render_log_def demo_entries_def)
  then show "append_only (demo_text (take 1 demo_entries))
      (map snd [(PollAfterMiss, demo_env 3 (Inl OtherIoError)),
                (Poll, demo_env 9 (Inr (demo_text demo_entries)))])"
    by (simp add: demo_env_def)
  show "\<exists>s. secret_for (ks_current demo_source) [0xAB, 0x01] ClientRandom = Some s"
    using entries_of_render [OF lower_hex_codec ok]
    by (simp add: demo_source_def demo_text_def keylog_parse_eq nss.lookup_add demo_entries_def)
qed

end
