(* ===== verification/Tls13.thy ===== *)
theory Tls13
  imports Prelude
begin

text \<open>
  \<open>src/tls13.rs\<close>: record keys from a traffic secret, the per-record nonce, and the record transform.
  The cryptography is that of the RustCrypto crates, collected in the parameter \<open>crypto\<close>: HKDF's
  \<open>from_prk\<close> and \<open>expand\<close>, HMAC, and AEAD open and seal. Their outputs into buffers and arrays of a fixed
  size are brought to that size by \<open>fixed\<close>. What a property needs of the AEAD is the hypothesis
  \<open>aead_inverts\<close>.
\<close>

datatype tls13_error = Aead13 | RecordTooShort | NoContentType

datatype aead_algorithm = Aes128Gcm | Aes256Gcm | ChaCha20Poly1305

datatype hkdf_hash = HkdfSha256 | HkdfSha384

datatype prf_hash = PrfSha256 | PrfSha384

record crypto =
  hkdf_from_prk :: "hkdf_hash \<Rightarrow> bytes \<Rightarrow> bool"
  hkdf_expand :: "hkdf_hash \<Rightarrow> bytes \<Rightarrow> bytes \<Rightarrow> nat \<Rightarrow> bytes"
  hmac :: "prf_hash \<Rightarrow> bytes \<Rightarrow> bytes \<Rightarrow> bytes"
  aead_open :: "aead_algorithm \<Rightarrow> bytes \<Rightarrow> bytes \<Rightarrow> bytes \<Rightarrow> bytes \<Rightarrow> bytes option"
  aead_seal :: "aead_algorithm \<Rightarrow> bytes \<Rightarrow> bytes \<Rightarrow> bytes \<Rightarrow> bytes \<Rightarrow> bytes"

fun key_len :: "aead_algorithm \<Rightarrow> nat" where
  "key_len Aes128Gcm = 16"
| "key_len Aes256Gcm = 32"
| "key_len ChaCha20Poly1305 = 32"

definition IV_LEN :: nat where
  "IV_LEN = 12"

fun algorithm_hash :: "aead_algorithm \<Rightarrow> hkdf_hash" where
  "algorithm_hash Aes128Gcm = HkdfSha256"
| "algorithm_hash ChaCha20Poly1305 = HkdfSha256"
| "algorithm_hash Aes256Gcm = HkdfSha384"

text \<open>The ASCII bytes of a label.\<close>

definition str_bytes :: "string \<Rightarrow> bytes" where
  "str_bytes s = map (\<lambda>c. of_nat (of_char c)) s"

definition hkdf_label :: "string \<Rightarrow> bytes \<Rightarrow> nat \<Rightarrow> bytes" where
  "hkdf_label label context len =
     (let full_label = str_bytes (''tls13 '' @ label) in
      be_u16 (of_nat len) @ [of_nat (length full_label)] @ full_label
        @ [of_nat (length context)] @ context)"

definition hkdf_expand_label ::
  "crypto \<Rightarrow> bytes \<Rightarrow> string \<Rightarrow> bytes \<Rightarrow> nat \<Rightarrow> hkdf_hash \<Rightarrow> bytes option"
where
  "hkdf_expand_label cr secret label context len h =
     (if hkdf_from_prk cr h secret
      then Some (fixed len (hkdf_expand cr h secret (hkdf_label label context len) len))
      else None)"

record record_keys13 =
  rk_algorithm :: aead_algorithm
  rk_key :: bytes
  rk_iv :: bytes

definition derive13 :: "crypto \<Rightarrow> bytes \<Rightarrow> aead_algorithm \<Rightarrow> record_keys13 option" where
  "derive13 cr traffic_secret algorithm =
     (case hkdf_expand_label cr traffic_secret ''key'' [] (key_len algorithm) (algorithm_hash algorithm) of
        None \<Rightarrow> None
      | Some key \<Rightarrow>
          (case hkdf_expand_label cr traffic_secret ''iv'' [] IV_LEN (algorithm_hash algorithm) of
             None \<Rightarrow> None
           | Some iv_vec \<Rightarrow> Some \<lparr>rk_algorithm = algorithm, rk_key = key, rk_iv = iv_vec\<rparr>))"

text \<open>\<open>for i in 0..8 { nonce[4 + i] ^= seq_bytes[i] }\<close>\<close>

fun xor_from :: "nat \<Rightarrow> bytes \<Rightarrow> bytes \<Rightarrow> bytes" where
  "xor_from i [] nonce = nonce"
| "xor_from i (b # bs) nonce = xor_from (Suc i) bs (nonce[i := nonce ! i XOR b])"

definition nonce_for13 :: "record_keys13 \<Rightarrow> u64 \<Rightarrow> bytes" where
  "nonce_for13 keys seq_num = xor_from 4 (be_u64 seq_num) (rk_iv keys)"

text \<open>The backward scan over the padding, and the content-type byte before it.\<close>

function strip_zeros :: "bytes \<Rightarrow> bytes" where
  "strip_zeros inner = (if inner \<noteq> [] \<and> last inner = 0 then strip_zeros (butlast inner) else inner)"
  by pat_completeness auto
termination
  by (relation "measure length") auto

declare strip_zeros.simps [simp del]

definition decrypt_record13 ::
  "crypto \<Rightarrow> record_keys13 \<Rightarrow> u64 \<Rightarrow> bytes \<Rightarrow> bytes \<Rightarrow> tls13_error + (bytes \<times> u8)"
where
  "decrypt_record13 cr keys seq_num aad encrypted_record =
     (if length encrypted_record < 16 then Inl RecordTooShort
      else (case aead_open cr (rk_algorithm keys) (rk_key keys) (nonce_for13 keys seq_num) aad
                   encrypted_record of
              None \<Rightarrow> Inl Aead13
            | Some plain \<Rightarrow>
                (let inner = strip_zeros plain in
                 if inner = [] then Inl NoContentType
                 else Inr (butlast inner, last inner))))"

definition encrypt_record13 ::
  "crypto \<Rightarrow> record_keys13 \<Rightarrow> u64 \<Rightarrow> bytes \<Rightarrow> bytes \<Rightarrow> u8 \<Rightarrow> nat \<Rightarrow> bytes"
where
  "encrypt_record13 cr keys seq_num aad content content_type padding_len =
     aead_seal cr (rk_algorithm keys) (rk_key keys) (nonce_for13 keys seq_num) aad
       (content @ [content_type] @ replicate padding_len 0)"

definition record_aad :: "nat \<Rightarrow> bytes" where
  "record_aad ciphertext_len = [0x17, 0x03, 0x03] @ be_u16 (of_nat ciphertext_len)"

subsection \<open>Lemmas\<close>

text \<open>What an AEAD documents: opening what was sealed under the same key, nonce and associated data
  returns the message, and the sealed message is 16 bytes longer.\<close>

definition aead_inverts :: "crypto \<Rightarrow> bool" where
  "aead_inverts cr \<longleftrightarrow>
     (\<forall>alg k n a m. length k = key_len alg \<longrightarrow> length n = 12 \<longrightarrow>
        aead_open cr alg k n a (aead_seal cr alg k n a m) = Some m
        \<and> length (aead_seal cr alg k n a m) = length m + 16)"

definition keys13_ok :: "record_keys13 \<Rightarrow> bool" where
  "keys13_ok keys \<longleftrightarrow> length (rk_key keys) = key_len (rk_algorithm keys) \<and> length (rk_iv keys) = IV_LEN"

lemma derive13_ok: "derive13 cr s alg = Some keys \<Longrightarrow> keys13_ok keys \<and> rk_algorithm keys = alg"
  by (auto simp: derive13_def hkdf_expand_label_def keys13_ok_def split: if_splits)

lemma derive13_iff: "derive13 cr s alg = None \<longleftrightarrow> \<not> hkdf_from_prk cr (algorithm_hash alg) s"
  by (simp add: derive13_def hkdf_expand_label_def)

lemma length_xor_from [simp]: "length (xor_from i bs nonce) = length nonce"
  by (induction i bs nonce rule: xor_from.induct) auto

lemma xor_from_nth:
  "k < length nonce \<Longrightarrow> xor_from i bs nonce ! k =
     (if i \<le> k \<and> k < i + length bs then nonce ! k XOR bs ! (k - i) else nonce ! k)"
proof (induction i bs nonce rule: xor_from.induct)
  case (2 i b bs nonce)
  show ?case
  proof (cases "k = i")
    case False
    then have "k - i = Suc (k - Suc i) \<or> k < i" by auto
    with 2 False show ?thesis by (auto simp: nth_list_update)
  qed (use 2 in \<open>simp add: nth_list_update\<close>)
qed auto

lemma length_nonce_for13: "keys13_ok keys \<Longrightarrow> length (nonce_for13 keys seq) = 12"
  by (simp add: nonce_for13_def keys13_ok_def IV_LEN_def)

lemma strip_zeros_padding: "b \<noteq> 0 \<Longrightarrow> strip_zeros (xs @ b # replicate n 0) = xs @ [b]"
proof (induction n)
  case (Suc n)
  have "xs @ b # replicate (Suc n) 0 = (xs @ b # replicate n 0) @ [0]"
    by (simp add: replicate_append_same)
  then show ?case using Suc by (subst strip_zeros.simps) (simp add: butlast_append)
qed (simp add: strip_zeros.simps)

lemma strip_zeros_result: "strip_zeros xs = [] \<or> last (strip_zeros xs) \<noteq> 0"
proof (induction xs rule: strip_zeros.induct)
  case (1 xs)
  then show ?case by (cases "xs \<noteq> [] \<and> last xs = 0") (auto simp: strip_zeros.simps [of xs])
qed

lemma strip_zeros_split: "\<exists>n. xs = strip_zeros xs @ replicate n 0"
proof (induction xs rule: strip_zeros.induct)
  case (1 xs)
  show ?case
  proof (cases "xs \<noteq> [] \<and> last xs = 0")
    case True
    then obtain n where "butlast xs = strip_zeros (butlast xs) @ replicate n 0" using 1 by auto
    moreover have "strip_zeros xs = strip_zeros (butlast xs)" "xs = butlast xs @ [0]"
      using True append_butlast_last_id [of xs] by (auto simp: strip_zeros.simps [of xs])
    ultimately have "xs = strip_zeros xs @ replicate n 0 @ [0]" by (metis append_assoc)
    then have "xs = strip_zeros xs @ replicate (Suc n) 0" by (simp add: replicate_append_same)
    then show ?thesis ..
  next
    case False
    then show ?thesis by (intro exI [of _ 0]) (auto simp: strip_zeros.simps [of xs])
  qed
qed

lemma decrypt_record13_Inr:
  assumes "decrypt_record13 cr keys seq aad body = Inr (pt, ct)"
  shows "ct \<noteq> 0 \<and> 16 \<le> length body \<and> (\<exists>n.
    aead_open cr (rk_algorithm keys) (rk_key keys) (nonce_for13 keys seq) aad body
      = Some (pt @ ct # replicate n 0))"
proof -
  obtain plain where p: "16 \<le> length body" "strip_zeros plain \<noteq> []"
      "aead_open cr (rk_algorithm keys) (rk_key keys) (nonce_for13 keys seq) aad body = Some plain"
      "pt = butlast (strip_zeros plain)" "ct = last (strip_zeros plain)"
    using assms by (auto simp: decrypt_record13_def Let_def split: if_splits option.splits)
  obtain n where "plain = strip_zeros plain @ replicate n 0" using strip_zeros_split by blast
  then have "plain = pt @ ct # replicate n 0"
    using p append_butlast_last_id [OF p(2)] by (metis append_Cons append_Nil append_assoc)
  then show ?thesis using p strip_zeros_result [of plain] by auto
qed

subsection \<open>Properties\<close>

text \<open>
  Record round trip. A TLS 1.3 record sealed with keys derived from a traffic secret, with any
  sequence number, associated data, content, non-zero content type and amount of zero padding, is
  opened by \<open>decrypt_record\<close> to exactly that content and type.
\<close>

lemma tls13_record_round_trip:
  assumes "aead_inverts cr" and "derive13 cr secret alg = Some keys" and "content_type \<noteq> 0"
  shows "decrypt_record13 cr keys seq aad
      (encrypt_record13 cr keys seq aad content content_type padding_len) = Inr (content, content_type)"
proof -
  have k: "keys13_ok keys" using derive13_ok [OF assms(2)] by simp
  then have "length (rk_key keys) = key_len (rk_algorithm keys)" by (simp add: keys13_ok_def)
  then have inv: "aead_open cr (rk_algorithm keys) (rk_key keys) (nonce_for13 keys seq) aad
      (aead_seal cr (rk_algorithm keys) (rk_key keys) (nonce_for13 keys seq) aad m) = Some m"
    "length (aead_seal cr (rk_algorithm keys) (rk_key keys) (nonce_for13 keys seq) aad m) = length m + 16"
    for m
    using assms(1) length_nonce_for13 [OF k, of seq] by (simp_all add: aead_inverts_def)
  show ?thesis
    using strip_zeros_padding [OF assms(3), of content padding_len]
    by (simp add: decrypt_record13_def encrypt_record13_def inv Let_def)
qed

text \<open>
  C18 (nonces never repeat). For derived keys, the nonces of two records are equal only when their 64-bit
  sequence numbers are.
\<close>

theorem tls13_nonce_injective:
  assumes "derive13 cr secret alg = Some keys"
  shows "nonce_for13 keys v = nonce_for13 keys w \<longleftrightarrow> v = w"
proof
  have len: "length (rk_iv keys) = 12"
    using derive13_ok [OF assms] by (simp add: keys13_ok_def IV_LEN_def)
  assume eq: "nonce_for13 keys v = nonce_for13 keys w"
  have "be_u64 v ! i = be_u64 w ! i" if "i < 8" for i
  proof -
    have "xor_from 4 (be_u64 v) (rk_iv keys) ! (4 + i) = xor_from 4 (be_u64 w) (rk_iv keys) ! (4 + i)"
      using eq by (simp add: nonce_for13_def)
    then have "rk_iv keys ! (4 + i) XOR be_u64 v ! i = rk_iv keys ! (4 + i) XOR be_u64 w ! i"
      using that len by (simp add: xor_from_nth)
    then have "rk_iv keys ! (4 + i) XOR (rk_iv keys ! (4 + i) XOR be_u64 v ! i)
        = rk_iv keys ! (4 + i) XOR (rk_iv keys ! (4 + i) XOR be_u64 w ! i)" by simp
    then show ?thesis by (simp add: xor.assoc [symmetric])
  qed
  then have "be_u64 v = be_u64 w" by (intro nth_equalityI) simp_all
  then show "v = w" by (simp add: be_u64_inject)
qed simp

subsection \<open>A concrete instance\<close>

text \<open>
  A transparent cipher with a 16-byte tag that depends on key, nonce and associated data, to evaluate
  the model on.
\<close>

definition toy_tag :: "bytes \<Rightarrow> bytes \<Rightarrow> bytes \<Rightarrow> bytes" where
  "toy_tag k n a = fixed 16 [sum_list k, sum_list n, sum_list a, of_nat (length a)]"

definition toy_crypto :: crypto where
  "toy_crypto =
     \<lparr>hkdf_from_prk = (\<lambda>h s. (case h of HkdfSha256 \<Rightarrow> 32 | HkdfSha384 \<Rightarrow> 48) \<le> length s),
      hkdf_expand = (\<lambda>h s info n. take n (info @ s @ replicate n 0)),
      hmac = (\<lambda>h k m. [sum_list k, sum_list m]),
      aead_open = (\<lambda>alg k n a c.
        if 16 \<le> length c \<and> drop (length c - 16) c = toy_tag k n a then Some (take (length c - 16) c) else None),
      aead_seal = (\<lambda>alg k n a m. m @ toy_tag k n a)\<rparr>"

lemma toy_aead_inverts: "aead_inverts toy_crypto"
  by (simp add: aead_inverts_def toy_crypto_def toy_tag_def)

definition demo_keys :: record_keys13 where
  "demo_keys = the (derive13 toy_crypto (replicate 32 7) Aes128Gcm)"

lemma demo_keys: "derive13 toy_crypto (replicate 32 7) Aes128Gcm = Some demo_keys"
  by (simp add: demo_keys_def derive13_def hkdf_expand_label_def toy_crypto_def)

theorem tls13_record_round_trip_witness:
  "decrypt_record13 toy_crypto demo_keys 3 (record_aad 23)
      (encrypt_record13 toy_crypto demo_keys 3 (record_aad 23) [104, 105] 23 4) = Inr ([104, 105], 23)"
  by (rule tls13_record_round_trip [OF toy_aead_inverts demo_keys]) simp

theorem tls13_nonce_injective_witness: "nonce_for13 demo_keys 256 \<noteq> nonce_for13 demo_keys 1"
  by (simp add: tls13_nonce_injective [OF demo_keys])

end
