(* ===== verification/Tls12.thy ===== *)
theory Tls12
  imports Tls13
begin

text \<open>
  \<open>src/tls12.rs\<close>: the TLS 1.2 pseudo-random function, the key block, and the AES-GCM record transform. HMAC
  is the parameter of \<open>crypto\<close>; its output is an array of the hash's size, so every round of \<open>p_hash\<close> adds
  that many bytes and the loop ends.
\<close>

datatype tls12_error = Aead12

fun prf_hash_of :: "aead_algorithm \<Rightarrow> prf_hash" where
  "prf_hash_of Aes128Gcm = PrfSha256"
| "prf_hash_of Aes256Gcm = PrfSha384"
| "prf_hash_of ChaCha20Poly1305 = PrfSha256"

fun hash_len :: "prf_hash \<Rightarrow> nat" where
  "hash_len PrfSha256 = 32"
| "hash_len PrfSha384 = 48"

lemma hash_len_pos [simp]: "0 < hash_len h"
  by (cases h) simp_all

definition hmac_once :: "crypto \<Rightarrow> prf_hash \<Rightarrow> bytes \<Rightarrow> bytes \<Rightarrow> bytes" where
  "hmac_once cr h secret data = fixed (hash_len h) (hmac cr h secret data)"

lemma length_hmac_once [simp]: "length (hmac_once cr h secret data) = hash_len h"
  by (simp add: hmac_once_def)

function p_hash_loop :: "crypto \<Rightarrow> prf_hash \<Rightarrow> bytes \<Rightarrow> bytes \<Rightarrow> nat \<Rightarrow> bytes \<Rightarrow> bytes \<Rightarrow> bytes" where
  "p_hash_loop cr h secret seed out_len a result =
     (if length result < out_len
      then p_hash_loop cr h secret seed out_len (hmac_once cr h secret a)
             (result @ hmac_once cr h secret (a @ seed))
      else result)"
  by pat_completeness auto
termination
  by (relation "measure (\<lambda>(cr, h, secret, seed, out_len, a, result). out_len - length result)")
    (auto simp: diff_less_mono2)

declare p_hash_loop.simps [simp del]

definition p_hash :: "crypto \<Rightarrow> prf_hash \<Rightarrow> bytes \<Rightarrow> bytes \<Rightarrow> nat \<Rightarrow> bytes" where
  "p_hash cr h secret seed out_len =
     take out_len (p_hash_loop cr h secret seed out_len (hmac_once cr h secret seed) [])"

definition tls12_prf :: "crypto \<Rightarrow> bytes \<Rightarrow> bytes \<Rightarrow> nat \<Rightarrow> prf_hash \<Rightarrow> bytes" where
  "tls12_prf cr secret label_and_seed out_len h = p_hash cr h secret label_and_seed out_len"

record record_keys12 =
  rk12_algorithm :: aead_algorithm
  rk12_key :: bytes
  rk12_salt :: bytes

definition key_block :: "crypto \<Rightarrow> bytes \<Rightarrow> bytes \<Rightarrow> bytes \<Rightarrow> aead_algorithm \<Rightarrow> bytes" where
  "key_block cr master_secret client_random server_random algorithm =
     tls12_prf cr master_secret (str_bytes ''key expansion'' @ server_random @ client_random)
       (2 * key_len algorithm + 2 * 4) (prf_hash_of algorithm)"

definition derive12 ::
  "crypto \<Rightarrow> bytes \<Rightarrow> bytes \<Rightarrow> bytes \<Rightarrow> aead_algorithm \<Rightarrow> bool \<Rightarrow> record_keys12"
where
  "derive12 cr master_secret client_random server_random algorithm is_client =
     (let kl = key_len algorithm; salt_len = 4;
          kb = key_block cr master_secret client_random server_random algorithm;
          client_write_key = sub_range (0, kl) kb;
          server_write_key = sub_range (kl, 2 * kl) kb;
          client_write_iv = sub_range (2 * kl, 2 * kl + salt_len) kb;
          server_write_iv = sub_range (2 * kl + salt_len, 2 * kl + 2 * salt_len) kb;
          (key, salt) = (if is_client then (client_write_key, client_write_iv)
                         else (server_write_key, server_write_iv)) in
      \<lparr>rk12_algorithm = algorithm, rk12_key = key, rk12_salt = salt\<rparr>)"

definition nonce_for12 :: "record_keys12 \<Rightarrow> bytes \<Rightarrow> bytes" where
  "nonce_for12 keys explicit_nonce = rk12_salt keys @ explicit_nonce"

definition aad12 :: "u64 \<Rightarrow> u8 \<Rightarrow> u16 \<Rightarrow> bytes" where
  "aad12 seq_num content_type plaintext_len =
     be_u64 seq_num @ [content_type, 0x03, 0x03] @ be_u16 plaintext_len"

definition decrypt_record12 ::
  "crypto \<Rightarrow> record_keys12 \<Rightarrow> u64 \<Rightarrow> u8 \<Rightarrow> bytes \<Rightarrow> bytes \<Rightarrow> tls12_error + bytes"
where
  "decrypt_record12 cr keys seq_num content_type explicit_nonce ciphertext =
     (let nonce = nonce_for12 keys explicit_nonce;
          plaintext_len = of_nat (length ciphertext - 16);
          aad = aad12 seq_num content_type plaintext_len in
      case rk12_algorithm keys of
        ChaCha20Poly1305 \<Rightarrow> Inl Aead12
      | alg \<Rightarrow> (case aead_open cr alg (rk12_key keys) nonce aad ciphertext of
                   None \<Rightarrow> Inl Aead12 | Some plaintext \<Rightarrow> Inr plaintext))"

text \<open>\<open>None\<close> is the \<open>unreachable!\<close> of the test fixture.\<close>

definition encrypt_record12 ::
  "crypto \<Rightarrow> record_keys12 \<Rightarrow> u64 \<Rightarrow> u8 \<Rightarrow> bytes \<Rightarrow> bytes \<Rightarrow> bytes option"
where
  "encrypt_record12 cr keys seq_num content_type explicit_nonce plaintext =
     (let nonce = nonce_for12 keys explicit_nonce;
          aad = aad12 seq_num content_type (of_nat (length plaintext)) in
      case rk12_algorithm keys of
        ChaCha20Poly1305 \<Rightarrow> None
      | alg \<Rightarrow> Some (aead_seal cr alg (rk12_key keys) nonce aad plaintext))"

definition server_random_from_server_hello :: "bytes \<Rightarrow> bytes option" where
  "server_random_from_server_hello handshake_body =
     (if length handshake_body < 1 + 3 + 2 + 32 \<or> handshake_body ! 0 \<noteq> 0x02 then None
      else Some (sub_range (6, 38) handshake_body))"

subsection \<open>The reference: RFC 5246, section 5\<close>

text \<open>\<open>A(0) = seed\<close>, \<open>A(i) = HMAC(secret, A(i-1))\<close>, and the concatenation of \<open>HMAC(secret, A(i) + seed)\<close>.\<close>

fun rfc_A :: "crypto \<Rightarrow> prf_hash \<Rightarrow> bytes \<Rightarrow> bytes \<Rightarrow> nat \<Rightarrow> bytes" where
  "rfc_A cr h secret seed 0 = seed"
| "rfc_A cr h secret seed (Suc i) = hmac_once cr h secret (rfc_A cr h secret seed i)"

definition rfc_p_hash :: "crypto \<Rightarrow> prf_hash \<Rightarrow> bytes \<Rightarrow> bytes \<Rightarrow> nat \<Rightarrow> bytes" where
  "rfc_p_hash cr h secret seed rounds =
     concat (map (\<lambda>i. hmac_once cr h secret (rfc_A cr h secret seed i @ seed)) [1..<Suc rounds])"

lemma length_rfc_p_hash: "length (rfc_p_hash cr h secret seed n) = n * hash_len h"
  by (simp add: rfc_p_hash_def length_concat comp_def sum_list_triv)

lemma rfc_p_hash_Suc:
  "rfc_p_hash cr h secret seed (Suc n) =
     rfc_p_hash cr h secret seed n @ hmac_once cr h secret (rfc_A cr h secret seed (Suc n) @ seed)"
  by (simp add: rfc_p_hash_def)

lemma rfc_p_hash_prefix:
  "m \<le> length (rfc_p_hash cr h secret seed n) \<Longrightarrow> n \<le> k \<Longrightarrow>
   take m (rfc_p_hash cr h secret seed k) = take m (rfc_p_hash cr h secret seed n)"
proof (induction k)
  case (Suc k)
  show ?case
  proof (cases "n = Suc k")
    case False
    then have "take m (rfc_p_hash cr h secret seed k) = take m (rfc_p_hash cr h secret seed n)"
      using Suc by simp_all
    moreover have "n * hash_len h \<le> k * hash_len h"
      using Suc.prems(2) False by (intro mult_right_mono) simp_all
    then have "m \<le> length (rfc_p_hash cr h secret seed k)"
      using Suc.prems(1) unfolding length_rfc_p_hash by (rule order_trans [rotated])
    ultimately show ?thesis by (simp only: rfc_p_hash_Suc take_append) simp
  qed simp
qed simp

lemma p_hash_loop_rfc:
  "\<exists>k \<ge> n. p_hash_loop cr h secret seed out_len (rfc_A cr h secret seed (Suc n))
       (rfc_p_hash cr h secret seed n) = rfc_p_hash cr h secret seed k
     \<and> out_len \<le> length (rfc_p_hash cr h secret seed k)"
proof (induction "out_len - n * hash_len h" arbitrary: n rule: less_induct)
  case less
  let ?r = "rfc_p_hash cr h secret seed"
  show ?case
  proof (cases "length (?r n) < out_len")
    case True
    then have "out_len - Suc n * hash_len h < out_len - n * hash_len h"
      by (simp add: length_rfc_p_hash diff_less_mono2)
    from less [OF this] obtain k where "Suc n \<le> k"
      "p_hash_loop cr h secret seed out_len (rfc_A cr h secret seed (Suc (Suc n))) (?r (Suc n)) = ?r k"
      "out_len \<le> length (?r k)" by blast
    then show ?thesis
      using True by (subst p_hash_loop.simps) (auto simp: rfc_p_hash_Suc intro!: exI [of _ k])
  next
    case False
    then show ?thesis by (subst p_hash_loop.simps) auto
  qed
qed

lemma p_hash_rfc:
  assumes "out_len \<le> n * hash_len h"
  shows "p_hash cr h secret seed out_len = take out_len (rfc_p_hash cr h secret seed n)"
proof -
  have start: "rfc_p_hash cr h secret seed 0 = []" by (simp add: rfc_p_hash_def)
  obtain k where k: "p_hash_loop cr h secret seed out_len (hmac_once cr h secret seed) []
      = rfc_p_hash cr h secret seed k" "out_len \<le> length (rfc_p_hash cr h secret seed k)"
    using p_hash_loop_rfc [of 0 cr h secret seed out_len] start by auto
  show ?thesis
  proof (cases "k \<le> n")
    case True
    then show ?thesis using rfc_p_hash_prefix [OF k(2), of n] k(1) by (simp add: p_hash_def)
  next
    case False
    then show ?thesis
      using rfc_p_hash_prefix [of out_len cr h secret seed n k] assms k(1)
      by (simp add: p_hash_def length_rfc_p_hash)
  qed
qed

lemma length_p_hash [simp]: "length (p_hash cr h secret seed n) = n"
proof -
  have "n \<le> n * hash_len h" by (cases h) simp_all
  then show ?thesis using p_hash_rfc [of n n h cr secret seed] by (simp add: length_rfc_p_hash)
qed

definition keys12_ok :: "record_keys12 \<Rightarrow> bool" where
  "keys12_ok keys \<longleftrightarrow> length (rk12_key keys) = key_len (rk12_algorithm keys) \<and> length (rk12_salt keys) = 4"

lemma derive12_ok: "keys12_ok (derive12 cr ms c s alg is_client)"
  by (simp add: derive12_def Let_def keys12_ok_def key_block_def tls12_prf_def)

lemma derive12_algorithm [simp]: "rk12_algorithm (derive12 cr ms c s alg is_client) = alg"
  by (simp add: derive12_def Let_def)

lemma tls12_opens:
  assumes "aead_inverts cr" and "alg \<noteq> ChaCha20Poly1305" and "length explicit_nonce = 8"
  shows "\<exists>ciphertext.
    encrypt_record12 cr (derive12 cr ms c s alg is_client) seq ct explicit_nonce plaintext = Some ciphertext
    \<and> length ciphertext = length plaintext + 16
    \<and> decrypt_record12 cr (derive12 cr ms c s alg is_client) seq ct explicit_nonce ciphertext
        = Inr plaintext"
proof -
  let ?k = "derive12 cr ms c s alg is_client"
  have "length (rk12_key ?k) = key_len alg" "length (nonce_for12 ?k explicit_nonce) = 12"
    using derive12_ok [of cr ms c s alg is_client] assms(3) by (auto simp: keys12_ok_def nonce_for12_def)
  then have "aead_open cr alg (rk12_key ?k) (nonce_for12 ?k explicit_nonce) a
      (aead_seal cr alg (rk12_key ?k) (nonce_for12 ?k explicit_nonce) a m) = Some m
    \<and> length (aead_seal cr alg (rk12_key ?k) (nonce_for12 ?k explicit_nonce) a m) = length m + 16" for a m
    using assms(1) by (simp add: aead_inverts_def)
  then show ?thesis
    using assms(2) by (cases alg) (simp_all add: encrypt_record12_def decrypt_record12_def Let_def)
qed

subsection \<open>Properties\<close>

text \<open>
  C19 (the key block). The client's and the server's record keys are the four disjoint pieces, in RFC
  5246's order, of the first \<open>2 * key_len + 8\<close> bytes of the RFC's \<open>P_hash\<close> stream over \<open>"key expansion"\<close>, the
  server random and the client random, however many rounds of it are taken.
\<close>

theorem tls12_key_block_layout:
  assumes "2 * key_len alg + 8 \<le> n * hash_len (prf_hash_of alg)"
  shows "rk12_key (derive12 cr ms c s alg True) @ rk12_key (derive12 cr ms c s alg False)
      @ rk12_salt (derive12 cr ms c s alg True) @ rk12_salt (derive12 cr ms c s alg False)
    = take (2 * key_len alg + 8)
        (rfc_p_hash cr (prf_hash_of alg) ms (str_bytes ''key expansion'' @ s @ c) n)"
proof -
  let ?kb = "key_block cr ms c s alg"
  have len: "length ?kb = 2 * key_len alg + 8" by (simp add: key_block_def tls12_prf_def)
  have "take k ?kb @ take k (drop k ?kb) @ take 4 (drop (2 * k) ?kb) @ take 4 (drop (2 * k + 4) ?kb) = ?kb"
    if "length ?kb = 2 * k + 8" for k
  proof -
    have "take 4 (drop (2 * k + 4) ?kb) = drop (2 * k + 4) ?kb" using that by simp
    moreover have "take 4 (drop (2 * k) ?kb) @ drop (2 * k + 4) ?kb = drop (2 * k) ?kb"
      by (metis append_take_drop_id drop_drop add.commute)
    moreover have "take k (drop k ?kb) @ drop (2 * k) ?kb = drop k ?kb"
      by (metis append_take_drop_id drop_drop mult_2)
    ultimately show ?thesis by simp
  qed
  from this [OF len] show ?thesis
    using p_hash_rfc [OF assms, of cr ms "str_bytes ''key expansion'' @ s @ c"]
    by (simp add: derive12_def Let_def sub_range_def key_block_def tls12_prf_def add.commute)
qed

text \<open>
  C20 (record round trip). A TLS 1.2 AES-GCM record sealed with derived keys under an 8-byte explicit nonce
  opens to its plaintext.
\<close>

theorem tls12_record_round_trip:
  assumes "aead_inverts cr" and "alg \<noteq> ChaCha20Poly1305" and "length explicit_nonce = 8"
  shows "\<exists>ciphertext.
    encrypt_record12 cr (derive12 cr ms c s alg is_client) seq ct explicit_nonce plaintext = Some ciphertext
    \<and> length ciphertext = length plaintext + 16
    \<and> decrypt_record12 cr (derive12 cr ms c s alg is_client) seq ct explicit_nonce ciphertext
        = Inr plaintext"
  using assms by (rule tls12_opens)

theorem tls12_key_block_layout_witness:
  "rk12_key (derive12 toy_crypto [1] [2] [3] Aes128Gcm True) @ rk12_key (derive12 toy_crypto [1] [2] [3] Aes128Gcm False)
      @ rk12_salt (derive12 toy_crypto [1] [2] [3] Aes128Gcm True) @ rk12_salt (derive12 toy_crypto [1] [2] [3] Aes128Gcm False)
    = take 40 (rfc_p_hash toy_crypto PrfSha256 [1] (str_bytes ''key expansion'' @ [3] @ [2]) 2)"
  using tls12_key_block_layout [of Aes128Gcm 2 toy_crypto "[1]" "[2]" "[3]"] by simp

theorem tls12_record_round_trip_witness:
  "\<exists>ciphertext. encrypt_record12 toy_crypto (derive12 toy_crypto [1] [2] [3] Aes256Gcm True) 5 23
      [1, 2, 3, 4, 5, 6, 7, 8] [104, 105] = Some ciphertext
    \<and> length ciphertext = length [104, 105 :: u8] + 16
    \<and> decrypt_record12 toy_crypto (derive12 toy_crypto [1] [2] [3] Aes256Gcm True) 5 23
        [1, 2, 3, 4, 5, 6, 7, 8] ciphertext = Inr [104, 105]"
  by (rule tls12_record_round_trip [OF toy_aead_inverts]) simp_all

end
