(* ===== verification/Connection.thy ===== *)
theory Connection
  imports Tls12 Keylog
begin

text \<open>
  \<open>src/connection.rs\<close>: the decryption state of one connection. Per direction it keeps the record sequence
  numbers and the record keys already derived, by algorithm; \<open>decrypt\<close> tries every TLS 1.3 generation and
  algorithm in turn, then TLS 1.2. A \<open>HashMap\<close> cache is a map. \<open>[u8; 32]\<close> values are lists of length 32,
  which \<open>try_from\<close> checks.
\<close>

definition ALL_ALGORITHMS :: "aead_algorithm list" where
  "ALL_ALGORITHMS = [Aes128Gcm, Aes256Gcm, ChaCha20Poly1305]"

definition TLS12_ALGORITHMS :: "aead_algorithm list" where
  "TLS12_ALGORITHMS = [Aes128Gcm, Aes256Gcm]"

datatype generation = Handshake | Application

datatype record_version = Tls13Version generation | Tls12Version bytes

record direction_state =
  seq_handshake :: u64
  seq_application :: u64
  keys_handshake :: "aead_algorithm \<rightharpoonup> record_keys13"
  keys_application :: "aead_algorithm \<rightharpoonup> record_keys13"

definition default_direction :: direction_state where
  "default_direction =
     \<lparr>seq_handshake = 0, seq_application = 0, keys_handshake = Map.empty, keys_application = Map.empty\<rparr>"

fun secret_label_for :: "generation \<Rightarrow> bool \<Rightarrow> secret_label" where
  "secret_label_for Handshake True = ClientHandshakeTrafficSecret"
| "secret_label_for Handshake False = ServerHandshakeTrafficSecret"
| "secret_label_for Application True = ClientTrafficSecret0"
| "secret_label_for Application False = ServerTrafficSecret0"

fun key_cache :: "generation \<Rightarrow> direction_state \<Rightarrow> aead_algorithm \<rightharpoonup> record_keys13" where
  "key_cache Handshake dir = keys_handshake dir"
| "key_cache Application dir = keys_application dir"

fun cache_key :: "generation \<Rightarrow> aead_algorithm \<Rightarrow> record_keys13 \<Rightarrow> direction_state \<Rightarrow> direction_state" where
  "cache_key Handshake alg k dir = dir\<lparr>keys_handshake := (keys_handshake dir)(alg \<mapsto> k)\<rparr>"
| "cache_key Application alg k dir = dir\<lparr>keys_application := (keys_application dir)(alg \<mapsto> k)\<rparr>"

definition keys_for13 ::
  "crypto \<Rightarrow> generation \<Rightarrow> bytes \<Rightarrow> keylog \<Rightarrow> bool \<Rightarrow> aead_algorithm \<Rightarrow> direction_state
     \<Rightarrow> record_keys13 option \<times> direction_state"
where
  "keys_for13 cr g client_random kl is_client algorithm dir =
     (case secret_for kl client_random (secret_label_for g is_client) of
        None \<Rightarrow> (None, dir)
      | Some secret \<Rightarrow>
          (case key_cache g dir algorithm of
             Some k \<Rightarrow> (Some k, dir)
           | None \<Rightarrow>
               (case derive13 cr secret algorithm of
                  None \<Rightarrow> (None, dir)
                | Some k \<Rightarrow> (Some k, cache_key g algorithm k dir))))"

fun seq_of :: "generation \<Rightarrow> direction_state \<Rightarrow> u64" where
  "seq_of Handshake dir = seq_handshake dir"
| "seq_of Application dir = seq_application dir"

fun next_seq13 :: "generation \<Rightarrow> direction_state \<Rightarrow> direction_state" where
  "next_seq13 Handshake dir = dir\<lparr>seq_handshake := seq_handshake dir + 1\<rparr>"
| "next_seq13 Application dir = dir\<lparr>seq_application := seq_application dir + 1\<rparr>"

record tls12_direction_state =
  seq12 :: u64
  keys12 :: "aead_algorithm \<rightharpoonup> record_keys12"

definition default_direction12 :: tls12_direction_state where
  "default_direction12 = \<lparr>seq12 = 0, keys12 = Map.empty\<rparr>"

definition keys_for12 ::
  "crypto \<Rightarrow> bytes \<Rightarrow> bytes \<Rightarrow> bytes \<Rightarrow> bool \<Rightarrow> aead_algorithm \<Rightarrow> tls12_direction_state
     \<Rightarrow> record_keys12 \<times> tls12_direction_state"
where
  "keys_for12 cr master_secret client_random server_random is_client algorithm dir =
     (case keys12 dir algorithm of
        Some k \<Rightarrow> (k, dir)
      | None \<Rightarrow>
          let k = derive12 cr master_secret client_random server_random algorithm is_client in
          (k, dir\<lparr>keys12 := (keys12 dir)(algorithm \<mapsto> k)\<rparr>))"

definition next_seq12 :: "tls12_direction_state \<Rightarrow> tls12_direction_state" where
  "next_seq12 dir = dir\<lparr>seq12 := seq12 dir + 1\<rparr>"

record connection_state =
  client_random :: bytes
  server_random :: "bytes option"
  client_to_server :: direction_state
  server_to_client :: direction_state
  tls12_client_to_server :: tls12_direction_state
  tls12_server_to_client :: tls12_direction_state

datatype process_error = NoKey | AuthFailed

record decrypted_record =
  dr_plaintext :: bytes
  dr_content_type :: u8
  dr_algorithm :: aead_algorithm
  dr_version :: record_version

definition new_connection :: "bytes \<Rightarrow> connection_state" where
  "new_connection random =
     \<lparr>client_random = random, server_random = None,
      client_to_server = default_direction, server_to_client = default_direction,
      tls12_client_to_server = default_direction12, tls12_server_to_client = default_direction12\<rparr>"

definition set_server_random :: "bytes \<Rightarrow> connection_state \<Rightarrow> bool \<times> connection_state" where
  "set_server_random random cs =
     (server_random cs = None,
      if server_random cs = None then cs\<lparr>server_random := Some random\<rparr> else cs)"

definition direction13 :: "bool \<Rightarrow> connection_state \<Rightarrow> direction_state" where
  "direction13 c2s cs = (if c2s then client_to_server cs else server_to_client cs)"

definition set_direction13 :: "bool \<Rightarrow> direction_state \<Rightarrow> connection_state \<Rightarrow> connection_state" where
  "set_direction13 c2s dir cs =
     (if c2s then cs\<lparr>client_to_server := dir\<rparr> else cs\<lparr>server_to_client := dir\<rparr>)"

definition direction12 :: "bool \<Rightarrow> connection_state \<Rightarrow> tls12_direction_state" where
  "direction12 c2s cs = (if c2s then tls12_client_to_server cs else tls12_server_to_client cs)"

definition set_direction12 :: "bool \<Rightarrow> tls12_direction_state \<Rightarrow> connection_state \<Rightarrow> connection_state" where
  "set_direction12 c2s dir cs =
     (if c2s then cs\<lparr>tls12_client_to_server := dir\<rparr> else cs\<lparr>tls12_server_to_client := dir\<rparr>)"

text \<open>
  The inner loop of \<open>decrypt_tls13\<close>, over the algorithms of one generation. \<open>Some\<close> is a \<open>return\<close>; \<open>None\<close> falls
  through to the next generation.
\<close>

fun try_algorithms13 ::
  "crypto \<Rightarrow> keylog \<Rightarrow> bytes \<Rightarrow> bool \<Rightarrow> bytes \<Rightarrow> bytes \<Rightarrow> generation \<Rightarrow> u64 \<Rightarrow> aead_algorithm list
     \<Rightarrow> direction_state \<Rightarrow> (process_error + decrypted_record) option \<times> direction_state"
where
  "try_algorithms13 cr kl random is_client aad body g seq [] dir = (None, dir)"
| "try_algorithms13 cr kl random is_client aad body g seq (alg # algs) dir =
     (case keys_for13 cr g random kl is_client alg dir of
        (None, dir1) \<Rightarrow> try_algorithms13 cr kl random is_client aad body g seq algs dir1
      | (Some keys, dir1) \<Rightarrow>
          (case decrypt_record13 cr keys seq aad body of
             Inr (plaintext, content_type) \<Rightarrow>
               (Some (Inr \<lparr>dr_plaintext = plaintext, dr_content_type = content_type,
                           dr_algorithm = alg, dr_version = Tls13Version g\<rparr>),
                next_seq13 g dir1)
           | Inl RecordTooShort \<Rightarrow> (Some (Inl AuthFailed), dir1)
           | Inl _ \<Rightarrow> try_algorithms13 cr kl random is_client aad body g seq algs dir1))"

fun try_generations13 ::
  "crypto \<Rightarrow> keylog \<Rightarrow> bytes \<Rightarrow> bool \<Rightarrow> bytes \<Rightarrow> bytes \<Rightarrow> generation list
     \<Rightarrow> direction_state \<Rightarrow> (process_error + decrypted_record) \<times> direction_state"
where
  "try_generations13 cr kl random is_client aad body [] dir = (Inl NoKey, dir)"
| "try_generations13 cr kl random is_client aad body (g # gs) dir =
     (case try_algorithms13 cr kl random is_client aad body g (seq_of g dir) ALL_ALGORITHMS dir of
        (Some res, dir1) \<Rightarrow> (res, dir1)
      | (None, dir1) \<Rightarrow> try_generations13 cr kl random is_client aad body gs dir1)"

definition decrypt_tls13 ::
  "crypto \<Rightarrow> keylog \<Rightarrow> bool \<Rightarrow> bytes \<Rightarrow> connection_state
     \<Rightarrow> (process_error + decrypted_record) \<times> connection_state"
where
  "decrypt_tls13 cr kl c2s body cs =
     (let (res, dir) = try_generations13 cr kl (client_random cs) c2s (record_aad (length body)) body
                         [Handshake, Application] (direction13 c2s cs) in
      (res, set_direction13 c2s dir cs))"

fun try_algorithms12 ::
  "crypto \<Rightarrow> bytes \<Rightarrow> bytes \<Rightarrow> bytes \<Rightarrow> bool \<Rightarrow> u8 \<Rightarrow> bytes \<Rightarrow> bytes \<Rightarrow> u64 \<Rightarrow> aead_algorithm list
     \<Rightarrow> tls12_direction_state \<Rightarrow> (process_error + decrypted_record) \<times> tls12_direction_state"
where
  "try_algorithms12 cr ms random sr c2s ct nonce ciphertext seq [] dir = (Inl NoKey, dir)"
| "try_algorithms12 cr ms random sr c2s ct nonce ciphertext seq (alg # algs) dir =
     (let (keys, dir1) = keys_for12 cr ms random sr c2s alg dir in
      case decrypt_record12 cr keys seq ct nonce ciphertext of
        Inr plaintext \<Rightarrow>
          (Inr \<lparr>dr_plaintext = plaintext, dr_content_type = ct, dr_algorithm = alg,
                dr_version = Tls12Version nonce\<rparr>,
           next_seq12 dir1)
      | Inl _ \<Rightarrow> try_algorithms12 cr ms random sr c2s ct nonce ciphertext seq algs dir1)"

definition decrypt_tls12 ::
  "crypto \<Rightarrow> keylog \<Rightarrow> bool \<Rightarrow> u8 \<Rightarrow> bytes \<Rightarrow> connection_state
     \<Rightarrow> (process_error + decrypted_record) \<times> connection_state"
where
  "decrypt_tls12 cr kl c2s content_type body cs =
     (case server_random cs of
        None \<Rightarrow> (Inl NoKey, cs)
      | Some sr \<Rightarrow>
          if length (client_random cs) \<noteq> 32 then (Inl NoKey, cs)
          else (case secret_for kl (client_random cs) ClientRandom of
                  None \<Rightarrow> (Inl NoKey, cs)
                | Some ms \<Rightarrow>
                    if length body < 8 + 16 then (Inl AuthFailed, cs)
                    else
                      (let dir0 = direction12 c2s cs;
                           (res, dir) = try_algorithms12 cr ms (client_random cs) sr c2s content_type
                             (take 8 body) (drop 8 body) (seq12 dir0) TLS12_ALGORITHMS dir0 in
                       (res, set_direction12 c2s dir cs))))"

definition decrypt ::
  "crypto \<Rightarrow> keylog \<Rightarrow> bool \<Rightarrow> u8 \<Rightarrow> bytes \<Rightarrow> connection_state
     \<Rightarrow> (process_error + decrypted_record) \<times> connection_state"
where
  "decrypt cr kl c2s outer_content_type body cs =
     (case decrypt_tls13 cr kl c2s body cs of
        (Inr record, cs1) \<Rightarrow> (Inr record, cs1)
      | (Inl _, cs1) \<Rightarrow> decrypt_tls12 cr kl c2s outer_content_type body cs1)"

definition client_random_from_client_hello :: "bytes \<Rightarrow> bytes option" where
  "client_random_from_client_hello handshake_body =
     (if length handshake_body < 1 + 3 + 2 + 32 \<or> handshake_body ! 0 \<noteq> 0x01 then None
      else Some (sub_range (6, 38) handshake_body))"

end
