(* ===== verification/Connection_Correct.thy ===== *)
theory Connection_Correct
  imports Connection
begin

text \<open>
  Correctness of the decryption state: the sequence counters move exactly with successful decryptions, the
  key caches never change what a rc decrypts to while the secrets stay what they were, and what the
  error results mean.
\<close>

subsection \<open>The reference: no caches, no state\<close>

fun first_success :: "('a \<Rightarrow> 'b option) \<Rightarrow> 'a list \<Rightarrow> 'b option" where
  "first_success f [] = None"
| "first_success f (x # xs) = (case f x of Some y \<Rightarrow> Some y | None \<Rightarrow> first_success f xs)"

definition attempt13 ::
  "crypto \<Rightarrow> keylog \<Rightarrow> bytes \<Rightarrow> bool \<Rightarrow> (generation \<Rightarrow> u64) \<Rightarrow> bytes \<Rightarrow> generation \<times> aead_algorithm
     \<Rightarrow> decrypted_record option"
where
  "attempt13 cr kl random is_client seqs body ga =
     (case ga of (g, alg) \<Rightarrow>
        (case secret_for kl random (secret_label_for g is_client) of
           None \<Rightarrow> None
         | Some secret \<Rightarrow>
             (case derive13 cr secret alg of
                None \<Rightarrow> None
              | Some keys \<Rightarrow>
                  (case decrypt_record13 cr keys (seqs g) (record_aad (length body)) body of
                     Inl _ \<Rightarrow> None
                   | Inr (plaintext, ct) \<Rightarrow>
                       Some \<lparr>dr_plaintext = plaintext, dr_content_type = ct, dr_algorithm = alg,
                             dr_version = Tls13Version g\<rparr>))))"

definition attempt12 ::
  "crypto \<Rightarrow> bytes \<Rightarrow> bytes \<Rightarrow> bytes \<Rightarrow> bool \<Rightarrow> u64 \<Rightarrow> u8 \<Rightarrow> bytes \<Rightarrow> aead_algorithm
     \<Rightarrow> decrypted_record option"
where
  "attempt12 cr ms random sr is_client seq ct body alg =
     (case decrypt_record12 cr (derive12 cr ms random sr alg is_client) seq ct (take 8 body) (drop 8 body) of
        Inl _ \<Rightarrow> None
      | Inr plaintext \<Rightarrow>
          Some \<lparr>dr_plaintext = plaintext, dr_content_type = ct, dr_algorithm = alg,
                dr_version = Tls12Version (take 8 body)\<rparr>)"

definition reference_decrypt ::
  "crypto \<Rightarrow> keylog \<Rightarrow> bytes \<Rightarrow> bytes option \<Rightarrow> bool \<Rightarrow> (generation \<Rightarrow> u64) \<Rightarrow> u64 \<Rightarrow> u8 \<Rightarrow> bytes
     \<Rightarrow> process_error + decrypted_record"
where
  "reference_decrypt cr kl random server_rnd is_client seqs seq ct body =
     (case first_success (attempt13 cr kl random is_client seqs body)
             (List.product [Handshake, Application] ALL_ALGORITHMS) of
        Some rc \<Rightarrow> Inr rc
      | None \<Rightarrow>
          (case (server_rnd, secret_for kl random ClientRandom) of
             (Some sr, Some ms) \<Rightarrow>
               if length random \<noteq> 32 then Inl NoKey
               else if length body < 24 then Inl AuthFailed
               else (case first_success (attempt12 cr ms random sr is_client seq ct body) TLS12_ALGORITHMS of
                       Some rc \<Rightarrow> Inr rc
                     | None \<Rightarrow> Inl NoKey)
           | _ \<Rightarrow> Inl NoKey))"

subsection \<open>Cache coherence\<close>

definition coherent13 :: "crypto \<Rightarrow> keylog \<Rightarrow> bytes \<Rightarrow> bool \<Rightarrow> direction_state \<Rightarrow> bool" where
  "coherent13 cr kl random is_client dir \<longleftrightarrow>
     (\<forall>g alg keys. key_cache g dir alg = Some keys \<longrightarrow>
        (\<exists>secret. secret_for kl random (secret_label_for g is_client) = Some secret
           \<and> derive13 cr secret alg = Some keys))"

definition coherent12 :: "crypto \<Rightarrow> keylog \<Rightarrow> bytes \<Rightarrow> bytes option \<Rightarrow> bool \<Rightarrow> tls12_direction_state \<Rightarrow> bool" where
  "coherent12 cr kl random server_rnd is_client dir \<longleftrightarrow>
     (\<forall>alg keys. keys12 dir alg = Some keys \<longrightarrow>
        (\<exists>ms sr. secret_for kl random ClientRandom = Some ms \<and> server_rnd = Some sr
           \<and> keys = derive12 cr ms random sr alg is_client))"

definition coherent :: "crypto \<Rightarrow> keylog \<Rightarrow> connection_state \<Rightarrow> bool" where
  "coherent cr kl cs \<longleftrightarrow>
     (\<forall>c2s. coherent13 cr kl (client_random cs) c2s (direction13 c2s cs)
        \<and> coherent12 cr kl (client_random cs) (server_random cs) c2s (direction12 c2s cs))"

lemma cache_key_simps [simp]:
  "key_cache g (cache_key g' alg k dir) =
     (if g = g' then (key_cache g dir)(alg \<mapsto> k) else key_cache g dir)"
  "seq_of g (cache_key g' alg k dir) = seq_of g dir"
  by (cases g; cases g'; simp)+

lemma next_seq13_simps [simp]:
  "key_cache g (next_seq13 g' dir) = key_cache g dir"
  "seq_of g (next_seq13 g' dir) = seq_of g dir + (if g = g' then 1 else 0)"
  by (cases g; cases g'; simp)+

lemma keys_for13_coherent:
  assumes "coherent13 cr kl random c2s dir" and "keys_for13 cr g random kl c2s alg dir = (res, dir')"
  shows "coherent13 cr kl random c2s dir' \<and>
    res = (case secret_for kl random (secret_label_for g c2s) of
             None \<Rightarrow> None | Some secret \<Rightarrow> derive13 cr secret alg)"
proof (cases "secret_for kl random (secret_label_for g c2s)")
  case None
  then show ?thesis using assms by (simp add: keys_for13_def)
next
  case (Some secret)
  show ?thesis
  proof (cases "key_cache g dir alg")
    case None
    then show ?thesis
      using assms Some
      by (cases "derive13 cr secret alg")
        (fastforce simp: keys_for13_def coherent13_def split: if_splits)+
  next
    case (Some k)
    then have "derive13 cr secret alg = Some k"
      using assms(1) \<open>secret_for kl random (secret_label_for g c2s) = Some secret\<close>
      by (fastforce simp: coherent13_def)
    then show ?thesis
      using assms Some \<open>secret_for kl random (secret_label_for g c2s) = Some secret\<close>
      by (simp add: keys_for13_def)
  qed
qed

lemma keys_for13_seq: "keys_for13 cr g random kl c2s alg dir = (res, dir') \<Longrightarrow> seq_of g' dir' = seq_of g' dir"
  by (auto simp: keys_for13_def split: option.splits)

lemma decrypt_record13_short: "length body < 16 \<Longrightarrow> decrypt_record13 cr keys seq aad body = Inl RecordTooShort"
  by (simp add: decrypt_record13_def)

lemma decrypt_record13_not_short:
  "decrypt_record13 cr keys seq aad body = Inl RecordTooShort \<Longrightarrow> length body < 16"
  by (auto simp: decrypt_record13_def Let_def split: if_splits option.splits)

lemma next_seq13_coherent: "coherent13 cr kl random c2s (next_seq13 g dir) = coherent13 cr kl random c2s dir"
  by (simp add: coherent13_def)

subsection \<open>Counters\<close>

text \<open>The counters of a direction after trying the algorithms of one generation.\<close>

lemma try_algorithms13_seq:
  assumes "try_algorithms13 cr kl random c2s aad body g seq algs dir = (res, dir')"
  shows "(\<forall>rc. res = Some (Inr rc) \<longrightarrow> dr_version rc = Tls13Version g \<and>
        (\<forall>g'. seq_of g' dir' = seq_of g' dir + (if g' = g then 1 else 0)))
    \<and> ((\<forall>rc. res \<noteq> Some (Inr rc)) \<longrightarrow> (\<forall>g'. seq_of g' dir' = seq_of g' dir))"
  using assms
proof (induction algs arbitrary: dir)
  case (Cons alg algs)
  obtain k dir1 where k: "keys_for13 cr g random kl c2s alg dir = (k, dir1)"
    by (cases "keys_for13 cr g random kl c2s alg dir")
  have same: "seq_of g' dir1 = seq_of g' dir" for g' using keys_for13_seq [OF k] .
  show ?case
  proof (cases k)
    case None
    then show ?thesis using Cons.IH [of dir1] Cons.prems k same by simp
  next
    case (Some keys)
    show ?thesis
    proof (cases "decrypt_record13 cr keys seq aad body")
      case (Inl e)
      then show ?thesis using Cons.IH [of dir1] Cons.prems k Some same by (cases e) auto
    next
      case (Inr pc)
      then show ?thesis using Cons.prems k Some same by (cases pc) auto
    qed
  qed
qed auto

lemma try_generations13_seq:
  assumes "try_generations13 cr kl random c2s aad body gs dir = (res, dir')"
  shows "(\<forall>rc. res = Inr rc \<longrightarrow> (\<exists>g. dr_version rc = Tls13Version g \<and>
        (\<forall>g'. seq_of g' dir' = seq_of g' dir + (if g' = g then 1 else 0))))
    \<and> (\<forall>e. res = Inl e \<longrightarrow> (\<forall>g'. seq_of g' dir' = seq_of g' dir))"
  using assms
proof (induction gs arbitrary: dir)
  case (Cons g gs)
  obtain r dir1 where t:
    "try_algorithms13 cr kl random c2s aad body g (seq_of g dir) ALL_ALGORITHMS dir = (r, dir1)"
    by (cases "try_algorithms13 cr kl random c2s aad body g (seq_of g dir) ALL_ALGORITHMS dir")
  note s = try_algorithms13_seq [OF t]
  show ?case
  proof (cases r)
    case None
    then show ?thesis using Cons.IH [of dir1] Cons.prems t s by simp
  next
    case (Some x)
    then show ?thesis using Cons.prems t s by (cases x) auto
  qed
qed auto

lemma keys_for12_seq: "keys_for12 cr ms random sr c2s alg dir = (k, dir') \<Longrightarrow> seq12 dir' = seq12 dir"
  by (auto simp: keys_for12_def Let_def split: option.splits)

lemma try_algorithms12_seq:
  assumes "try_algorithms12 cr ms random sr c2s ct nonce body seq algs dir = (res, dir')"
  shows "(\<forall>rc. res = Inr rc \<longrightarrow> dr_version rc = Tls12Version nonce \<and> seq12 dir' = seq12 dir + 1)
    \<and> (\<forall>e. res = Inl e \<longrightarrow> e = NoKey \<and> seq12 dir' = seq12 dir)"
  using assms
proof (induction algs arbitrary: dir)
  case (Cons alg algs)
  obtain k dir1 where k: "keys_for12 cr ms random sr c2s alg dir = (k, dir1)"
    by (cases "keys_for12 cr ms random sr c2s alg dir")
  show ?case
    using Cons.IH [of dir1] Cons.prems k keys_for12_seq [OF k]
    by (cases "decrypt_record12 cr k seq ct nonce body") (auto simp: next_seq12_def)
qed auto

subsection \<open>Agreement with the reference\<close>

lemma try_algorithms13_reference:
  assumes "coherent13 cr kl random c2s dir"
    and "try_algorithms13 cr kl random c2s (record_aad (length body)) body g (seqs g) algs dir = (res, dir')"
  shows "coherent13 cr kl random c2s dir' \<and>
    (\<forall>rc. res = Some (Inr rc) \<longrightarrow>
       first_success (attempt13 cr kl random c2s seqs body) (map (Pair g) algs) = Some rc) \<and>
    (\<forall>e. res = Some (Inl e) \<longrightarrow> length body < 16) \<and>
    (res = None \<longrightarrow>
       first_success (attempt13 cr kl random c2s seqs body) (map (Pair g) algs) = None)"
  using assms
proof (induction algs arbitrary: dir)
  case (Cons alg algs)
  obtain k dir1 where k: "keys_for13 cr g random kl c2s alg dir = (k, dir1)"
    by (cases "keys_for13 cr g random kl c2s alg dir")
  note coh = keys_for13_coherent [OF Cons.prems(1) k]
  show ?case
  proof (cases k)
    case None
    then have "attempt13 cr kl random c2s seqs body (g, alg) = None"
      using coh by (auto simp: attempt13_def split: option.splits)
    then show ?thesis using Cons.IH [of dir1] Cons.prems(2) k None coh by simp
  next
    case (Some keys)
    then obtain secret where s: "secret_for kl random (secret_label_for g c2s) = Some secret"
        "derive13 cr secret alg = Some keys"
      using coh by (auto split: option.splits)
    show ?thesis
    proof (cases "decrypt_record13 cr keys (seqs g) (record_aad (length body)) body")
      case (Inl e)
      then have "attempt13 cr kl random c2s seqs body (g, alg) = None" using s by (simp add: attempt13_def)
      then show ?thesis
        using Cons.IH [of dir1] Cons.prems(2) k Some coh Inl
          decrypt_record13_not_short [of cr keys "seqs g"]
        by (cases e) auto
    next
      case (Inr pc)
      then show ?thesis
        using Cons.prems(2) k Some coh s by (cases pc) (auto simp: attempt13_def next_seq13_coherent)
    qed
  qed
qed auto

lemma first_success_append:
  "first_success f (xs @ ys) = (case first_success f xs of Some y \<Rightarrow> Some y | None \<Rightarrow> first_success f ys)"
  by (induction xs) (auto split: option.splits)

lemma attempt13_short: "length body < 16 \<Longrightarrow> attempt13 cr kl random c2s seqs body ga = None"
  by (auto simp: attempt13_def decrypt_record13_short split: option.splits prod.splits)

lemma first_success_None: "(\<And>x. f x = None) \<Longrightarrow> first_success f xs = None"
  by (induction xs) simp_all

lemma try_generations13_reference:
  assumes "coherent13 cr kl random c2s dir" and "\<forall>g. seq_of g dir = seqs g"
    and "try_generations13 cr kl random c2s (record_aad (length body)) body gs dir = (res, dir')"
  shows "coherent13 cr kl random c2s dir' \<and>
    first_success (attempt13 cr kl random c2s seqs body) (List.product gs ALL_ALGORITHMS)
      = (case res of Inr rc \<Rightarrow> Some rc | Inl _ \<Rightarrow> None)"
  using assms
proof (induction gs arbitrary: dir)
  case (Cons g gs)
  obtain r dir1 where t: "try_algorithms13 cr kl random c2s (record_aad (length body)) body g (seqs g)
      ALL_ALGORITHMS dir = (r, dir1)"
    by (cases "try_algorithms13 cr kl random c2s (record_aad (length body)) body g (seqs g)
      ALL_ALGORITHMS dir")
  note ref = try_algorithms13_reference [where seqs = seqs, OF Cons.prems(1) t]
  note seq = try_algorithms13_seq [OF t]
  show ?case
  proof (cases r)
    case None
    then have "\<forall>g. seq_of g dir1 = seqs g" using seq Cons.prems(2) by simp
    then show ?thesis
      using Cons.IH [of dir1] Cons.prems(2,3) t ref None by (simp add: first_success_append)
  next
    case (Some x)
    show ?thesis
    proof (cases x)
      case (Inl e)
      then have "length body < 16" using ref Some by simp
      then show ?thesis
        using Cons.prems(2,3) t ref Some Inl by (auto simp: attempt13_short first_success_None)
    next
      case (Inr rc)
      then show ?thesis
        using Cons.prems(2,3) t ref Some by (auto simp: first_success_append)
    qed
  qed
qed auto

lemma keys_for12_coherent:
  assumes "coherent12 cr kl random (Some sr) c2s dir" and "secret_for kl random ClientRandom = Some ms"
    and "keys_for12 cr ms random sr c2s alg dir = (k, dir')"
  shows "coherent12 cr kl random (Some sr) c2s dir' \<and> k = derive12 cr ms random sr alg c2s"
  using assms by (fastforce simp: keys_for12_def coherent12_def Let_def split: option.splits if_splits)

lemma try_algorithms12_reference:
  assumes "coherent12 cr kl random (Some sr) c2s dir" and "secret_for kl random ClientRandom = Some ms"
    and "try_algorithms12 cr ms random sr c2s ct (take 8 body) (drop 8 body) seq algs dir = (res, dir')"
  shows "coherent12 cr kl random (Some sr) c2s dir' \<and>
    first_success (attempt12 cr ms random sr c2s seq ct body) algs
      = (case res of Inr rc \<Rightarrow> Some rc | Inl _ \<Rightarrow> None)"
  using assms(1,3)
proof (induction algs arbitrary: dir)
  case (Cons alg algs)
  obtain k dir1 where k: "keys_for12 cr ms random sr c2s alg dir = (k, dir1)"
    by (cases "keys_for12 cr ms random sr c2s alg dir")
  note coh = keys_for12_coherent [OF Cons.prems(1) assms(2) k]
  show ?case
    using Cons k coh
    by (cases "decrypt_record12 cr k seq ct (take 8 body) (drop 8 body)")
      (auto simp: attempt12_def next_seq12_def coherent12_def)
qed auto

lemma direction_simps [simp]:
  "direction13 c (set_direction13 c dir cs) = dir"
  "c \<noteq> c' \<Longrightarrow> direction13 c (set_direction13 c' dir cs) = direction13 c cs"
  "direction12 c (set_direction13 c' dir cs) = direction12 c cs"
  "direction13 c (set_direction12 c' dir12 cs) = direction13 c cs"
  "direction12 c (set_direction12 c dir12 cs) = dir12"
  "c \<noteq> c' \<Longrightarrow> direction12 c (set_direction12 c' dir12 cs) = direction12 c cs"
  "client_random (set_direction13 c dir cs) = client_random cs"
  "server_random (set_direction13 c dir cs) = server_random cs"
  "client_random (set_direction12 c dir12 cs) = client_random cs"
  "server_random (set_direction12 c dir12 cs) = server_random cs"
  by (auto simp: direction13_def set_direction13_def direction12_def set_direction12_def)

lemma coherent_set_direction13:
  assumes "coherent cr kl cs" and "coherent13 cr kl (client_random cs) c2s dir"
  shows "coherent cr kl (set_direction13 c2s dir cs)"
proof -
  have "coherent13 cr kl (client_random cs) c (direction13 c (set_direction13 c2s dir cs))" for c
    using assms by (cases "c = c2s") (auto simp: coherent_def)
  then show ?thesis using assms(1) by (simp add: coherent_def)
qed

lemma coherent_set_direction12:
  assumes "coherent cr kl cs" and "coherent12 cr kl (client_random cs) (server_random cs) c2s dir"
  shows "coherent cr kl (set_direction12 c2s dir cs)"
proof -
  have "coherent12 cr kl (client_random cs) (server_random cs) c (direction12 c (set_direction12 c2s dir cs))"
    for c using assms by (cases "c = c2s") (auto simp: coherent_def)
  then show ?thesis using assms(1) by (simp add: coherent_def)
qed

text \<open>TLS 1.3 and TLS 1.2 separately against their halves of the reference.\<close>

lemma decrypt_tls13_reference:
  assumes "coherent cr kl cs" and "decrypt_tls13 cr kl c2s body cs = (res, cs')"
  shows "coherent cr kl cs' \<and> client_random cs' = client_random cs \<and> server_random cs' = server_random cs
    \<and> (\<forall>c. direction12 c cs' = direction12 c cs)
    \<and> first_success (attempt13 cr kl (client_random cs) c2s (\<lambda>g. seq_of g (direction13 c2s cs)) body)
        (List.product [Handshake, Application] ALL_ALGORITHMS)
      = (case res of Inr rc \<Rightarrow> Some rc | Inl _ \<Rightarrow> None)"
proof -
  obtain dir where t: "try_generations13 cr kl (client_random cs) c2s (record_aad (length body)) body
      [Handshake, Application] (direction13 c2s cs) = (res, dir)" and cs': "cs' = set_direction13 c2s dir cs"
    using assms(2) by (auto simp: decrypt_tls13_def split: prod.splits)
  have "coherent13 cr kl (client_random cs) c2s (direction13 c2s cs)"
    using assms(1) by (simp add: coherent_def)
  from try_generations13_reference [OF this _ t, of "\<lambda>g. seq_of g (direction13 c2s cs)"]
  show ?thesis using assms(1) cs' by (simp add: coherent_set_direction13)
qed

text \<open>\<open>decrypt_tls12\<close> either gives up before it has keys, or tries its algorithms.\<close>

lemma decrypt_tls12_cases [case_names no_keys short attempt]:
  obtains (no_keys) "decrypt_tls12 cr kl c2s ct body cs = (Inl NoKey, cs)"
      "server_random cs = None \<or> length (client_random cs) \<noteq> 32
        \<or> secret_for kl (client_random cs) ClientRandom = None"
    | (short) sr ms where "decrypt_tls12 cr kl c2s ct body cs = (Inl AuthFailed, cs)"
      "server_random cs = Some sr" "length (client_random cs) = 32"
      "secret_for kl (client_random cs) ClientRandom = Some ms" "length body < 24"
    | (attempt) sr ms res dir where
      "decrypt_tls12 cr kl c2s ct body cs = (res, set_direction12 c2s dir cs)"
      "try_algorithms12 cr ms (client_random cs) sr c2s ct (take 8 body) (drop 8 body)
         (seq12 (direction12 c2s cs)) TLS12_ALGORITHMS (direction12 c2s cs) = (res, dir)"
      "server_random cs = Some sr" "length (client_random cs) = 32"
      "secret_for kl (client_random cs) ClientRandom = Some ms" "24 \<le> length body"
proof (cases "server_random cs = None \<or> length (client_random cs) \<noteq> 32
    \<or> secret_for kl (client_random cs) ClientRandom = None")
  case True
  then have "decrypt_tls12 cr kl c2s ct body cs = (Inl NoKey, cs)"
    by (auto simp: decrypt_tls12_def split: option.splits)
  then show ?thesis using True no_keys by simp
next
  case False
  then obtain sr ms where k: "server_random cs = Some sr" "length (client_random cs) = 32"
    "secret_for kl (client_random cs) ClientRandom = Some ms" by auto
  obtain res dir where t: "try_algorithms12 cr ms (client_random cs) sr c2s ct (take 8 body) (drop 8 body)
      (seq12 (direction12 c2s cs)) TLS12_ALGORITHMS (direction12 c2s cs) = (res, dir)" by fastforce
  show ?thesis
  proof (cases "length body < 24")
    case True
    with k show ?thesis by (intro short) (simp_all add: decrypt_tls12_def)
  next
    case False
    with k t show ?thesis by (intro attempt [of res dir ms sr]) (simp_all add: decrypt_tls12_def)
  qed
qed

lemma decrypt_tls12_reference:
  assumes "coherent cr kl cs" and "decrypt_tls12 cr kl c2s ct body cs = (res, cs')"
  shows "coherent cr kl cs' \<and> res =
    (case (server_random cs, secret_for kl (client_random cs) ClientRandom) of
       (Some sr, Some ms) \<Rightarrow>
         if length (client_random cs) \<noteq> 32 then Inl NoKey
         else if length body < 24 then Inl AuthFailed
         else (case first_success (attempt12 cr ms (client_random cs) sr c2s (seq12 (direction12 c2s cs)) ct body)
                      TLS12_ALGORITHMS of
                 Some rc \<Rightarrow> Inr rc | None \<Rightarrow> Inl NoKey)
     | _ \<Rightarrow> Inl NoKey)"
proof (cases rule: decrypt_tls12_cases [of cr kl c2s ct body cs])
  case no_keys
  then show ?thesis using assms by (auto split: option.splits)
next
  case (short sr ms)
  then show ?thesis using assms by simp
next
  case (attempt sr ms res' dir)
  have r: "res' = res" "cs' = set_direction12 c2s dir cs" using attempt(1) assms(2) by auto
  have coh: "coherent12 cr kl (client_random cs) (Some sr) c2s (direction12 c2s cs)"
    using assms(1) attempt(3) by (auto simp: coherent_def dest: spec [of _ c2s])
  note ref = try_algorithms12_reference [OF coh attempt(5,2)]
  note seq = try_algorithms12_seq [OF attempt(2)]
  show ?thesis
    using ref seq assms(1) r attempt(3-6) by (cases res) (simp_all add: coherent_set_direction12)
qed

subsection \<open>Reachable connection states\<close>

text \<open>
  The life of a connection's decryption state: it is created from the client hello, learns the server random,
  and decrypts records while the key log grows. \<open>known_secrets_kept\<close> says the log's secrets for this
  connection stay what they were.
\<close>

definition known_secrets_kept :: "bytes \<Rightarrow> keylog \<Rightarrow> keylog \<Rightarrow> bool" where
  "known_secrets_kept random kl kl' \<longleftrightarrow>
     (\<forall>label s. secret_for kl random label = Some s \<longrightarrow> secret_for kl' random label = Some s)"

inductive conn_reach :: "crypto \<Rightarrow> keylog \<Rightarrow> connection_state \<Rightarrow> bool" for cr :: crypto where
  conn_new: "conn_reach cr kl (new_connection random)"
| conn_server_random: "conn_reach cr kl cs \<Longrightarrow> conn_reach cr kl (snd (set_server_random sr cs))"
| conn_decrypt: "conn_reach cr kl cs \<Longrightarrow> conn_reach cr kl (snd (decrypt cr kl c2s ct body cs))"
| conn_reload: "conn_reach cr kl cs \<Longrightarrow> known_secrets_kept (client_random cs) kl kl' \<Longrightarrow> conn_reach cr kl' cs"

lemma decrypt_coherent:
  assumes "coherent cr kl cs"
  shows "coherent cr kl (snd (decrypt cr kl c2s ct body cs))
    \<and> fst (decrypt cr kl c2s ct body cs) =
        reference_decrypt cr kl (client_random cs) (server_random cs) c2s
          (\<lambda>g. seq_of g (direction13 c2s cs)) (seq12 (direction12 c2s cs)) ct body"
proof -
  obtain res1 cs1 where d13: "decrypt_tls13 cr kl c2s body cs = (res1, cs1)"
    by (cases "decrypt_tls13 cr kl c2s body cs")
  note r13 = decrypt_tls13_reference [OF assms d13]
  show ?thesis
  proof (cases res1)
    case (Inr rc)
    then show ?thesis using r13 d13 by (simp add: decrypt_def reference_decrypt_def)
  next
    case (Inl e)
    obtain res2 cs2 where d12: "decrypt_tls12 cr kl c2s ct body cs1 = (res2, cs2)"
      by (cases "decrypt_tls12 cr kl c2s ct body cs1")
    have coh1: "coherent cr kl cs1" using r13 by simp
    have same: "client_random cs1 = client_random cs" "server_random cs1 = server_random cs"
        "direction12 c2s cs1 = direction12 c2s cs" using r13 by simp_all
    note r12 = decrypt_tls12_reference [OF coh1 d12, unfolded same]
    show ?thesis using r12 r13 d13 d12 Inl by (simp add: decrypt_def reference_decrypt_def)
  qed
qed

lemma coherent_new: "coherent cr kl (new_connection random)"
proof -
  have "key_cache g default_direction alg = None" for g alg
    by (cases g) (simp_all add: default_direction_def)
  then show ?thesis
    by (simp add: coherent_def coherent13_def coherent12_def new_connection_def direction13_def
        direction12_def default_direction12_def)
qed

lemma coherent_server_random: "coherent cr kl cs \<Longrightarrow> coherent cr kl (snd (set_server_random sr cs))"
proof (cases "server_random cs")
  case None
  assume c: "coherent cr kl cs"
  let ?cs = "cs\<lparr>server_random := Some sr\<rparr>"
  have "direction13 d ?cs = direction13 d cs" "direction12 d ?cs = direction12 d cs" for d
    by (simp_all add: direction13_def direction12_def)
  then have "coherent cr kl ?cs" using c None by (simp add: coherent_def coherent12_def)
  then show ?thesis using None by (simp add: set_server_random_def)
qed (simp add: set_server_random_def)

lemma coherent_reload:
  assumes "coherent cr kl cs" and "known_secrets_kept (client_random cs) kl kl'"
  shows "coherent cr kl' cs"
  using assms unfolding coherent_def coherent13_def coherent12_def known_secrets_kept_def by metis

lemma conn_reach_coherent: "conn_reach cr kl cs \<Longrightarrow> coherent cr kl cs"
  by (induction rule: conn_reach.induct)
    (simp_all add: coherent_new coherent_server_random decrypt_coherent coherent_reload)

subsection \<open>Counters of a connection\<close>

text \<open>The three counters of each direction, as the record version that moves them.\<close>

datatype counter = Counter13 generation | Counter12

fun counter_of :: "record_version \<Rightarrow> counter" where
  "counter_of (Tls13Version g) = Counter13 g"
| "counter_of (Tls12Version _) = Counter12"

definition seq_counter :: "connection_state \<Rightarrow> bool \<Rightarrow> counter \<Rightarrow> u64" where
  "seq_counter cs c2s k =
     (case k of Counter13 g \<Rightarrow> seq_of g (direction13 c2s cs) | Counter12 \<Rightarrow> seq12 (direction12 c2s cs))"

lemma decrypt_tls13_counters:
  assumes "decrypt_tls13 cr kl c2s body cs = (res, cs')"
  shows "(\<forall>rc. res = Inr rc \<longrightarrow> (\<forall>c k. seq_counter cs' c k =
        seq_counter cs c k + (if c = c2s \<and> k = counter_of (dr_version rc) then 1 else 0)))
    \<and> (\<forall>e. res = Inl e \<longrightarrow> (\<forall>c k. seq_counter cs' c k = seq_counter cs c k))
    \<and> client_random cs' = client_random cs \<and> server_random cs' = server_random cs"
proof -
  obtain dir where t: "try_generations13 cr kl (client_random cs) c2s (record_aad (length body)) body
      [Handshake, Application] (direction13 c2s cs) = (res, dir)" and cs': "cs' = set_direction13 c2s dir cs"
    using assms by (auto simp: decrypt_tls13_def split: prod.splits)
  have other: "seq_counter cs' c k = seq_counter cs c k" if "c \<noteq> c2s \<or> k = Counter12" for c k
    using that cs' by (cases k) (auto simp: seq_counter_def)
  have this13: "seq_counter cs' c2s (Counter13 g) = seq_of g dir"
    "seq_counter cs c2s (Counter13 g) = seq_of g (direction13 c2s cs)" for g
    using cs' by (simp_all add: seq_counter_def)
  note s = try_generations13_seq [OF t]
  have "seq_counter cs' c k = seq_counter cs c k + (if c = c2s \<and> k = counter_of (dr_version rc) then 1 else 0)"
    if "res = Inr rc" for rc c k
    using s that other [of c k] this13 by (cases "c = c2s"; cases k) auto
  moreover have "seq_counter cs' c k = seq_counter cs c k" if "res = Inl e" for e c k
    using s that other [of c k] this13 by (cases "c = c2s"; cases k) auto
  ultimately show ?thesis using cs' by simp
qed

lemma decrypt_tls12_counters:
  assumes "decrypt_tls12 cr kl c2s ct body cs = (res, cs')"
  shows "(\<forall>rc. res = Inr rc \<longrightarrow> (\<forall>c k. seq_counter cs' c k =
        seq_counter cs c k + (if c = c2s \<and> k = counter_of (dr_version rc) then 1 else 0)))
    \<and> (\<forall>e. res = Inl e \<longrightarrow> (\<forall>c k. seq_counter cs' c k = seq_counter cs c k)
          \<and> (24 \<le> length body \<longrightarrow> e = NoKey))
    \<and> client_random cs' = client_random cs \<and> server_random cs' = server_random cs"
proof (cases rule: decrypt_tls12_cases [of cr kl c2s ct body cs])
  case (attempt sr ms res' dir)
  have r: "res' = res" and cs': "cs' = set_direction12 c2s dir cs" using attempt(1) assms by auto
  note s = try_algorithms12_seq [OF attempt(2), unfolded r]
  have other: "seq_counter cs' c k = seq_counter cs c k" if "c \<noteq> c2s \<or> k \<noteq> Counter12" for c k
    using that cs' by (cases k) (auto simp: seq_counter_def)
  have this12: "seq_counter cs' c2s Counter12 = seq12 dir"
    "seq_counter cs c2s Counter12 = seq12 (direction12 c2s cs)"
    using cs' by (simp_all add: seq_counter_def)
  have "seq_counter cs' c k = seq_counter cs c k + (if c = c2s \<and> k = counter_of (dr_version rc) then 1 else 0)"
    if "res = Inr rc" for rc c k
    using s that other [of c k] this12 by (cases "c = c2s"; cases "k = Counter12") auto
  moreover have "seq_counter cs' c k = seq_counter cs c k \<and> e = NoKey" if "res = Inl e" for e c k
    using s that other [of c k] this12 by (cases "c = c2s"; cases "k = Counter12") auto
  ultimately show ?thesis using cs' by simp
qed (use assms in auto)

subsection \<open>Keys once derived\<close>

lemma try_algorithms12_cached:
  assumes "\<forall>alg \<in> set algs. keys12 dir alg \<noteq> None"
  shows "try_algorithms12 cr ms random sr c2s ct nonce body seq algs dir
       = try_algorithms12 cr ms' random sr c2s ct nonce body seq algs dir"
  using assms
proof (induction algs)
  case (Cons alg algs)
  then obtain k where "keys12 dir alg = Some k" by auto
  then have "keys_for12 cr m random sr c2s alg dir = (k, dir)" for m by (simp add: keys_for12_def)
  moreover have "try_algorithms12 cr ms random sr c2s ct nonce body seq algs dir
       = try_algorithms12 cr ms' random sr c2s ct nonce body seq algs dir"
    using Cons by simp
  ultimately show ?case by (simp only: try_algorithms12.simps Let_def prod.case)
qed simp

lemma try_algorithms12_fills:
  assumes "try_algorithms12 cr ms random sr c2s ct nonce body seq algs dir = (Inl e, dir')"
  shows "dom (keys12 dir) \<union> set algs \<subseteq> dom (keys12 dir')"
  using assms
proof (induction algs arbitrary: dir)
  case (Cons alg algs)
  obtain k dir1 where k: "keys_for12 cr ms random sr c2s alg dir = (k, dir1)"
    by (cases "keys_for12 cr ms random sr c2s alg dir")
  then have d: "insert alg (dom (keys12 dir)) \<subseteq> dom (keys12 dir1)"
    by (auto simp: keys_for12_def Let_def split: option.splits)
  have "try_algorithms12 cr ms random sr c2s ct nonce body seq algs dir1 = (Inl e, dir')"
    using Cons.prems k by (cases "decrypt_record12 cr k seq ct nonce body") simp_all
  from Cons.IH [OF this] d have "insert alg (dom (keys12 dir)) \<union> set algs \<subseteq> dom (keys12 dir')"
    by blast
  then show ?case by simp
qed auto

text \<open>A cache of keys only grows, so one that is full stays full.\<close>

lemma try_algorithms12_grows:
  assumes "try_algorithms12 cr ms random sr c2s ct nonce body seq algs dir = (res, dir')"
  shows "dom (keys12 dir) \<subseteq> dom (keys12 dir')"
  using assms
proof (induction algs arbitrary: dir)
  case (Cons alg algs)
  obtain k dir1 where k: "keys_for12 cr ms random sr c2s alg dir = (k, dir1)"
    by (cases "keys_for12 cr ms random sr c2s alg dir")
  then have d: "dom (keys12 dir) \<subseteq> dom (keys12 dir1)"
    by (auto simp: keys_for12_def Let_def split: option.splits)
  show ?case
  proof (cases "decrypt_record12 cr k seq ct nonce body")
    case (Inl e)
    then have "try_algorithms12 cr ms random sr c2s ct nonce body seq algs dir1 = (res, dir')" using Cons.prems k by simp
    from Cons.IH [OF this] d show ?thesis by blast
  next
    case (Inr pt)
    then have "dom (keys12 dir') = dom (keys12 dir1)" using Cons.prems k by (auto simp: next_seq12_def)
    then show ?thesis using d by simp
  qed
qed simp

definition keys12_full :: "bool \<Rightarrow> connection_state \<Rightarrow> bool" where
  "keys12_full d cs \<longleftrightarrow> set TLS12_ALGORITHMS \<subseteq> dom (keys12 (direction12 d cs))"

lemma decrypt_tls13_keys12: "direction12 d (snd (decrypt_tls13 cr kl c2s body cs)) = direction12 d cs"
  by (simp add: decrypt_tls13_def split: prod.splits)

lemma decrypt_tls12_keys12_full: "keys12_full d cs \<Longrightarrow> keys12_full d (snd (decrypt_tls12 cr kl c2s ct body cs))"
proof (cases rule: decrypt_tls12_cases [of cr kl c2s ct body cs])
  case (attempt sr ms res dir)
  assume full: "keys12_full d cs"
  show ?thesis
  proof (cases "d = c2s")
    case True
    then show ?thesis using full attempt(1) try_algorithms12_grows [OF attempt(2)] by (auto simp: keys12_full_def)
  next
    case False
    then show ?thesis using full attempt(1) by (simp add: keys12_full_def)
  qed
qed simp_all

lemma decrypt_keys12_full: "keys12_full d cs \<Longrightarrow> keys12_full d (snd (decrypt cr kl c2s ct body cs))"
proof -
  assume full: "keys12_full d cs"
  obtain res1 cs1 where d13: "decrypt_tls13 cr kl c2s body cs = (res1, cs1)"
    by (cases "decrypt_tls13 cr kl c2s body cs")
  obtain res2 cs2 where d12: "decrypt_tls12 cr kl c2s ct body cs1 = (res2, cs2)"
    by (cases "decrypt_tls12 cr kl c2s ct body cs1")
  have "keys12_full d cs1" using full decrypt_tls13_keys12 [of d cr kl c2s body cs] d13 by (simp add: keys12_full_def)
  moreover from decrypt_tls12_keys12_full [OF this, of cr kl c2s ct body] have "keys12_full d cs2" using d12 by simp
  ultimately show ?thesis using d13 d12 by (cases res1; cases res2) (simp_all add: decrypt_def)
qed

text \<open>What may come after: server hellos, and records of either direction, each under any key log.\<close>

datatype conn_event = LearnServerRandom bytes | TryRecord keylog bool u8 bytes

fun after_events :: "crypto \<Rightarrow> conn_event list \<Rightarrow> connection_state \<Rightarrow> connection_state" where
  "after_events cr [] cs = cs"
| "after_events cr (LearnServerRandom sr # es) cs = after_events cr es (snd (set_server_random sr cs))"
| "after_events cr (TryRecord kl c2s ct body # es) cs = after_events cr es (snd (decrypt cr kl c2s ct body cs))"

lemma after_events_keys:
  assumes "server_random cs = Some sr" and "keys12_full d cs"
  shows "server_random (after_events cr es cs) = Some sr \<and> client_random (after_events cr es cs) = client_random cs
    \<and> keys12_full d (after_events cr es cs)"
  using assms
proof (induction es arbitrary: cs)
  case (Cons x es)
  show ?case
  proof (cases x)
    case (LearnServerRandom r)
    then have "snd (set_server_random r cs) = cs" using Cons.prems(1) by (simp add: set_server_random_def)
    then show ?thesis using Cons LearnServerRandom by simp
  next
    case (TryRecord kl c2s ct body)
    obtain res1 cs1 where d13: "decrypt_tls13 cr kl c2s body cs = (res1, cs1)"
      by (cases "decrypt_tls13 cr kl c2s body cs")
    obtain res2 cs2 where d12: "decrypt_tls12 cr kl c2s ct body cs1 = (res2, cs2)"
      by (cases "decrypt_tls12 cr kl c2s ct body cs1")
    have "server_random (snd (decrypt cr kl c2s ct body cs)) = server_random cs
        \<and> client_random (snd (decrypt cr kl c2s ct body cs)) = client_random cs"
      using decrypt_tls13_counters [OF d13] decrypt_tls12_counters [OF d12]
      by (cases res1; cases res2) (simp_all add: decrypt_def d13 d12)
    then show ?thesis using Cons.IH decrypt_keys12_full [OF Cons.prems(2), of cr kl c2s ct body] Cons.prems(1) TryRecord by simp
  qed
qed simp

subsection \<open>Properties\<close>

text \<open>
  C7 (the caches are invisible). In every state a connection can reach, through server hellos, decryptions and
  reloads of the key log that keep the secrets it has for the connection's client random, decrypting a record gives exactly what the stateless reference
  gives: the first TLS 1.3 generation and algorithm, in order, whose freshly derived key opens the record at
  that generation's counter, else TLS 1.2's algorithms under the fresh key block, else the error.
\<close>

theorem decrypt_equals_reference:
  assumes "conn_reach cr kl cs"
  shows "fst (decrypt cr kl c2s ct body cs) =
    reference_decrypt cr kl (client_random cs) (server_random cs) c2s
      (\<lambda>g. seq_of g (direction13 c2s cs)) (seq12 (direction12 c2s cs)) ct body"
  using decrypt_coherent [OF conn_reach_coherent [OF assms]] by simp

text \<open>
  C21 (sequence counters). A successful decryption advances by one exactly the counter of the generation or
  version that opened the record, in the record's direction; every other counter of both directions stays.
  A failed decryption moves no counter. The randoms of the connection never change.
\<close>

theorem decrypt_counters:
  "(case fst (decrypt cr kl c2s ct body cs) of
      Inr rc \<Rightarrow> (\<forall>c k. seq_counter (snd (decrypt cr kl c2s ct body cs)) c k =
        seq_counter cs c k + (if c = c2s \<and> k = counter_of (dr_version rc) then 1 else 0))
    | Inl e \<Rightarrow> (\<forall>c k. seq_counter (snd (decrypt cr kl c2s ct body cs)) c k = seq_counter cs c k))
   \<and> client_random (snd (decrypt cr kl c2s ct body cs)) = client_random cs
   \<and> server_random (snd (decrypt cr kl c2s ct body cs)) = server_random cs"
proof -
  obtain res1 cs1 where d13: "decrypt_tls13 cr kl c2s body cs = (res1, cs1)"
    by (cases "decrypt_tls13 cr kl c2s body cs")
  obtain res2 cs2 where d12: "decrypt_tls12 cr kl c2s ct body cs1 = (res2, cs2)"
    by (cases "decrypt_tls12 cr kl c2s ct body cs1")
  show ?thesis
    using decrypt_tls13_counters [OF d13] decrypt_tls12_counters [OF d12]
    by (cases res1; cases res2) (simp_all add: decrypt_def d13 d12)
qed

text \<open>
  C22 (what the errors say). For a record of at least 24 bytes the only error of \<open>decrypt\<close> is \<open>NoKey\<close>: a record that
  keys were tried on and that failed to authenticate is reported like one without a key.
\<close>

theorem failed_authentication_is_no_key:
  assumes "24 \<le> length body" and "fst (decrypt cr kl c2s ct body cs) = Inl e"
  shows "e = NoKey"
proof -
  obtain res1 cs1 where d13: "decrypt_tls13 cr kl c2s body cs = (res1, cs1)"
    by (cases "decrypt_tls13 cr kl c2s body cs")
  obtain res2 cs2 where d12: "decrypt_tls12 cr kl c2s ct body cs1 = (res2, cs2)"
    by (cases "decrypt_tls12 cr kl c2s ct body cs1")
  show ?thesis
    using decrypt_tls12_counters [OF d12] assms d13 d12 by (cases res1) (auto simp: decrypt_def)
qed

text \<open>
  C23 (derived keys are never revised). Once a record of at least 24 bytes has failed to decrypt on a connection whose randoms are
  known, under some master secret, then whatever comes after, in both directions and under any key logs, the TLS 1.2 results of that
  record's direction do not depend on the master secret any more: the key log with another one, such as a line completed
  later, gives what the first one gives, as the keys derived from the first one stay in the cache.
\<close>

theorem stale_master_secret_persists:
  assumes "server_random cs = Some sr" and "length (client_random cs) = 32"
    and "secret_for kl (client_random cs) ClientRandom = Some ms"
    and "secret_for kl' (client_random cs) ClientRandom = Some ms'"
    and "24 \<le> length body" and "decrypt cr kl c2s ct body cs = (Inl e, cs')"
    and "later = after_events cr es cs'"
  shows "decrypt_tls12 cr kl' c2s ct' body' later = decrypt_tls12 cr kl c2s ct' body' later"
proof -
  obtain res1 cs1 where d13: "decrypt_tls13 cr kl c2s body cs = (res1, cs1)"
    by (cases "decrypt_tls13 cr kl c2s body cs")
  have same: "client_random cs1 = client_random cs" "server_random cs1 = Some sr"
    using decrypt_tls13_counters [OF d13] assms(1) by simp_all
  obtain e' where d12: "decrypt_tls12 cr kl c2s ct body cs1 = (Inl e', cs')"
    using assms(6) d13 by (auto simp: decrypt_def split: sum.splits prod.splits)
  then obtain dir where
    t: "try_algorithms12 cr ms (client_random cs) sr c2s ct (take 8 body) (drop 8 body)
          (seq12 (direction12 c2s cs1)) TLS12_ALGORITHMS (direction12 c2s cs1) = (Inl e', dir)"
    and cs': "cs' = set_direction12 c2s dir cs1"
    using assms(2,3,5) same by (auto simp: decrypt_tls12_def Let_def split: prod.splits)
  have "keys12_full c2s cs'" using try_algorithms12_fills [OF t] cs' by (simp add: keys12_full_def)
  moreover have "server_random cs' = Some sr" "client_random cs' = client_random cs" using cs' same by simp_all
  ultimately have l: "server_random later = Some sr" "client_random later = client_random cs" "keys12_full c2s later"
    using after_events_keys [of cs' sr c2s cr es] assms(7) by simp_all
  have "\<forall>alg \<in> set TLS12_ALGORITHMS. keys12 (direction12 c2s later) alg \<noteq> None" using l(3) by (auto simp: keys12_full_def)
  from try_algorithms12_cached [OF this, of cr ms' "client_random later" sr c2s ct' "take 8 body'"
      "drop 8 body'" "seq12 (direction12 c2s later)" ms]
  show ?thesis using l assms(2-4) by (simp add: decrypt_tls12_def)
qed

subsection \<open>Witnesses\<close>

definition demo_random :: bytes where
  "demo_random = replicate 32 1"

definition demo_keylog :: keylog where
  "demo_keylog = insert_secret (demo_random, ClientTrafficSecret0, replicate 32 7)
     (insert_secret (demo_random, ClientRandom, [9]) empty_keylog)"

definition fixed_keylog :: keylog where
  "fixed_keylog = insert_secret (demo_random, ClientRandom, [9, 10]) demo_keylog"

definition demo_connection :: connection_state where
  "demo_connection = snd (set_server_random (replicate 32 2) (new_connection demo_random))"

lemma demo_reach: "conn_reach toy_crypto demo_keylog demo_connection"
  unfolding demo_connection_def by (intro conn_server_random conn_new)

lemma demo_secrets:
  "secret_for demo_keylog demo_random ClientRandom = Some [9]"
  "secret_for fixed_keylog demo_random ClientRandom = Some [9, 10]"
  by (simp_all add: demo_keylog_def fixed_keylog_def nss.lookup_add)

lemma demo_connection_simps:
  "server_random demo_connection = Some (replicate 32 2)" "client_random demo_connection = demo_random"
  "length demo_random = 32"
  by (simp_all add: demo_connection_def set_server_random_def new_connection_def demo_random_def)

text \<open>A record opened, its keys cached, a reload that adds a secret, and the next record.\<close>

definition grown_keylog :: keylog where
  "grown_keylog = insert_secret (demo_random, ServerTrafficSecret0, replicate 32 8) demo_keylog"

definition demo_record :: "u64 \<Rightarrow> bytes \<Rightarrow> bytes" where
  "demo_record q pt = encrypt_record13 toy_crypto demo_keys q (record_aad (length pt + 17)) pt 23 0"

definition demo_later :: connection_state where
  "demo_later = snd (decrypt toy_crypto demo_keylog True 23 (demo_record 0 [104, 105]) demo_connection)"

lemma demo_later_reach: "conn_reach toy_crypto grown_keylog demo_later"
proof -
  have "secret_for demo_keylog demo_random ServerTrafficSecret0 = None" by code_simp
  moreover have "secret_for grown_keylog demo_random l
      = (if l = ServerTrafficSecret0 then secret_for grown_keylog demo_random l else secret_for demo_keylog demo_random l)" for l
    by (simp add: grown_keylog_def nss.lookup_add)
  ultimately have "known_secrets_kept demo_random demo_keylog grown_keylog"
    unfolding known_secrets_kept_def by (metis option.distinct(1))
  moreover have "client_random demo_later = demo_random" by code_simp
  ultimately show ?thesis
    unfolding demo_later_def by (intro conn_reload [OF conn_decrypt [OF demo_reach]]) simp
qed

lemma demo_later_cached: "map_option (\<lambda>_. ()) (key_cache Application (direction13 True demo_later) Aes128Gcm) = Some ()"
  "map_sum (\<lambda>_. ()) (\<lambda>r. (dr_plaintext r, dr_content_type r))
     (fst (decrypt toy_crypto grown_keylog True 23 (demo_record 1 [33]) demo_later)) = Inr ([33], 23)"
  by code_simp+

theorem decrypt_equals_reference_witness:
  "\<exists>r. reference_decrypt toy_crypto grown_keylog (client_random demo_later) (server_random demo_later)
      True (\<lambda>g. seq_of g (direction13 True demo_later)) (seq12 (direction12 True demo_later)) 23 (demo_record 1 [33]) = Inr r
    \<and> dr_plaintext r = [33] \<and> key_cache Application (direction13 True demo_later) Aes128Gcm \<noteq> None"
  using decrypt_equals_reference [OF demo_later_reach, of True 23 "demo_record 1 [33]"] demo_later_cached
  by (auto simp: map_sum_def split: sum.splits)

lemma demo_auth_fails:
  "fst (decrypt toy_crypto demo_keylog True 23 (replicate 24 0) demo_connection) = Inl NoKey"
  by code_simp

theorem failed_authentication_is_no_key_witness: "\<exists>e. e = NoKey
    \<and> fst (decrypt toy_crypto demo_keylog True 23 (replicate 24 0) demo_connection) = Inl e"
  using failed_authentication_is_no_key [OF _ demo_auth_fails] demo_auth_fails by simp

text \<open>
  The server's secret line is read before it is complete, a record fails, one of the other direction is tried, and then the
  complete secret no longer matters.
\<close>

theorem stale_master_secret_persists_witness:
  "decrypt_tls12 toy_crypto fixed_keylog True 23 (replicate 30 5)
     (snd (decrypt toy_crypto fixed_keylog False 23 (replicate 24 1)
       (snd (decrypt toy_crypto demo_keylog True 23 (replicate 24 0) demo_connection))))
   = decrypt_tls12 toy_crypto demo_keylog True 23 (replicate 30 5)
     (snd (decrypt toy_crypto fixed_keylog False 23 (replicate 24 1)
       (snd (decrypt toy_crypto demo_keylog True 23 (replicate 24 0) demo_connection))))"
proof (rule stale_master_secret_persists [where es = "[TryRecord fixed_keylog False 23 (replicate 24 1)]"])
  show "decrypt toy_crypto demo_keylog True 23 (replicate 24 0) demo_connection
      = (Inl NoKey, snd (decrypt toy_crypto demo_keylog True 23 (replicate 24 0) demo_connection))"
    using demo_auth_fails by (simp add: prod_eq_iff)
qed (simp_all add: demo_connection_simps demo_secrets)

end
