(* ===== verification/Framing.thy ===== *)
theory Framing
  imports Reassembly_Reach
begin

text \<open>
  The TLS record layer as \<open>Orchestrator::drain_records\<close> reads it off a reassembled direction, over the interface of a
  byte stream: how many bytes are ready, a look at the front, and taking bytes off it. The locale \<open>byte_stream\<close>
  states the contract; the reassembler's operations meet it, and the framing is proved against a reference on plain
  byte lists once, inside the locale.
\<close>

text \<open>
  The top of the loop in \<open>drain_records\<close>: \<open>Inr None\<close> is the \<open>break\<close>, \<open>Inr (Some (content type, body, stream))\<close> one record taken.
\<close>

definition read_record ::
  "('s \<Rightarrow> nat) \<Rightarrow> (nat \<Rightarrow> 's \<Rightarrow> bytes) \<Rightarrow> (nat \<Rightarrow> 's \<Rightarrow> panic + (bytes \<times> 'p \<times> 's)) \<Rightarrow> 's
     \<Rightarrow> panic + (u8 \<times> bytes \<times> 's) option"
where
  "read_record ready front consume s =
     (if ready s < 5 then Inr None
      else
        let header = front 5 s in
        if length header < 5 then Inl IndexOutOfBounds
        else
          let outer_content_type = header ! 0;
              body_len = unat (u16_of_be (header ! 3) (header ! 4));
              total_len = 5 + body_len in
          if ready s < total_len then Inr None
          else (case consume total_len s of
                  Inl e \<Rightarrow> Inl e
                | Inr (record_bytes, _, s') \<Rightarrow>
                    if length record_bytes < 5 then Inl SliceOutOfRange
                    else Inr (Some (outer_content_type, drop 5 record_bytes, s'))))"

text \<open>The reference: one record at the front of a byte list, and all of them.\<close>

definition split_record :: "bytes \<Rightarrow> (u8 \<times> bytes \<times> bytes) option" where
  "split_record bs =
     (if length bs < 5 then None
      else let n = 5 + unat (u16_of_be (bs ! 3) (bs ! 4)) in
           if length bs < n then None else Some (bs ! 0, drop 5 (take n bs), drop n bs))"

lemma split_record_shorter: "split_record bs = Some (ct, body, rest) \<Longrightarrow> length rest < length bs"
  by (auto simp: split_record_def Let_def split: if_splits)

function split_records :: "bytes \<Rightarrow> (u8 \<times> bytes) list \<times> bytes" where
  "split_records bs =
     (case split_record bs of
        None \<Rightarrow> ([], bs)
      | Some (ct, body, rest) \<Rightarrow> let (rs, tl) = split_records rest in ((ct, body) # rs, tl))"
  by pat_completeness auto
termination
  by (relation "measure length") (auto simp: split_record_shorter)

declare split_records.simps [simp del]

locale byte_stream =
  fixes ready :: "'s \<Rightarrow> nat"
    and front :: "nat \<Rightarrow> 's \<Rightarrow> bytes"
    and consume :: "nat \<Rightarrow> 's \<Rightarrow> panic + (bytes \<times> 'p \<times> 's)"
    and content :: "'s \<Rightarrow> bytes"
    and ok :: "'s \<Rightarrow> bool"
  assumes ready_content: "ok s \<Longrightarrow> ready s = length (content s)"
    and front_content: "ok s \<Longrightarrow> front n s = take n (content s)"
    and consume_content: "ok s \<Longrightarrow> n \<le> ready s \<Longrightarrow>
      \<exists>p s'. consume n s = Inr (take n (content s), p, s') \<and> content s' = drop n (content s) \<and> ok s'"
begin

text \<open>Reading one record never panics and agrees with the reference.\<close>

lemma read_record_content:
  assumes "ok s"
  shows "case split_record (content s) of
      None \<Rightarrow> read_record ready front consume s = Inr None
    | Some (ct, body, rest) \<Rightarrow>
        \<exists>s'. read_record ready front consume s = Inr (Some (ct, body, s')) \<and> content s' = rest \<and> ok s'"
proof (cases "length (content s) < 5")
  case True
  then show ?thesis using ready_content [OF assms] by (simp add: read_record_def split_record_def)
next
  case False
  let ?n = "5 + unat (u16_of_be (content s ! 3) (content s ! 4))"
  have r: "read_record ready front consume s =
      (if ready s < ?n then Inr None
       else (case consume ?n s of
               Inl e \<Rightarrow> Inl e
             | Inr (record_bytes, _, s') \<Rightarrow>
                 if length record_bytes < 5 then Inl SliceOutOfRange
                 else Inr (Some (content s ! 0, drop 5 record_bytes, s'))))"
    using False by (simp add: read_record_def ready_content [OF assms] front_content [OF assms] Let_def)
  show ?thesis
  proof (cases "length (content s) < ?n")
    case True
    then show ?thesis
      using False r ready_content [OF assms] by (simp add: split_record_def Let_def)
  next
    case F2: False
    then obtain p s' where c: "consume ?n s = Inr (take ?n (content s), p, s')"
        "content s' = drop ?n (content s)" "ok s'"
      using consume_content [OF assms, of ?n] ready_content [OF assms] by auto
    have "split_record (content s) = Some (content s ! 0, drop 5 (take ?n (content s)), drop ?n (content s))"
      using False F2 by (simp add: split_record_def Let_def)
    moreover have "read_record ready front consume s
        = Inr (Some (content s ! 0, drop 5 (take ?n (content s)), s'))"
      using r c F2 False ready_content [OF assms] by simp
    ultimately show ?thesis using c by simp
  qed
qed

lemma read_record_no_panic: "ok s \<Longrightarrow> read_record ready front consume s \<noteq> Inl e"
  using read_record_content [of s] by (auto split: option.splits)

end

text \<open>The operations of the reassembler are such a stream; its content is the contiguous bytes.\<close>

lemma take_bytes_ok:
  assumes "wf_reassembler r" and "n \<le> contiguous_len r"
  shows "\<exists>pieces r'. take_bytes n r = Inr (take n (contig_bytes r), pieces, r')
    \<and> contig_bytes r' = drop n (contig_bytes r) \<and> wf_reassembler r'"
proof -
  have core: "wf_core r" using assms(1) by (simp add: wf_reassembler_def)
  obtain pieces r' where t: "take_bytes n r = Inr (take n (contig_bytes r), pieces, r')"
    and c: "contig_bytes r' = drop n (contig_bytes r)"
    by (rule take_bytes_eq [OF core assms(2)])
  show ?thesis using t c take_bytes_wf [OF assms(1) t] by blast
qed

interpretation tcp: byte_stream contiguous_len peek take_bytes contig_bytes wf_reassembler
proof unfold_locales
  fix r :: stream_reassembler and n
  assume wf: "wf_reassembler r"
  show "contiguous_len r = length (contig_bytes r)" using wf by (simp add: wf_reassembler_def wf_core_def)
  show "peek n r = take n (contig_bytes r)" by (rule peek_eq)
  show "n \<le> contiguous_len r \<Longrightarrow> \<exists>p s'. take_bytes n r = Inr (take n (contig_bytes r), p, s')
      \<and> contig_bytes s' = drop n (contig_bytes r) \<and> wf_reassembler s'"
    using take_bytes_ok [OF wf] by blast
qed

text \<open>What reading a record leaves of the reassembler besides the bytes.\<close>

lemma read_record_frame:
  assumes "wf_reassembler r" and "read_record contiguous_len peek take_bytes r = Inr (Some (ct, body, r'))"
  shows "pending r' = pending r \<and> limits r' = limits r \<and> (within_limits r' \<longleftrightarrow> within_limits r)
    \<and> base_seq r' = base_seq r \<and> next_expected_relative r' = next_expected_relative r
    \<and> pending_since r' = pending_since r \<and> contiguous_len r' < contiguous_len r"
proof -
  obtain n bs pieces where t: "take_bytes n r = Inr (bs, pieces, r')" and n: "5 \<le> n" "n \<le> contiguous_len r"
    using assms(2) by (auto simp: read_record_def Let_def split: if_splits sum.splits)
  show ?thesis using take_bytes_wf [OF assms(1) t] n by auto
qed

lemma read_record_consumes:
  assumes "read_record contiguous_len peek take_bytes r = Inr (Some (ct, body, r'))"
  shows "contiguous_len r' < contiguous_len r"
proof -
  obtain n bs pieces where t: "take_bytes n r = Inr (bs, pieces, r')" and n: "5 \<le> n" "n \<le> contiguous_len r"
    using assms by (auto simp: read_record_def Let_def split: if_splits sum.splits)
  then show ?thesis by (auto simp: take_bytes_def split: if_splits sum.splits)
qed

end
