(* ===== verification/Lua_Fields.thy ===== *)
theory Lua_Fields
  imports Strings
begin

text \<open>
  \<open>src/lua/tree.rs\<close> and \<open>src/lua/tvb.rs\<close>: the values a dissector records, the search through nested subtrees,
  and the byte windows a dissector reads. A subtree, shared behind \<open>Rc<RefCell<_>>\<close> while a dissector runs
  (theory \<open>Lua_Tree\<close>), is a value once the call is over. In \<open>tvb.rs\<close> a Lua integer is cast to \<open>usize\<close>, so the window arithmetic is on
  64-bit words and wraps, as a release build does.
\<close>

datatype field_kind = KUInt | KStr | KBytes

datatype field_value = UInt u64 | Str string | Bytes bytes | Tree frame_fields
and frame_fields =
  FrameFields (ff_entries: "(string \<times> field_value) list") (ff_protocol: "string option")
    (ff_info: "string option") (ff_malformed: "string list")

definition default_fields :: frame_fields where
  "default_fields = FrameFields [] None None []"

fun hex_encode :: "bytes \<Rightarrow> string" where
  "hex_encode [] = []"
| "hex_encode (b # bs) = fmt_02x b @ hex_encode bs"

fun to_output_string :: "field_value \<Rightarrow> string" where
  "to_output_string (UInt v) = fmt_dec (unat v)"
| "to_output_string (Str s) = s"
| "to_output_string (Bytes b) = hex_encode b"
| "to_output_string (Tree _) = []"

text \<open>\<open>collect_values_for\<close> appends to \<open>out\<close> while it walks the entries; a subtree is searched in place.\<close>

fun collect_values_for :: "frame_fields \<Rightarrow> string \<Rightarrow> field_value list \<Rightarrow> field_value list"
and collect_entries :: "(string \<times> field_value) list \<Rightarrow> string \<Rightarrow> field_value list \<Rightarrow> field_value list"
where
  "collect_values_for (FrameFields es p i mal) field out = collect_entries es field out"
| "collect_entries [] field out = out"
| "collect_entries ((name, v) # es) field out =
     collect_entries es field
       (case v of Tree child \<Rightarrow> collect_values_for child field out
        | _ \<Rightarrow> if name = field then out @ [v] else out)"

definition values_for :: "frame_fields \<Rightarrow> string \<Rightarrow> field_value list" where
  "values_for ff field = collect_values_for ff field []"

subsection \<open>Byte windows\<close>

record tvb_range =
  tr_data :: bytes
  tr_range :: "u64 \<times> u64"

definition saturating_sub :: "u64 \<Rightarrow> u64 \<Rightarrow> u64" where
  "saturating_sub a b = (if a < b then 0 else a - b)"

definition tvb_slice :: "bytes \<Rightarrow> u64 \<Rightarrow> u64 \<Rightarrow> u64 \<Rightarrow> u64 option \<Rightarrow> string + tvb_range" where
  "tvb_slice data base_start base_len offset len_opt =
     (let avail = saturating_sub base_len offset;
          len = (case len_opt of None \<Rightarrow> avail | Some l \<Rightarrow> l) in
      if offset + len > base_len then Inl ''Tvb/TvbRange: range out of bounds''
      else let start = base_start + offset in
           Inr \<lparr>tr_data = data, tr_range = (start, start + len)\<rparr>)"

text \<open>\<open>tvb(offset, length)\<close>, and the same call on a range.\<close>

definition tvb_call :: "bytes \<Rightarrow> u64 \<Rightarrow> u64 option \<Rightarrow> string + tvb_range" where
  "tvb_call data offset len_opt = tvb_slice data 0 (of_nat (length data)) offset len_opt"

definition range_len64 :: "u64 \<times> u64 \<Rightarrow> u64" where
  "range_len64 r = saturating_sub (snd r) (fst r)"

definition tvb_range_call :: "tvb_range \<Rightarrow> u64 \<Rightarrow> u64 option \<Rightarrow> string + tvb_range" where
  "tvb_range_call r offset len_opt =
     tvb_slice (tr_data r) (fst (tr_range r)) (range_len64 (tr_range r)) offset len_opt"

definition tvb_bytes :: "tvb_range \<Rightarrow> panic + bytes" where
  "tvb_bytes r = index_range (unat (fst (tr_range r)), unat (snd (tr_range r))) (tr_data r)"

definition u64_from_be :: "bytes \<Rightarrow> u64" where
  "u64_from_be bs = foldl (\<lambda>acc b. push_bit 8 acc OR ucast b) 0 bs"

definition u64_from_le :: "bytes \<Rightarrow> u64" where
  "u64_from_le bs = u64_from_be (rev bs)"

definition parse_uint :: "bytes \<Rightarrow> bool \<Rightarrow> string + u64" where
  "parse_uint bs little_endian =
     (if bs = [] \<or> length bs > 8 then Inl ''TvbRange: cannot parse range as an integer''
      else if little_endian then Inr (u64_from_le (bs @ replicate (8 - length bs) 0))
      else Inr (u64_from_be (replicate (8 - length bs) 0 @ bs)))"

text \<open>\<open>tvb_range:uint()\<close> and \<open>:le_uint()\<close>: the bytes of the range, then the integer.\<close>

definition tvb_uint :: "tvb_range \<Rightarrow> bool \<Rightarrow> panic + (string + u64)" where
  "tvb_uint r little_endian =
     (case tvb_bytes r of Inl p \<Rightarrow> Inl p | Inr bs \<Rightarrow> Inr (parse_uint bs little_endian))"

text \<open>The methods \<open>len\<close> of the buffer and of a range, and \<open>raw\<close>, which hands the bytes of the range to Lua.\<close>

definition tvb_len :: "bytes \<Rightarrow> nat" where
  "tvb_len data = length data"

definition tvb_range_len :: "tvb_range \<Rightarrow> nat" where
  "tvb_range_len r = unat (range_len64 (tr_range r))"

definition tvb_raw :: "tvb_range \<Rightarrow> panic + bytes" where
  "tvb_raw r = tvb_bytes r"

text \<open>The \<open>ToString\<close> of a \<open>UInt64\<close>.\<close>

definition uint64_to_string :: "u64 \<Rightarrow> string" where
  "uint64_to_string u = fmt_dec (unat u)"

subsection \<open>Lemmas\<close>

text \<open>Every leaf of the nested structure, depth first.\<close>

fun leaves :: "frame_fields \<Rightarrow> (string \<times> field_value) list"
and entry_leaves :: "(string \<times> field_value) list \<Rightarrow> (string \<times> field_value) list"
where
  "leaves (FrameFields es p i mal) = entry_leaves es"
| "entry_leaves [] = []"
| "entry_leaves ((name, v) # es) =
     (case v of Tree child \<Rightarrow> leaves child | _ \<Rightarrow> [(name, v)]) @ entry_leaves es"

lemma collect_eq:
  "collect_values_for ff field out = out @ map snd (filter (\<lambda>e. fst e = field) (leaves ff))"
  "collect_entries es field out = out @ map snd (filter (\<lambda>e. fst e = field) (entry_leaves es))"
proof (induction ff field out and es field out rule: collect_values_for_collect_entries.induct)
  case (3 name v es field out)
  then show ?case by (cases v) auto
qed auto

lemma entry_leaves_not_tree:
  "e \<in> set (leaves ff) \<Longrightarrow> \<not> (\<exists>t. snd e = Tree t)"
  "e \<in> set (entry_leaves es) \<Longrightarrow> \<not> (\<exists>t. snd e = Tree t)"
proof (induction ff and es rule: leaves_entry_leaves.induct)
  case (3 name v es)
  then show ?case by (cases v) auto
qed auto

lemma hex_encode_eq: "hex_encode bs = lower_hex bs"
  by (induction bs) auto

subsection \<open>Properties\<close>

text \<open>
  C27 (field selection sees through nesting). Selecting a field collects, in depth-first encounter order, exactly
  the leaf values recorded under that name at any depth, and never a subtree.
\<close>

theorem values_for_leaves:
  "values_for ff field = map snd (filter (\<lambda>e. fst e = field) (leaves ff))
   \<and> list_all (\<lambda>v. \<not> (\<exists>t. v = Tree t)) (values_for ff field)"
  using entry_leaves_not_tree(1) [of _ ff] by (fastforce simp: values_for_def collect_eq list_all_iff)

text \<open>
  C28 (windows stay inside). For an offset and length that are not negative, slicing a window of a buffer either is
  refused, exactly when the requested end lies beyond the window, or gives a range inside the window, and
  reading its bytes does not panic and returns them.
\<close>

theorem tvb_slice_in_window:
  assumes "unat base_start + unat base_len \<le> length data" and "length data < 2 ^ 63"
    and "offset < 2 ^ 63" and "len < 2 ^ 63"
  shows "(case tvb_slice data base_start base_len offset (Some len) of
      Inl _ \<Rightarrow> unat base_len < unat offset + unat len
    | Inr r \<Rightarrow> unat offset + unat len \<le> unat base_len
        \<and> tvb_bytes r = Inr (take (unat len) (drop (unat base_start + unat offset) data)))"
proof -
  have small: "unat offset < 9223372036854775808" "unat len < 9223372036854775808"
    using assms(3,4) by (simp_all add: word_less_nat_alt)
  have ol: "unat (offset + len) = unat offset + unat len"
    using small by (subst unat_add_lem [symmetric]) simp
  show ?thesis
  proof (cases "unat offset + unat len \<le> unat base_len")
    case True
    have so: "unat (base_start + offset) = unat base_start + unat offset"
      using assms(1,2) True by (subst unat_add_lem [symmetric]) simp
    have "unat (base_start + offset + len) = unat (base_start + offset) + unat len"
      using assms(1,2) True so by (subst unat_add_lem [symmetric]) simp
    then have sol: "unat (base_start + offset + len) = unat base_start + unat offset + unat len"
      using so by simp
    show ?thesis
      using True assms(1) ol so sol
      by (simp add: tvb_slice_def Let_def word_less_nat_alt tvb_bytes_def index_range_def sub_range_def
          add.assoc)
  next
    case False
    then show ?thesis using ol by (simp add: tvb_slice_def Let_def word_less_nat_alt)
  qed
qed

text \<open>
  C29 (a negative offset escapes the window). A Lua call \<open>range(-1, 1)\<close> on a range that starts at a positive offset is
  accepted and reads the byte before the range; \<open>tvb(-1, 1)\<close> on the whole buffer is accepted too and panics when
  its bytes are read.
\<close>

theorem negative_offset_escapes:
  assumes "0 < base_start" and "unat base_start \<le> length data" and "length data < 2 ^ 63"
  shows "(\<exists>r. tvb_slice data base_start base_len (- 1) (Some 1) = Inr r
      \<and> tvb_bytes r = Inr [data ! (unat base_start - 1)])
    \<and> (\<exists>r. tvb_call data (- 1) (Some 1) = Inr r \<and> tvb_bytes r = Inl SliceOutOfRange)"
proof -
  have m1: "unat (base_start - 1) = unat base_start - 1"
    using assms(1) by (simp add: unat_minus_one word_neq_0_conv)
  have pos: "0 < unat base_start" using assms(1) by (simp add: word_less_nat_alt)
  have "take (Suc 0) (drop (unat base_start - 1) data) = [data ! (unat base_start - 1)]"
    using pos assms(2) by (simp add: take_Suc_conv_app_nth)
  then have "tvb_bytes \<lparr>tr_data = data, tr_range = (base_start - 1, base_start)\<rparr>
      = Inr [data ! (unat base_start - 1)]"
    using pos assms(2) m1 by (simp add: tvb_bytes_def index_range_def sub_range_def)
  moreover have "tvb_slice data base_start base_len (- 1) (Some 1)
      = Inr \<lparr>tr_data = data, tr_range = (base_start - 1, base_start)\<rparr>"
    by (simp add: tvb_slice_def Let_def)
  moreover have "tvb_call data (- 1) (Some 1) = Inr \<lparr>tr_data = data, tr_range = (- 1, 0)\<rparr>"
    by (simp add: tvb_call_def tvb_slice_def Let_def)
  moreover have "tvb_bytes \<lparr>tr_data = data, tr_range = (- 1, 0)\<rparr> = Inl SliceOutOfRange"
    by (simp add: tvb_bytes_def index_range_def unat_gt_0)
  ultimately show ?thesis by blast
qed

theorem tvb_slice_in_window_witness:
  "tvb_bytes \<lparr>tr_data = [1, 2, 3, 4], tr_range = (2, 4)\<rparr> = Inr [3, 4]"
  using tvb_slice_in_window [of 1 3 "[1, 2, 3, 4]" 1 2] by (simp add: tvb_slice_def Let_def)

theorem negative_offset_escapes_witness:
  "(\<exists>r. tvb_slice [1, 2, 3] 1 2 (- 1) (Some 1) = Inr r \<and> tvb_bytes r = Inr [1])
   \<and> (\<exists>r. tvb_call [1, 2, 3] (- 1) (Some 1) = Inr r \<and> tvb_bytes r = Inl SliceOutOfRange)"
  using negative_offset_escapes [of 1 "[1, 2, 3]" 2] by simp

end
