(* ===== verification/Utf8.thy ===== *)
theory Utf8
  imports Strings
begin

text \<open>
  \<open>String::from_utf8_lossy\<close> of Rust's standard library, by which bytes of a packet become a \<open>String\<close>: the decoder
  that takes one code point or one maximal invalid prefix off the front, the replacement of what is invalid by
  U+FFFD, and the facts that the result is valid UTF-8 and that valid UTF-8 is left alone.
\<close>

definition safe_get :: "bytes \<Rightarrow> nat \<Rightarrow> u8" where
  "safe_get bs i = (if i < length bs then bs ! i else 0)"

definition byte_rng :: "u8 \<Rightarrow> u8 \<Rightarrow> u8 \<Rightarrow> bool" where
  "byte_rng lo hi b \<longleftrightarrow> lo \<le> b \<and> b \<le> hi"

abbreviation is_cont :: "u8 \<Rightarrow> bool" where
  "is_cont b \<equiv> byte_rng 0x80 0xBF b"

text \<open>Which second bytes may follow a lead byte of a three- or four-byte code point.\<close>

definition second_ok :: "u8 \<Rightarrow> u8 \<Rightarrow> bool" where
  "second_ok lead b =
     (if lead = 0xE0 then byte_rng 0xA0 0xBF b
      else if lead = 0xED then byte_rng 0x80 0x9F b
      else if lead = 0xF0 then byte_rng 0x90 0xBF b
      else if lead = 0xF4 then byte_rng 0x80 0x8F b
      else is_cont b)"

text \<open>Whether a code point stands at the front, and how many bytes are taken.\<close>

fun utf8_step :: "bytes \<Rightarrow> bool \<times> nat" where
  "utf8_step [] = (True, 0)"
| "utf8_step (lead # bs) =
     (if lead < 0x80 then (True, 1)
      else if byte_rng 0xC2 0xDF lead then
        (if is_cont (safe_get bs 0) then (True, 2) else (False, 1))
      else if byte_rng 0xE0 0xEF lead then
        (if \<not> second_ok lead (safe_get bs 0) then (False, 1)
         else if is_cont (safe_get bs 1) then (True, 3) else (False, 2))
      else if byte_rng 0xF0 0xF4 lead then
        (if \<not> second_ok lead (safe_get bs 0) then (False, 1)
         else if \<not> is_cont (safe_get bs 1) then (False, 2)
         else if is_cont (safe_get bs 2) then (True, 4) else (False, 3))
      else (False, 1))"

lemma utf8_step_pos: "(v, n) = utf8_step (b # bs) \<Longrightarrow> 0 < n"
  by (auto split: if_splits)

declare utf8_step.simps [simp del]

definition replacement :: bytes where
  "replacement = [0xEF, 0xBF, 0xBD]"

function from_utf8_lossy :: "bytes \<Rightarrow> bytes" where
  "from_utf8_lossy [] = []"
| "from_utf8_lossy (b # bs) =
     (let (valid, n) = utf8_step (b # bs) in
      (if valid then take n (b # bs) else replacement) @ from_utf8_lossy (drop n (b # bs)))"
  by pat_completeness auto
termination
  by (relation "measure length") (auto dest: utf8_step_pos)

function valid_utf8 :: "bytes \<Rightarrow> bool" where
  "valid_utf8 [] = True"
| "valid_utf8 (b # bs) =
     (let (valid, n) = utf8_step (b # bs) in valid \<and> valid_utf8 (drop n (b # bs)))"
  by pat_completeness auto
termination
  by (relation "measure length") (auto dest: utf8_step_pos)

declare from_utf8_lossy.simps(2) [simp del] valid_utf8.simps(2) [simp del]

text \<open>The \<open>String\<close> with given bytes, and its bytes.\<close>

definition bytes_str :: "bytes \<Rightarrow> string" where
  "bytes_str bs = map (\<lambda>b. char_of (unat b)) bs"

definition str_is_utf8 :: "string \<Rightarrow> bool" where
  "str_is_utf8 s = valid_utf8 (map (\<lambda>c. of_nat (of_char c)) s)"

subsection \<open>Lemmas\<close>

lemma safe_get_append [simp]: "i < length bs \<Longrightarrow> safe_get (bs @ cs) i = safe_get bs i"
  by (simp add: safe_get_def nth_append)

lemma is_cont_in: "is_cont (safe_get bs i) \<Longrightarrow> i < length bs"
  by (simp add: safe_get_def byte_rng_def split: if_splits)

lemma second_ok_in: "second_ok lead (safe_get bs i) \<Longrightarrow> i < length bs"
  by (simp add: safe_get_def second_ok_def byte_rng_def split: if_splits)

text \<open>A code point at the front lies within the bytes and is recognised whatever follows it.\<close>

lemma utf8_step_length: "utf8_step (b # bs) = (True, n) \<Longrightarrow> 0 < n \<and> n \<le> Suc (length bs)"
  using is_cont_in [of bs 0] is_cont_in [of bs 1] is_cont_in [of bs 2]
  by (auto simp: utf8_step.simps Suc_le_eq split: if_splits)

lemma utf8_step_cong:
  assumes "utf8_step (b # bs) = (True, n)" and "\<And>i. Suc i < n \<Longrightarrow> safe_get cs i = safe_get bs i"
  shows "utf8_step (b # cs) = (True, n)"
  using assms(1) assms(2) [of 0] assms(2) [of 1] assms(2) [of 2]
  by (auto simp: utf8_step.simps split: if_splits)

lemma utf8_step_prefix:
  assumes "utf8_step (b # bs) = (True, n)"
  shows "utf8_step (b # take (n - 1) bs @ cs) = (True, n)"
  using assms utf8_step_length [OF assms]
  by (auto intro!: utf8_step_cong [OF assms] simp: safe_get_def nth_append)

lemma valid_utf8_code_point:
  assumes "utf8_step (b # bs) = (True, n)"
  shows "valid_utf8 (take n (b # bs) @ cs) = valid_utf8 cs"
proof -
  have n: "0 < n" "n \<le> Suc (length bs)" using utf8_step_length [OF assms] by auto
  then show ?thesis
    using utf8_step_prefix [OF assms, of cs] by (simp add: take_Cons' drop_Cons' valid_utf8.simps(2))
qed

lemma valid_utf8_replacement: "valid_utf8 (replacement @ cs) = valid_utf8 cs"
  by (simp add: replacement_def valid_utf8.simps(2) utf8_step.simps byte_rng_def second_ok_def safe_get_def)

lemma from_utf8_lossy_valid: "valid_utf8 (from_utf8_lossy bs)"
proof (induction bs rule: from_utf8_lossy.induct)
  case (2 b bs)
  then show ?case
    by (cases "utf8_step (b # bs)")
      (auto simp: from_utf8_lossy.simps(2) valid_utf8_replacement valid_utf8_code_point)
qed simp

lemma from_utf8_lossy_id: "valid_utf8 bs \<Longrightarrow> from_utf8_lossy bs = bs"
proof (induction bs rule: from_utf8_lossy.induct)
  case (2 b bs)
  then show ?case
    by (cases "utf8_step (b # bs)") (simp add: from_utf8_lossy.simps(2) valid_utf8.simps(2))
qed simp

lemma byte_mod_256 [simp]: "of_nat (unat b mod 256) = (b :: u8)"
proof -
  have "unat b mod 256 = unat b" using unsigned_less [of b, where ?'a = nat] by simp
  then show ?thesis by simp
qed

lemma bytes_str_utf8: "str_is_utf8 (bytes_str bs) = valid_utf8 bs"
  by (simp add: str_is_utf8_def bytes_str_def comp_def)

lemma str_is_utf8_lossy [simp]: "str_is_utf8 (bytes_str (from_utf8_lossy bs))"
  by (simp add: bytes_str_utf8 from_utf8_lossy_valid)

lemma str_is_utf8_Nil [simp]: "str_is_utf8 []"
  by (simp add: str_is_utf8_def)

end
