(* ===== verification/Lua_Tree_Correct.thy ===== *)
theory Lua_Tree_Correct
  imports Lua_Tree
begin

text \<open>
  The shared accumulators of a dissection form a tree. The invariant: an entry refers to a cell allocated after its
  own, and no two entries refer to the same cell. From it follow that the walk from the root ends, that an address is
  reached by at most one path, and that an update of one cell is an update of the tree at that path; with these the
  store refines a tree held as a value.
\<close>

subsection \<open>The invariant\<close>

definition kid :: "cell_store \<Rightarrow> nat \<Rightarrow> nat \<Rightarrow> nat option" where
  "kid st x i =
     (if x < length st \<and> i < length (cell_entries (st ! x))
      then (case snd (cell_entries (st ! x) ! i) of STree b \<Rightarrow> Some b | _ \<Rightarrow> None) else None)"

definition store_ok :: "cell_store \<Rightarrow> bool" where
  "store_ok st \<longleftrightarrow> st \<noteq> []
     \<and> (\<forall>x i b. kid st x i = Some b \<longrightarrow> x < b \<and> b < length st)
     \<and> (\<forall>x y i j b. kid st x i = Some b \<longrightarrow> kid st y j = Some b \<longrightarrow> x = y \<and> i = j)"

lemma store_okI:
  assumes "st \<noteq> []" and "\<And>x i b. kid st x i = Some b \<Longrightarrow> x < b \<and> b < length st"
    and "\<And>x y i j b. kid st x i = Some b \<Longrightarrow> kid st y j = Some b \<Longrightarrow> x = y \<and> i = j"
  shows "store_ok st"
  unfolding store_ok_def using assms by blast

lemma store_okD:
  assumes "store_ok st"
  shows "st \<noteq> []" and "kid st x i = Some b \<Longrightarrow> x < b" and "kid st x i = Some b \<Longrightarrow> b < length st"
    and "kid st x i = Some b \<Longrightarrow> kid st y j = Some b \<Longrightarrow> x = y \<and> i = j"
  using assms by (auto simp: store_ok_def)

lemma kid_Some:
  "kid st x i = Some b \<longleftrightarrow>
     x < length st \<and> i < length (cell_entries (st ! x)) \<and> snd (cell_entries (st ! x) ! i) = STree b"
  by (auto simp: kid_def split: stored_value.splits if_splits)

lemma kid_entry:
  "x < length st \<Longrightarrow> i < length (cell_entries (st ! x)) \<Longrightarrow> cell_entries (st ! x) ! i = (n, STree b)
     \<Longrightarrow> kid st x i = Some b"
  by (simp add: kid_def)

lemma kid_member:
  assumes "x < length st" and "(n, STree b) \<in> set (cell_entries (st ! x))"
  shows "\<exists>i. kid st x i = Some b"
  using assms kid_entry by (metis in_set_conv_nth)

lemma kid_append_cell [simp]: "kid (st @ [default_cell]) x i = kid st x i"
  by (auto simp: kid_def nth_append default_cell_def less_Suc_eq)

text \<open>Updates that leave a cell's entries alone, and one more entry in a cell.\<close>

lemma kid_same_entries:
  "a < length st \<Longrightarrow> cell_entries c = cell_entries (st ! a) \<Longrightarrow> kid (st[a := c]) x i = kid st x i"
  by (auto simp: kid_def nth_list_update)

lemma kid_record:
  assumes "a < length st"
  shows "kid (record_value a name v st) x i =
    (if x = a \<and> i = length (cell_entries (st ! a)) then (case v of STree b \<Rightarrow> Some b | _ \<Rightarrow> None) else kid st x i)"
  using assms by (auto simp: kid_def record_value_def nth_list_update nth_append less_Suc_eq)

lemma length_record [simp]: "length (record_value a name v st) = length st"
  by (simp add: record_value_def)

lemma record_Nil [simp]: "record_value a name v st = [] \<longleftrightarrow> st = []"
  by (simp add: record_value_def)

lemma store_ok_same_entries:
  "store_ok st \<Longrightarrow> a < length st \<Longrightarrow> cell_entries c = cell_entries (st ! a) \<Longrightarrow> store_ok (st[a := c])"
  unfolding store_ok_def by (simp add: kid_same_entries)

lemma store_ok_record_leaf:
  "store_ok st \<Longrightarrow> a < length st \<Longrightarrow> (\<And>b. v \<noteq> STree b) \<Longrightarrow> store_ok (record_value a name v st)"
  unfolding store_ok_def
  by (cases v) (auto simp: kid_record split: if_splits)

lemma store_ok_subtree:
  assumes "store_ok st" and "a < length st"
  shows "store_ok (record_value a name (STree (length st)) (st @ [default_cell]))"
proof -
  have k: "kid (record_value a name (STree (length st)) (st @ [default_cell])) x i =
      (if x = a \<and> i = length (cell_entries (st ! a)) then Some (length st) else kid st x i)" for x i
    using assms(2) by (simp add: kid_record nth_append)
  have lt: "kid st x i \<noteq> Some (length st)" for x i
    using store_okD(3) [OF assms(1)] by blast
  show ?thesis
  proof (rule store_okI)
    show "x < b \<and> b < length (record_value a name (STree (length st)) (st @ [default_cell]))"
      if "kid (record_value a name (STree (length st)) (st @ [default_cell])) x i = Some b" for x i b
      using that assms(2) store_okD(2,3) [OF assms(1), of x i b] unfolding k by (auto split: if_splits)
    show "x = y \<and> i = j"
      if "kid (record_value a name (STree (length st)) (st @ [default_cell])) x i = Some b"
        and "kid (record_value a name (STree (length st)) (st @ [default_cell])) y j = Some b" for x y i j b
      using that lt store_okD(4) [OF assms(1), of x i b y j] unfolding k by (auto split: if_splits)
  qed (use assms(2) in auto)
qed

subsection \<open>The walk ends\<close>

definition value_tree :: "(nat \<Rightarrow> frame_fields) \<Rightarrow> stored_value \<Rightarrow> field_value" where
  "value_tree t v =
     (case v of SUInt u \<Rightarrow> UInt u | SStr s \<Rightarrow> Str s | SBytes b \<Rightarrow> Bytes b | STree b \<Rightarrow> Tree (t b))"

definition cell_tree :: "(nat \<Rightarrow> frame_fields) \<Rightarrow> cell \<Rightarrow> frame_fields" where
  "cell_tree t c =
     FrameFields (map (\<lambda>(n, v). (n, value_tree t v)) (cell_entries c)) (cell_protocol c) (cell_info c)
       (cell_malformed c)"

lemma those_map_Some: "(\<And>x. x \<in> set xs \<Longrightarrow> f x = Some (g x)) \<Longrightarrow> those (map f xs) = Some (map g xs)"
  by (induction xs) auto

definition tree_of :: "cell_store \<Rightarrow> nat \<Rightarrow> frame_fields" where
  "tree_of st a = the (resolve (length st) st a)"

lemma resolve_step:
  assumes "\<And>n b. (n, STree b) \<in> set (cell_entries (st ! a)) \<Longrightarrow> resolve k st b = Some (t b)"
  shows "resolve (Suc k) st a = Some (cell_tree t (st ! a))"
proof -
  have "those (map (\<lambda>(name, v). map_option (Pair name)
              (case v of SUInt u \<Rightarrow> Some (UInt u) | SStr s \<Rightarrow> Some (Str s) | SBytes b \<Rightarrow> Some (Bytes b)
               | STree b \<Rightarrow> map_option Tree (resolve k st b))) (cell_entries (st ! a)))
      = Some (map (\<lambda>(n, v). (n, value_tree t v)) (cell_entries (st ! a)))"
    by (rule those_map_Some) (auto simp: value_tree_def assms split: stored_value.splits)
  then show ?thesis by (simp add: cell_tree_def)
qed

declare resolve.simps(2) [simp del]

lemma resolve_enough:
  assumes "store_ok st"
  shows "a < length st \<Longrightarrow> length st \<le> a + n \<Longrightarrow> \<exists>t. resolve n st a = Some t"
proof (induction n arbitrary: a)
  case (Suc n)
  have "\<exists>t. resolve n st b = Some t" if mem: "(m, STree b) \<in> set (cell_entries (st ! a))" for m b
  proof -
    obtain i where "kid st a i = Some b" using kid_member [OF Suc.prems(1) mem] by blast
    then have "a < b" "b < length st" using store_okD(2,3) [OF assms] by auto
    then show ?thesis using Suc.IH [of b] Suc.prems(2) by simp
  qed
  then have "resolve n st b = Some (the (resolve n st b))"
    if "(m, STree b) \<in> set (cell_entries (st ! a))" for m b
    using that by fastforce
  then show ?case using resolve_step [of st a n "\<lambda>b. the (resolve n st b)"] by blast
qed simp

lemma resolve_mono: "resolve n st a = Some t \<Longrightarrow> n \<le> m \<Longrightarrow> resolve m st a = Some t"
proof (induction n arbitrary: m a t)
  case (Suc n)
  obtain k where m: "m = Suc k" and k: "n \<le> k" using Suc.prems(2) by (cases m) auto
  have "\<exists>t. resolve n st b = Some t" if "(nm, STree b) \<in> set (cell_entries (st ! a))" for nm b
  proof (rule ccontr)
    assume "\<not> ?thesis"
    then have "None \<in> set (map (\<lambda>(name, v). map_option (Pair name)
              (case v of SUInt u \<Rightarrow> Some (UInt u) | SStr s \<Rightarrow> Some (Str s) | SBytes b \<Rightarrow> Some (Bytes b)
               | STree b \<Rightarrow> map_option Tree (resolve n st b))) (cell_entries (st ! a)))"
      using that by force
    moreover have "None \<in> set xs \<Longrightarrow> those xs = None" for xs :: "(string \<times> field_value) option list"
      by (induction xs) (auto split: option.splits)
    ultimately show False using Suc.prems(1) by (simp add: resolve.simps(2) split: option.splits)
  qed
  then have n: "resolve n st b = Some (the (resolve n st b))"
    if "(nm, STree b) \<in> set (cell_entries (st ! a))" for nm b
    using that by fastforce
  then have "resolve k st b = Some (the (resolve n st b))"
    if "(nm, STree b) \<in> set (cell_entries (st ! a))" for nm b
    using that Suc.IH k by blast
  then have "resolve (Suc k) st a = Some (cell_tree (\<lambda>b. the (resolve n st b)) (st ! a))"
    by (rule resolve_step)
  moreover have "resolve (Suc n) st a = Some (cell_tree (\<lambda>b. the (resolve n st b)) (st ! a))"
    using n by (rule resolve_step)
  ultimately show ?case using Suc.prems(1) m by simp
qed simp

lemma resolve_tree:
  assumes "store_ok st" and "a < length st"
  shows "resolve (length st) st a = Some (tree_of st a)"
  using resolve_enough [OF assms, of "length st"] by (auto simp: tree_of_def)

lemma tree_of_eq:
  assumes "store_ok st" and "a < length st"
  shows "tree_of st a = cell_tree (tree_of st) (st ! a)"
proof -
  obtain k where k: "length st = Suc k" using assms(2) by (cases "length st") auto
  have "resolve k st b = Some (tree_of st b)" if mem: "(nm, STree b) \<in> set (cell_entries (st ! a))" for nm b
  proof -
    have "a < b" "b < length st" using kid_member [OF assms(2) mem] store_okD(2,3) [OF assms(1)] by blast+
    then obtain t where "resolve k st b = Some t" using resolve_enough [OF assms(1), of b k] k by auto
    then show ?thesis using resolve_mono [of k st b t "length st"] k by (simp add: tree_of_def)
  qed
  then have "resolve (Suc k) st a = Some (cell_tree (tree_of st) (st ! a))" by (rule resolve_step)
  then show ?thesis using k by (simp add: tree_of_def)
qed

subsection \<open>Paths\<close>

fun follow :: "cell_store \<Rightarrow> nat \<Rightarrow> nat list \<Rightarrow> nat option" where
  "follow st x [] = (if x < length st then Some x else None)"
| "follow st x (i # p) = (case kid st x i of None \<Rightarrow> None | Some b \<Rightarrow> follow st b p)"

lemma follow_snoc:
  assumes "store_ok st"
  shows "follow st x (p @ [i]) = (case follow st x p of None \<Rightarrow> None | Some y \<Rightarrow> kid st y i)"
proof (induction p arbitrary: x)
  case Nil
  show ?case
  proof (cases "kid st x i")
    case None
    then show ?thesis by simp
  next
    case (Some b)
    then have "x < length st" by (simp add: kid_Some)
    then show ?thesis using Some store_okD(3) [OF assms Some] by simp
  qed
next
  case (Cons j p)
  then show ?case by (simp split: option.splits)
qed

lemma follow_le: "store_ok st \<Longrightarrow> follow st x p = Some a \<Longrightarrow> x \<le> a \<and> a < length st \<and> (p \<noteq> [] \<longrightarrow> x < a)"
proof (induction p arbitrary: x)
  case (Cons i p)
  then obtain b where b: "kid st x i = Some b" "follow st b p = Some a" by (auto split: option.splits)
  then have "x < b" using Cons.prems(1) store_okD(2) by blast
  then show ?case using Cons.IH [OF Cons.prems(1) b(2)] by auto
qed (auto split: if_splits)

lemma follow_unique:
  assumes "store_ok st"
  shows "follow st x p = Some a \<Longrightarrow> follow st x q = Some a \<Longrightarrow> p = q"
proof (induction p arbitrary: a q rule: rev_induct)
  case Nil
  then show ?case using follow_le [OF assms, of x q a] by (auto split: if_splits)
next
  case (snoc i p)
  have "q \<noteq> []" using snoc.prems follow_le [OF assms, of x "p @ [i]" a] by (auto split: if_splits)
  then obtain q' j where q: "q = q' @ [j]" by (cases q rule: rev_cases) auto
  obtain y where y: "follow st x p = Some y" "kid st y i = Some a"
    using snoc.prems(1) by (auto simp: follow_snoc [OF assms] split: option.splits)
  obtain z where z: "follow st x q' = Some z" "kid st z j = Some a"
    using snoc.prems(2) q by (auto simp: follow_snoc [OF assms] split: option.splits)
  have "y = z" "i = j" using store_okD(4) [OF assms y(2) z(2)] by auto
  then show ?case using snoc.IH [OF y(1), of q'] z(1) q by simp
qed

text \<open>An update of a cell that cannot be reached changes nothing.\<close>

lemma tree_of_unreached:
  assumes "store_ok st" and "store_ok (st[a := c])"
  shows "x < length st \<Longrightarrow> \<forall>q. follow st x q \<noteq> Some a \<Longrightarrow> tree_of (st[a := c]) x = tree_of st x"
proof (induction "length st - x" arbitrary: x rule: less_induct)
  case less
  have ne: "x \<noteq> a" using less.prems spec [OF less.prems(2), of "[]"] by auto
  have "tree_of (st[a := c]) b = tree_of st b" if mem: "(n, STree b) \<in> set (cell_entries (st ! x))" for n b
  proof -
    obtain i where i: "kid st x i = Some b" using kid_member [OF less.prems(1) mem] by blast
    then have "x < b" "b < length st" using store_okD(2,3) [OF assms(1)] by auto
    moreover have "\<forall>q. follow st b q \<noteq> Some a"
    proof
      fix q
      show "follow st b q \<noteq> Some a" using spec [OF less.prems(2), of "i # q"] i by simp
    qed
    ultimately show ?thesis using less.hyps [of b] less.prems(1) by simp
  qed
  then have "cell_tree (tree_of (st[a := c])) (st ! x) = cell_tree (tree_of st) (st ! x)"
    by (auto simp: cell_tree_def value_tree_def split: stored_value.splits)
  then show ?case
    using tree_of_eq [OF assms(1) less.prems(1)] tree_of_eq [OF assms(2), of x] less.prems(1) ne by simp
qed

subsection \<open>Trees as values\<close>

fun modify_at :: "nat list \<Rightarrow> (frame_fields \<Rightarrow> frame_fields) \<Rightarrow> frame_fields \<Rightarrow> frame_fields" where
  "modify_at [] f t = f t"
| "modify_at (i # p) f (FrameFields es pr info mal) =
     FrameFields
       (if i < length es
        then es[i := (fst (es ! i), case snd (es ! i) of Tree c \<Rightarrow> Tree (modify_at p f c) | v \<Rightarrow> v)] else es)
       pr info mal"

fun entries_at :: "nat list \<Rightarrow> frame_fields \<Rightarrow> nat" where
  "entries_at [] t = length (ff_entries t)"
| "entries_at (i # p) t =
     (if i < length (ff_entries t)
      then (case snd (ff_entries t ! i) of Tree c \<Rightarrow> entries_at p c | _ \<Rightarrow> 0) else 0)"

lemma cell_tree_entries [simp]: "length (ff_entries (cell_tree t c)) = length (cell_entries c)"
  by (simp add: cell_tree_def)

lemma entries_at_follow:
  assumes "store_ok st"
  shows "follow st x p = Some a \<Longrightarrow> entries_at p (tree_of st x) = length (cell_entries (st ! a))"
proof (induction p arbitrary: x)
  case Nil
  then show ?case using tree_of_eq [OF assms, of x] by (auto split: if_splits)
next
  case (Cons i p)
  then obtain b where b: "kid st x i = Some b" "follow st b p = Some a" by (auto split: option.splits)
  have "tree_of st x = cell_tree (tree_of st) (st ! x)" using b(1) assms by (simp add: kid_Some tree_of_eq)
  moreover have "snd (ff_entries (cell_tree (tree_of st) (st ! x)) ! i) = Tree (tree_of st b)"
    using b(1) by (simp add: kid_Some cell_tree_def case_prod_beta value_tree_def)
  ultimately show ?case using b Cons.IH [OF b(2)] by (simp add: kid_Some)
qed

text \<open>The update of one cell is the update of the tree at the path to it.\<close>

lemma tree_of_update:
  assumes ok: "store_ok st" and ok': "store_ok (st[a := c])"
    and f: "cell_tree (tree_of st) c = f (cell_tree (tree_of st) (st ! a))"
  shows "follow st x p = Some a \<Longrightarrow> tree_of (st[a := c]) x = modify_at p f (tree_of st x)"
proof (induction p arbitrary: x)
  case Nil
  then have a: "x = a" "a < length st" by (auto split: if_splits)
  have "tree_of (st[a := c]) b = tree_of st b" if "(n, STree b) \<in> set (cell_entries c)" for n b
  proof -
    have mem: "(n, STree b) \<in> set (cell_entries (st[a := c] ! a))" using that a by simp
    obtain i where "kid (st[a := c]) a i = Some b" using kid_member [OF _ mem] a(2) by auto
    then have "a < b" "b < length st" using store_okD(2,3) [OF ok', of a i b] by auto
    then show ?thesis using tree_of_unreached [OF ok ok', of b] follow_le [OF ok, of b _ a] by fastforce
  qed
  then have "cell_tree (tree_of (st[a := c])) c = cell_tree (tree_of st) c"
    by (auto simp: cell_tree_def value_tree_def split: stored_value.splits)
  then show ?case using a f tree_of_eq [OF ok, of a] tree_of_eq [OF ok', of a] by simp
next
  case (Cons i p)
  then obtain b where b: "kid st x i = Some b" "follow st b p = Some a" by (auto split: option.splits)
  have x: "x < length st" "x \<noteq> a" "b < length st"
    using b follow_le [OF ok b(2)] store_okD(2,3) [OF ok b(1)] by (auto simp: kid_Some)
  let ?es = "cell_entries (st ! x)" and ?t' = "tree_of (st[a := c])"
  have "value_tree ?t' (snd (?es ! j)) =
      (if j = i then Tree (modify_at p f (tree_of st b)) else value_tree (tree_of st) (snd (?es ! j)))"
    if j: "j < length ?es" for j
  proof (cases "j = i")
    case True
    then show ?thesis using b(1) Cons.IH [OF b(2)] by (simp add: kid_Some value_tree_def)
  next
    case False
    have "?t' d = tree_of st d" if d: "snd (?es ! j) = STree d" for d
    proof -
      have kd: "kid st x j = Some d" using d j x(1) by (simp add: kid_Some)
      have "follow st d q \<noteq> Some a" for q
        using follow_unique [OF ok, of x "i # p" a "j # q"] False kd b by auto
      then show ?thesis using tree_of_unreached [OF ok ok'] store_okD(3) [OF ok kd] by blast
    qed
    then show ?thesis using False by (auto simp: value_tree_def split: stored_value.splits)
  qed
  moreover have "i < length ?es" "snd (?es ! i) = STree b" using b(1) by (simp_all add: kid_Some)
  ultimately have "cell_tree ?t' (st ! x) = modify_at (i # p) f (cell_tree (tree_of st) (st ! x))"
    by (auto simp: cell_tree_def case_prod_beta value_tree_def nth_list_update intro!: nth_equalityI)
  then show ?case using tree_of_eq [OF ok x(1)] tree_of_eq [OF ok', of x] x(1,2) by simp
qed

subsection \<open>The store refines the tree\<close>

text \<open>
  The specification of a dissection: the recorded fields are one value, a handle is the path to a subtree of it, and
  an operation changes the value at the handle's path.
\<close>

record spec_state =
  sp_tree :: frame_fields
  sp_handles :: "nat list list"

definition spec_new :: spec_state where
  "spec_new = \<lparr>sp_tree = default_fields, sp_handles = [[]]\<rparr>"

fun add_entry :: "string \<times> field_value \<Rightarrow> frame_fields \<Rightarrow> frame_fields" where
  "add_entry e (FrameFields es pr info mal) = FrameFields (es @ [e]) pr info mal"

fun add_malformed :: "string \<Rightarrow> frame_fields \<Rightarrow> frame_fields" where
  "add_malformed m (FrameFields es pr info mal) = FrameFields es pr info (mal @ [m])"

fun set_protocol :: "string \<Rightarrow> frame_fields \<Rightarrow> frame_fields" where
  "set_protocol v (FrameFields es pr info mal) = FrameFields es (Some v) info mal"

fun set_info :: "string \<Rightarrow> frame_fields \<Rightarrow> frame_fields" where
  "set_info v (FrameFields es pr info mal) = FrameFields es pr (Some v) mal"

definition spec_update :: "nat list \<Rightarrow> (frame_fields \<Rightarrow> frame_fields) \<Rightarrow> spec_state \<Rightarrow> spec_state" where
  "spec_update p f t = t\<lparr>sp_tree := modify_at p f (sp_tree t)\<rparr>"

definition spec_handle :: "nat list \<Rightarrow> spec_state \<Rightarrow> spec_state" where
  "spec_handle p t = t\<lparr>sp_handles := sp_handles t @ [p]\<rparr>"

definition spec_add :: "nat list \<Rightarrow> lua_arg list \<Rightarrow> bool \<Rightarrow> spec_state \<Rightarrow> panic + spec_state" where
  "spec_add p args le t =
     (case args of
        [] \<Rightarrow> Inr t
      | ArgField f # rest \<Rightarrow>
          map_sum id (\<lambda>v. spec_handle p (spec_update p (add_entry (fd_name f, value_tree (\<lambda>_. default_fields) v)) t))
            (field_call_value le (fd_kind f) rest)
      | ArgTable (Some name) # rest \<Rightarrow>
          Inr (spec_handle (p @ [entries_at p (sp_tree t)]) (spec_update p (add_entry (name, Tree default_fields)) t))
      | _ \<Rightarrow> Inr (spec_handle p t))"

fun spec_step :: "tree_op \<Rightarrow> spec_state \<Rightarrow> panic + spec_state" where
  "spec_step (Add h args le) t =
     (if h < length (sp_handles t) then spec_add (sp_handles t ! h) args le t else Inr t)"
| "spec_step (SetFlag h) t = Inr (if h < length (sp_handles t) then spec_handle (sp_handles t ! h) t else t)"
| "spec_step (ExpertInfo h msg) t =
     Inr (if h < length (sp_handles t)
      then spec_update (sp_handles t ! h) (add_malformed (case msg of None \<Rightarrow> [] | Some m \<Rightarrow> m)) t else t)"
| "spec_step (SetProtocol v) t = Inr (spec_update [] (set_protocol v) t)"
| "spec_step (SetInfo v) t = Inr (spec_update [] (set_info v) t)"
| "spec_step (ReadUint r le) t = map_sum id (\<lambda>_. t) (tvb_bytes r)"
| "spec_step (ReadRaw r) t = map_sum id (\<lambda>_. t) (tvb_bytes r)"

definition spec_run :: "tree_op calls \<Rightarrow> panic + spec_state" where
  "spec_run trace = run_calls spec_step trace spec_new"

definition call_rel :: "call_state \<Rightarrow> spec_state \<Rightarrow> bool" where
  "call_rel s t \<longleftrightarrow> store_ok (cs_store s) \<and> tree_of (cs_store s) 0 = sp_tree t
     \<and> list_all2 (\<lambda>a p. follow (cs_store s) 0 p = Some a) (cs_handles s) (sp_handles t)"

lemma follow_mono:
  assumes "\<And>x i b. kid st x i = Some b \<Longrightarrow> kid st' x i = Some b" and "length st \<le> length st'"
  shows "follow st x p = Some a \<Longrightarrow> follow st' x p = Some a"
  using assms by (induction p arbitrary: x) (auto split: option.splits if_splits)

lemma call_rel_handle:
  assumes "call_rel s t" and "h < length (cs_handles s)"
  shows "h < length (sp_handles t)" and "follow (cs_store s) 0 (sp_handles t ! h) = Some (cs_handles s ! h)"
    and "cs_handles s ! h < length (cs_store s)"
  using assms follow_le by (auto simp: call_rel_def list_all2_conv_all_nth)

lemma call_rel_new_handle:
  assumes "call_rel s t" and "follow (cs_store s) 0 p = Some a"
  shows "call_rel (s\<lparr>cs_handles := cs_handles s @ [a]\<rparr>) (spec_handle p t)"
  using assms by (auto simp: call_rel_def spec_handle_def intro: list_all2_appendI)

text \<open>One cell changes, with what it refers to kept.\<close>

lemma call_rel_update:
  assumes rel: "call_rel s t" and p: "follow (cs_store s) 0 p = Some a"
    and ok: "store_ok ((cs_store s)[a := c])"
    and kids: "\<And>x i b. kid (cs_store s) x i = Some b \<Longrightarrow> kid ((cs_store s)[a := c]) x i = Some b"
    and f: "cell_tree (tree_of (cs_store s)) c = f (cell_tree (tree_of (cs_store s)) (cs_store s ! a))"
  shows "call_rel (s\<lparr>cs_store := (cs_store s)[a := c]\<rparr>) (spec_update p f t)"
proof -
  have "tree_of ((cs_store s)[a := c]) 0 = modify_at p f (sp_tree t)"
    using rel tree_of_update [where f = f, OF _ ok f p] by (simp add: call_rel_def)
  moreover have "list_all2 (\<lambda>a' p. follow ((cs_store s)[a := c]) 0 p = Some a') (cs_handles s) (sp_handles t)"
    using rel unfolding call_rel_def by (auto elim!: list_all2_mono intro: follow_mono [OF kids])
  ultimately show ?thesis using ok by (simp add: call_rel_def spec_update_def)
qed

lemma call_rel_same_entries:
  assumes rel: "call_rel s t" and p: "follow (cs_store s) 0 p = Some a"
    and es: "cell_entries c = cell_entries (cs_store s ! a)"
    and f: "cell_tree (tree_of (cs_store s)) c = f (cell_tree (tree_of (cs_store s)) (cs_store s ! a))"
  shows "call_rel (s\<lparr>cs_store := (cs_store s)[a := c]\<rparr>) (spec_update p f t)"
proof -
  have a: "a < length (cs_store s)" and ok: "store_ok (cs_store s)"
    using rel p follow_le by (auto simp: call_rel_def)
  show ?thesis
    by (rule call_rel_update [where f = f, OF rel p store_ok_same_entries [OF ok a es] _ f])
      (simp add: kid_same_entries [OF a es])
qed

lemma call_rel_record_leaf:
  assumes rel: "call_rel s t" and p: "follow (cs_store s) 0 p = Some a" and v: "\<And>b. v \<noteq> STree b"
  shows "call_rel (s\<lparr>cs_store := record_value a name v (cs_store s)\<rparr>)
    (spec_update p (add_entry (name, value_tree (\<lambda>_. default_fields) v)) t)"
proof -
  have a: "a < length (cs_store s)" and ok: "store_ok (cs_store s)"
    using rel p follow_le by (auto simp: call_rel_def)
  have "value_tree (tree_of (cs_store s)) v = value_tree (\<lambda>_. default_fields) v"
    using v by (auto simp: value_tree_def split: stored_value.splits)
  then show ?thesis
    unfolding record_value_def
    using store_ok_record_leaf [OF ok a v, of name] kid_record [OF a, of name v]
    by (intro call_rel_update [OF rel p]) (auto simp: record_value_def cell_tree_def kid_Some)
qed

text \<open>A new cell changes nothing until it is referred to, and is the empty tree.\<close>

lemma store_ok_append_cell: "store_ok st \<Longrightarrow> store_ok (st @ [default_cell])"
  unfolding store_ok_def by (simp add: less_SucI)

lemma tree_of_append_cell:
  assumes "store_ok st"
  shows "x < length st \<Longrightarrow> tree_of (st @ [default_cell]) x = tree_of st x"
proof (induction "length st - x" arbitrary: x rule: less_induct)
  case less
  have "tree_of (st @ [default_cell]) b = tree_of st b"
    if mem: "(n, STree b) \<in> set (cell_entries (st ! x))" for n b
  proof -
    obtain i where "kid st x i = Some b" using kid_member [OF less.prems(1) mem] by blast
    then have "x < b" "b < length st" using store_okD(2,3) [OF assms] by auto
    then show ?thesis using less.hyps [of b] less.prems(1) by simp
  qed
  then have "cell_tree (tree_of (st @ [default_cell])) (st ! x) = cell_tree (tree_of st) (st ! x)"
    by (auto simp: cell_tree_def value_tree_def split: stored_value.splits)
  then show ?case
    using tree_of_eq [OF assms less.prems(1)] tree_of_eq [OF store_ok_append_cell [OF assms], of x] less.prems(1)
    by (simp add: nth_append)
qed

lemma cell_tree_default: "cell_tree t default_cell = default_fields"
  by (simp add: cell_tree_def default_cell_def default_fields_def)

lemma tree_of_new_cell: "store_ok st \<Longrightarrow> tree_of (st @ [default_cell]) (length st) = default_fields"
  using tree_of_eq [OF store_ok_append_cell, of st "length st"] by (simp add: cell_tree_default)

lemma call_rel_append_cell:
  assumes "call_rel s t"
  shows "call_rel (s\<lparr>cs_store := cs_store s @ [default_cell]\<rparr>) t"
proof -
  have ok: "store_ok (cs_store s)" using assms by (simp add: call_rel_def)
  have "follow (cs_store s) 0 p = Some a \<Longrightarrow> follow (cs_store s @ [default_cell]) 0 p = Some a" for p a
    by (rule follow_mono) auto
  then show ?thesis
    using assms tree_of_append_cell [OF ok, of 0] store_okD(1) [OF ok] store_ok_append_cell [OF ok]
    by (auto simp: call_rel_def elim!: list_all2_mono)
qed

lemma call_rel_subtree:
  fixes name :: string
  assumes rel: "call_rel s t" and p: "follow (cs_store s) 0 p = Some a"
  defines "st' \<equiv> record_value a name (STree (length (cs_store s))) (cs_store s @ [default_cell])"
  shows "call_rel (s\<lparr>cs_store := st', cs_handles := cs_handles s @ [length (cs_store s)]\<rparr>)
    (spec_handle (p @ [entries_at p (sp_tree t)]) (spec_update p (add_entry (name, Tree default_fields)) t))"
proof -
  let ?st = "cs_store s @ [default_cell]" and ?n = "length (cs_store s)"
  let ?s = "s\<lparr>cs_store := ?st\<rparr>"
  have ok: "store_ok (cs_store s)" and a: "a < ?n" using rel p follow_le by (auto simp: call_rel_def)
  have rel1: "call_rel ?s t" by (rule call_rel_append_cell [OF rel])
  have p1: "follow ?st 0 p = Some a" by (rule follow_mono [OF _ _ p]) auto
  have ok': "store_ok st'" unfolding st'_def by (rule store_ok_subtree [OF ok a])
  have kids: "kid st' x i = (if x = a \<and> i = length (cell_entries (cs_store s ! a)) then Some ?n
      else kid (cs_store s) x i)" for x i
    using a by (simp add: st'_def kid_record nth_append)
  have keep: "kid st' x i = Some b" if "kid (cs_store s) x i = Some b" for x i b
  proof -
    have "\<not> (x = a \<and> i = length (cell_entries (cs_store s ! a)))" using that by (auto simp: kid_Some)
    then show ?thesis using kids that by auto
  qed
  have rel2: "call_rel (?s\<lparr>cs_store := st'\<rparr>) (spec_update p (add_entry (name, Tree default_fields)) t)"
  proof -
    let ?c = "(?st ! a)\<lparr>cell_entries := cell_entries (?st ! a) @ [(name, STree ?n)]\<rparr>"
    have st': "st' = ?st[a := ?c]" by (simp add: st'_def record_value_def)
    have f: "cell_tree (tree_of ?st) ?c = add_entry (name, Tree default_fields) (cell_tree (tree_of ?st) (?st ! a))"
      using tree_of_new_cell [OF ok] by (simp add: cell_tree_def value_tree_def)
    have k: "kid ?st x i = Some b \<Longrightarrow> kid st' x i = Some b" for x i b using keep by simp
    show ?thesis
      using call_rel_update [of ?s t p a ?c "add_entry (name, Tree default_fields)"] rel1 p1 ok' k f
      unfolding st' by simp
  qed
  have "entries_at p (sp_tree t) = length (cell_entries (cs_store s ! a))"
    using rel entries_at_follow [OF ok p] by (simp add: call_rel_def)
  moreover have "follow st' 0 p = Some a"
    by (rule follow_mono [OF keep _ p]) (auto simp: st'_def)
  ultimately have "follow st' 0 (p @ [entries_at p (sp_tree t)]) = Some ?n"
    using follow_snoc [OF ok', of 0 p] kids by simp
  then show ?thesis using call_rel_new_handle [OF rel2] by simp
qed

text \<open>Every value a field call records is a leaf.\<close>

lemma value_from_lua_leaf: "value_from_lua x = Some v \<Longrightarrow> v \<noteq> STree b"
  by (cases x) auto

lemma value_from_tvbrange_leaf: "value_from_tvbrange r k = Inr v \<Longrightarrow> v \<noteq> STree b"
  by (cases k) (auto simp: uint_or_zero_def map_sum_def split: sum.splits)

lemma value_from_tvbrange_le_leaf: "value_from_tvbrange_le r k = Inr v \<Longrightarrow> v \<noteq> STree b"
  by (cases k) (auto simp: uint_or_zero_def map_sum_def split: sum.splits)

lemma lua_or_zero_leaf: "lua_or_zero x \<noteq> STree b"
  by (auto simp: lua_or_zero_def dest: value_from_lua_leaf split: option.splits)

lemmas leaf_values = value_from_lua_leaf value_from_tvbrange_leaf value_from_tvbrange_le_leaf

lemma field_call_value_leaf: "field_call_value le k args = Inr v \<Longrightarrow> v \<noteq> STree b"
  by (cases "(le, k, args)" rule: field_call_value.cases)
    (auto simp: lua_or_zero_leaf dest: leaf_values split: if_splits lua_arg.splits option.splits)

text \<open>Two machines that run the same operations in lock step, panics included.\<close>

locale lockstep =
  fixes step :: "'c \<Rightarrow> 's \<Rightarrow> 'p + 's"
    and spec :: "'c \<Rightarrow> 't \<Rightarrow> 'p + 't"
    and rel :: "'s \<Rightarrow> 't \<Rightarrow> bool"
    and s0 :: 's
    and t0 :: 't
  assumes start: "rel s0 t0"
    and simulates: "rel s t \<Longrightarrow> rel_sum (=) rel (step c s) (spec c t)"
begin

lemma calls_simulate: "rel s t \<Longrightarrow> rel_sum (=) rel (run_calls step cs s) (run_calls spec cs t)"
proof (induction cs arbitrary: s t)
  case (Cons bc cs)
  obtain caught c where bc: "bc = (caught, c)" by (rule prod.exhaust)
  show ?case using simulates [OF Cons.prems, of c] Cons.IH Cons.prems unfolding bc by (cases rule: rel_sum.cases) auto
qed simp

lemma run_simulates: "rel_sum (=) rel (run_calls step cs s0) (run_calls spec cs t0)"
  by (rule calls_simulate [OF start])

end

lemma call_rel_add:
  assumes "call_rel s t" and "h < length (cs_handles s)"
  shows "rel_sum (=) call_rel (tree_step (Add h args le) s) (spec_step (Add h args le) t)"
proof -
  note hs = call_rel_handle [OF assms]
  note same = call_rel_new_handle [OF assms(1) hs(2)]
  show ?thesis
  proof (cases args)
    case (Cons a rest)
    show ?thesis
    proof (cases a)
      case (ArgField f)
      show ?thesis
      proof (cases "field_call_value le (fd_kind f) rest")
        case (Inr v)
        let ?s = "s\<lparr>cs_store := record_value (cs_handles s ! h) (fd_name f) v (cs_store s)\<rparr>"
        have r: "call_rel ?s (spec_update (sp_handles t ! h)
            (add_entry (fd_name f, value_tree (\<lambda>_. default_fields) v)) t)"
          using call_rel_record_leaf [OF assms(1) hs(2)] field_call_value_leaf [OF Inr] by blast
        have "follow (cs_store ?s) 0 (sp_handles t ! h) = Some (cs_handles s ! h)"
          using r hs(1) assms(2) by (auto simp: call_rel_def spec_update_def list_all2_conv_all_nth)
        from call_rel_new_handle [OF r this] show ?thesis
          using assms(2) hs(1) Inr by (simp add: Cons ArgField spec_add_def)
      qed (use assms hs(1) in \<open>simp add: Cons ArgField spec_add_def\<close>)
    next
      case (ArgTable name)
      then show ?thesis
        using assms(2) hs(1) same call_rel_subtree [OF assms(1) hs(2)]
        by (cases name) (simp_all add: Cons spec_add_def Let_def)
    qed (use assms(2) hs(1) same in \<open>simp_all add: Cons spec_add_def\<close>)
  qed (use assms hs(1) in \<open>simp add: spec_add_def\<close>)
qed

lemma follow_root: "call_rel s t \<Longrightarrow> follow (cs_store s) 0 [] = Some 0"
  using store_okD(1) by (fastforce simp: call_rel_def)

lemma call_rel_step:
  assumes "call_rel s t"
  shows "rel_sum (=) call_rel (tree_step c s) (spec_step c t)"
proof -
  have len: "length (cs_handles s) = length (sp_handles t)"
    using assms by (auto simp: call_rel_def dest: list_all2_lengthD)
  show ?thesis
  proof (cases c)
    case (Add h args le)
    then show ?thesis using assms call_rel_add [OF assms] len by (cases "h < length (cs_handles s)") auto
  next
    case (SetFlag h)
    then show ?thesis
      using assms len call_rel_new_handle [OF assms call_rel_handle(2) [OF assms]] by simp
  next
    case (ExpertInfo h msg)
    then show ?thesis
      using assms len call_rel_handle(2) [OF assms, of h]
      by (auto simp: add_expert_info_def cell_tree_def intro!: call_rel_same_entries)
  next
    case (SetProtocol v)
    then show ?thesis
      using assms follow_root [OF assms]
      by (auto simp: set_cols_protocol_def cell_tree_def intro!: call_rel_same_entries)
  next
    case (SetInfo v)
    then show ?thesis
      using assms follow_root [OF assms]
      by (auto simp: set_cols_info_def cell_tree_def intro!: call_rel_same_entries)
  next
    case (ReadUint r le)
    then show ?thesis using assms by (cases "tvb_bytes r") (simp_all add: tvb_uint_def)
  next
    case (ReadRaw r)
    then show ?thesis using assms by (cases "tvb_bytes r") (simp_all add: tvb_raw_def)
  qed
qed

lemma store_ok_new: "store_ok [default_cell]"
  by (rule store_okI) (auto simp: kid_Some default_cell_def)

lemma call_rel_new: "call_rel new_call spec_new"
  using store_ok_new tree_of_eq [OF store_ok_new, of 0]
  by (simp add: call_rel_def new_call_def spec_new_def cell_tree_default)

interpretation tree_calls: lockstep tree_step spec_step call_rel new_call spec_new
  by unfold_locales (auto intro: call_rel_new call_rel_step)

lemma run_trace_rel: "rel_sum (=) call_rel (run_trace cs new_call) (spec_run cs)"
  unfolding run_trace_def spec_run_def by (rule tree_calls.run_simulates)

lemma run_trace_ok:
  assumes "run_trace cs new_call = Inr s"
  obtains t where "spec_run cs = Inr t" "call_rel s t"
  using run_trace_rel [of cs] assms by (cases "spec_run cs") auto

lemma call_fields_spec: "call_fields cs = map_sum id (Some \<circ> sp_tree) (spec_run cs)"
proof (cases "run_trace cs new_call")
  case (Inl p)
  then show ?thesis using run_trace_rel [of cs] by (auto simp: call_fields_def elim: rel_sum.cases)
next
  case (Inr s)
  then obtain t where t: "spec_run cs = Inr t" "call_rel s t" by (rule run_trace_ok)
  then have "resolve (length (cs_store s)) (cs_store s) 0 = Some (sp_tree t)"
    using resolve_tree [of "cs_store s" 0] store_okD(1) by (fastforce simp: call_rel_def)
  then show ?thesis using Inr t(1) by (simp add: call_fields_def)
qed

text \<open>A call allocates at most one cell per method call.\<close>

lemma dispatch_add_length:
  "dispatch_add a args le st = Inr (r, st') \<Longrightarrow> length st' \<le> Suc (length st)"
  by (cases args) (auto simp: Let_def split: lua_arg.splits option.splits sum.splits)

lemma tree_step_length: "tree_step c s = Inr s' \<Longrightarrow> length (cs_store s') \<le> Suc (length (cs_store s))"
proof (cases c)
  case (Add h args le)
  assume "tree_step c s = Inr s'"
  then show ?thesis
    using dispatch_add_length [of "cs_handles s ! h" args le "cs_store s"] by (fastforce simp: Add split: sum.splits if_splits)
qed (auto simp: add_expert_info_def set_cols_protocol_def set_cols_info_def split: sum.splits if_splits)

lemma run_trace_length: "run_trace cs s = Inr s' \<Longrightarrow> length (cs_store s') \<le> length cs + length (cs_store s)"
proof (induction cs arbitrary: s)
  case (Cons bc cs)
  obtain caught c where bc: "bc = (caught, c)" by (rule prod.exhaust)
  show ?case
  proof (cases "tree_step c s")
    case (Inl p)
    then show ?thesis using Cons bc by (auto simp: run_trace_def split: if_splits intro: le_SucI)
  next
    case (Inr s1)
    then show ?thesis using Cons.IH [of s1] Cons.prems bc tree_step_length [OF Inr] by (simp add: run_trace_def)
  qed
qed (simp add: run_trace_def)

subsection \<open>Strings\<close>

fun fields_utf8 :: "frame_fields \<Rightarrow> bool"
and entries_utf8 :: "(string \<times> field_value) list \<Rightarrow> bool"
where
  "fields_utf8 (FrameFields es pr info mal) \<longleftrightarrow>
     entries_utf8 es \<and> pred_option str_is_utf8 pr \<and> pred_option str_is_utf8 info \<and> list_all str_is_utf8 mal"
| "entries_utf8 [] \<longleftrightarrow> True"
| "entries_utf8 ((name, v) # es) \<longleftrightarrow>
     str_is_utf8 name \<and> (case v of Str s \<Rightarrow> str_is_utf8 s | Tree t \<Rightarrow> fields_utf8 t | _ \<Rightarrow> True) \<and> entries_utf8 es"

text \<open>The \<open>String\<close> arguments of a method call, which Rust's type keeps valid.\<close>

definition arg_utf8 :: "lua_arg \<Rightarrow> bool" where
  "arg_utf8 a =
     (case a of ArgField f \<Rightarrow> str_is_utf8 (fd_name f) | ArgTable n \<Rightarrow> pred_option str_is_utf8 n | _ \<Rightarrow> True)"

fun op_utf8 :: "tree_op \<Rightarrow> bool" where
  "op_utf8 (Add h args le) = list_all arg_utf8 args"
| "op_utf8 (SetFlag h) = True"
| "op_utf8 (ExpertInfo h msg) = pred_option str_is_utf8 msg"
| "op_utf8 (SetProtocol v) = str_is_utf8 v"
| "op_utf8 (SetInfo v) = str_is_utf8 v"
| "op_utf8 (ReadUint r le) = True"
| "op_utf8 (ReadRaw r) = True"

definition value_utf8 :: "field_value \<Rightarrow> bool" where
  "value_utf8 v = (case v of Str s \<Rightarrow> str_is_utf8 s | Tree t \<Rightarrow> fields_utf8 t | _ \<Rightarrow> True)"

lemma entries_utf8_all: "entries_utf8 es \<longleftrightarrow> list_all (\<lambda>(n, v). str_is_utf8 n \<and> value_utf8 v) es"
  by (induction es) (auto simp: value_utf8_def)

lemma fields_utf8_default [simp]: "fields_utf8 default_fields"
  by (simp add: default_fields_def)

lemma modify_at_utf8:
  "(\<And>u. fields_utf8 u \<Longrightarrow> fields_utf8 (f u)) \<Longrightarrow> fields_utf8 t \<Longrightarrow> fields_utf8 (modify_at p f t)"
proof (induction p f t rule: modify_at.induct)
  case (2 i p f es pr info mal)
  show ?case
  proof (cases "i < length es")
    case True
    then have "str_is_utf8 (fst (es ! i))" "value_utf8 (snd (es ! i))"
      using 2(3) by (auto simp: entries_utf8_all list_all_length case_prod_beta)
    then show ?thesis
      using 2 True
      by (auto simp: entries_utf8_all list_all_length case_prod_beta nth_list_update value_utf8_def
          split: field_value.splits)
  qed (use 2 in simp)
qed simp

lemma field_call_value_utf8:
  "field_call_value le k args = Inr v \<Longrightarrow> value_utf8 (value_tree (\<lambda>_. default_fields) v)"
proof -
  have "value_from_lua x = Some w \<Longrightarrow> value_utf8 (value_tree (\<lambda>_. default_fields) w)" for x w
    by (cases x) (auto simp: value_tree_def value_utf8_def)
  moreover have "value_from_tvbrange r k = Inr w \<Longrightarrow> value_utf8 (value_tree (\<lambda>_. default_fields) w)" for r w
    by (cases k) (auto simp: uint_or_zero_def map_sum_def value_tree_def value_utf8_def split: sum.splits)
  moreover have "value_from_tvbrange_le r k = Inr w \<Longrightarrow> value_utf8 (value_tree (\<lambda>_. default_fields) w)" for r w
    by (cases k) (auto simp: uint_or_zero_def map_sum_def value_tree_def value_utf8_def split: sum.splits)
  moreover have "value_utf8 (value_tree (\<lambda>_. default_fields) (SUInt 0))"
    by (simp add: value_tree_def value_utf8_def)
  ultimately show "field_call_value le k args = Inr v \<Longrightarrow> value_utf8 (value_tree (\<lambda>_. default_fields) v)"
    by (cases "(le, k, args)" rule: field_call_value.cases)
      (auto simp: lua_or_zero_def split: if_splits lua_arg.splits option.splits)
qed

lemma spec_update_utf8:
  "fields_utf8 (sp_tree t) \<Longrightarrow> (\<And>u. fields_utf8 u \<Longrightarrow> fields_utf8 (f u)) \<Longrightarrow> fields_utf8 (sp_tree (spec_update p f t))"
  by (simp add: spec_update_def modify_at_utf8)

lemma add_entry_utf8:
  "str_is_utf8 n \<Longrightarrow> value_utf8 v \<Longrightarrow> fields_utf8 u \<Longrightarrow> fields_utf8 (add_entry (n, v) u)"
  by (cases u) (simp add: entries_utf8_all)

lemma spec_add_utf8:
  assumes "list_all arg_utf8 args" and "fields_utf8 (sp_tree t)" and "spec_add p args le t = Inr t'"
  shows "fields_utf8 (sp_tree t')"
  using assms
  by (auto simp: spec_add_def spec_handle_def arg_utf8_def value_utf8_def map_sum_def
      intro!: spec_update_utf8 add_entry_utf8 field_call_value_utf8
      split: list.splits lua_arg.splits option.splits sum.splits)

lemma spec_step_utf8:
  assumes "op_utf8 c" and "fields_utf8 (sp_tree t)" and "spec_step c t = Inr t'"
  shows "fields_utf8 (sp_tree t')"
proof (cases c)
  case (Add h args le)
  then show ?thesis using assms spec_add_utf8 by (auto split: if_splits)
next
  case (ExpertInfo h msg)
  have "fields_utf8 u \<Longrightarrow> fields_utf8 (add_malformed (case msg of None \<Rightarrow> [] | Some m \<Rightarrow> m) u)" for u
    using assms(1) ExpertInfo by (cases u) (auto split: option.splits)
  then show ?thesis using assms(2,3) by (auto simp: ExpertInfo spec_update_utf8 split: if_splits)
next
  case (SetProtocol v)
  have "fields_utf8 u \<Longrightarrow> fields_utf8 (set_protocol v u)" for u using assms(1) SetProtocol by (cases u) auto
  then show ?thesis using assms(2,3) by (auto simp: SetProtocol spec_update_utf8)
next
  case (SetInfo v)
  have "fields_utf8 u \<Longrightarrow> fields_utf8 (set_info v u)" for u using assms(1) SetInfo by (cases u) auto
  then show ?thesis using assms(2,3) by (auto simp: SetInfo spec_update_utf8)
qed (use assms in \<open>auto simp: spec_handle_def map_sum_def split: if_splits sum.splits\<close>)

lemma spec_run_utf8:
  "list_all (op_utf8 \<circ> snd) cs \<Longrightarrow> fields_utf8 (sp_tree t) \<Longrightarrow> run_calls spec_step cs t = Inr t' \<Longrightarrow> fields_utf8 (sp_tree t')"
proof (induction cs arbitrary: t)
  case (Cons bc cs)
  obtain caught c where bc: "bc = (caught, c)" by (rule prod.exhaust)
  then have c: "op_utf8 c" using Cons.prems(1) by simp
  show ?case
  proof (cases "spec_step c t")
    case (Inl p)
    then show ?thesis using Cons bc by (auto split: if_splits)
  next
    case (Inr t1)
    then show ?thesis using Cons.IH [of t1] Cons.prems spec_step_utf8 [OF c Cons.prems(2) Inr] bc by simp
  qed
qed simp

subsection \<open>Properties\<close>

text \<open>
  C11 (the shared accumulators are a tree). For every sequence of calls a dissector can make, the fields the engine
  reads from the root cell are exactly those of the specification, in which the fields are one value, a handle is a path
  and each call changes the value at its handle's path and nowhere else; and one panics exactly when the other does.
\<close>

theorem dissection_refines_tree: "call_fields trace = map_sum id (Some \<circ> sp_tree) (spec_run trace)"
  by (rule call_fields_spec)

text \<open>
  C24 (the walk through subtrees ends). After any sequence of calls, the recursive walk through the cells behind
  any handle ends: it goes at most one level deeper than the number of calls made.
\<close>

theorem recorded_tree_walk_ends:
  assumes "run_trace trace new_call = Inr s" and "h < length (cs_handles s)" and "length trace < n"
  shows "\<exists>t. resolve n (cs_store s) (cs_handles s ! h) = Some t"
proof -
  obtain t where rel: "call_rel s t" by (rule run_trace_ok [OF assms(1)])
  have "length (cs_store s) \<le> n" using run_trace_length [OF assms(1)] assms(3) by (simp add: new_call_def)
  moreover have "store_ok (cs_store s)" using rel by (simp add: call_rel_def)
  moreover have "cs_handles s ! h < length (cs_store s)" using call_rel_handle(3) [OF rel assms(2)] .
  ultimately show ?thesis by (intro resolve_enough) auto
qed

text \<open>
  C25 (recorded strings are text). When the \<open>String\<close> arguments of the calls are valid UTF-8 and the dissector comes to its end,
  so is every name, value, column and message at every depth of the recorded fields, whatever bytes it read from the packet.
\<close>

theorem recorded_strings_are_utf8:
  assumes "list_all (op_utf8 \<circ> snd) trace"
  shows "case call_fields trace of Inl p \<Rightarrow> True | Inr ff \<Rightarrow> \<exists>t. ff = Some t \<and> fields_utf8 t"
proof (cases "spec_run trace")
  case (Inr t)
  then show ?thesis
    using call_fields_spec [of trace] spec_run_utf8 [OF assms, of spec_new t] by (simp add: spec_new_def spec_run_def)
qed (simp add: call_fields_spec)

subsection \<open>Witnesses\<close>

text \<open>The second read is of a range that starts before its buffer, inside a \<open>pcall\<close>.\<close>

definition demo_trace :: "tree_op calls" where
  "demo_trace =
     [(False, Add 0 [ArgTable (Some ''p''), ArgOther] False),
      (False, Add 1 [ArgField \<lparr>fd_name = ''p.s'', fd_kind = KStr\<rparr>, ArgString [0x41, 0xFF]] False),
      (True, ReadRaw \<lparr>tr_data = [7], tr_range = (- 1, 0)\<rparr>),
      (False, Add 0 [ArgField \<lparr>fd_name = ''p.n'', fd_kind = KUInt\<rparr>, ArgInteger 7] False), (False, SetProtocol ''P'')]"

theorem recorded_tree_walk_ends_witness:
  "\<exists>s t. run_trace demo_trace new_call = Inr s \<and> resolve 6 (cs_store s) (cs_handles s ! 1) = Some t"
proof -
  have "tvb_raw \<lparr>tr_data = [7], tr_range = (- 1, 0)\<rparr> = Inl SliceOutOfRange"
    by (simp add: tvb_raw_def tvb_bytes_def index_range_def unat_gt_0)
  then have "map_sum id (\<lambda>s. length (cs_handles s)) (run_trace demo_trace new_call) = Inr 4"
    by (simp add: run_trace_def demo_trace_def new_call_def Let_def record_value_def default_cell_def)
  then obtain s where s: "run_trace demo_trace new_call = Inr s" "length (cs_handles s) = 4"
    by (cases "run_trace demo_trace new_call") auto
  from recorded_tree_walk_ends [OF s(1), of 1 6] s show ?thesis by (simp add: demo_trace_def)
qed

theorem recorded_strings_are_utf8_witness:
  "case call_fields demo_trace of Inl p \<Rightarrow> True | Inr ff \<Rightarrow> \<exists>t. ff = Some t \<and> fields_utf8 t"
  by (rule recorded_strings_are_utf8)
    (simp add: demo_trace_def arg_utf8_def str_is_utf8_def valid_utf8.simps utf8_step.simps)

end
