(* ===== verification/Lua_Engine.thy ===== *)
theory Lua_Engine
  imports Lua_Tree_Correct
begin

text \<open>
  \<open>src/lua/mod.rs\<close> and \<open>src/lua/dissector_table.rs\<close>: the engine that owns the Lua virtual machine and the registry
  from port to dissector. The machine is the \<open>mlua\<close> crate's and runs plugins, so it is a parameter: \<open>'vm\<close> is its
  state, a table or function in it is a reference, and each operation returns its result, the machine's next
  state and the registrations made while it ran, each through the table name given to \<open>DissectorTable.get\<close>. A run of
  a script also says which calls it made on the tree, the packet info and the byte ranges, and which of them under a \<open>pcall\<close>;
  the fields they record are computed here, and so is the panic of a call that reads a range outside its buffer. A dissector
  gets its tree and its buffer anew for each call and is taken not to use those of an earlier one.
\<close>

type_synonym lua_ref = nat
type_synonym lua_error = string

datatype lua_value = LInteger "64 word" | LNumber lua_float | LOther

record ('vm, 'a) lua_effects =
  le_result :: "lua_error + 'a"
  le_adds :: "(string \<times> u16 \<times> lua_ref) list"
  le_vm :: 'vm

record ('vm, 'a) lua_run = "('vm, 'a) lua_effects" +
  lr_calls :: "tree_op calls"

text \<open>
  Reading the field \<open>dissector\<close> of a table may run a script too, a metamethod. A chunk runs before there is any buffer to read.
\<close>

record 'vm lua_host =
  get_dissector :: "'vm \<Rightarrow> lua_ref \<Rightarrow> ('vm, lua_ref) lua_run"
  call_dissector :: "'vm \<Rightarrow> lua_ref \<Rightarrow> bytes \<Rightarrow> ('vm, lua_value) lua_run"
  exec_chunk :: "'vm \<Rightarrow> string \<Rightarrow> string \<Rightarrow> ('vm, unit) lua_effects"
  host_gc_collect :: "'vm \<Rightarrow> 'vm"
  host_used_memory :: "'vm \<Rightarrow> nat"

record 'vm lua_engine =
  lua_vm :: 'vm
  tls_port_registry :: "u16 \<rightharpoonup> lua_ref"

definition new_engine :: "'vm \<Rightarrow> 'vm lua_engine" where
  "new_engine vm = \<lparr>lua_vm = vm, tls_port_registry = Map.empty\<rparr>"

definition dissector_table_get :: "string \<Rightarrow> lua_error + unit" where
  "dissector_table_get name =
     (if name = ''tls.port'' \<or> name = ''ssl.port'' then Inr ()
      else Inl (''DissectorTable.get: unsupported table '' @ name))"

text \<open>
  \<open>DissectorTable.get(name):add(port, proto)\<close>: \<open>this.registry.borrow_mut().insert(port, proto)\<close> once per registration;
  an unsupported table has no handle to register through.
\<close>

fun add_dissectors :: "(string \<times> u16 \<times> lua_ref) list \<Rightarrow> (u16 \<rightharpoonup> lua_ref) \<Rightarrow> (u16 \<rightharpoonup> lua_ref)" where
  "add_dissectors [] reg = reg"
| "add_dissectors ((tbl, port, proto) # adds) reg =
     add_dissectors adds (case dissector_table_get tbl of Inl _ \<Rightarrow> reg | Inr _ \<Rightarrow> reg(port \<mapsto> proto))"

text \<open>\<open>Proto(name, description)\<close> is a plain table; \<open>gui_enabled()\<close> is constant.\<close>

definition proto_new :: "string \<Rightarrow> string option \<Rightarrow> (string \<times> string) list" where
  "proto_new name description =
     (''name'', name) # (case description of None \<Rightarrow> [] | Some d \<Rightarrow> [(''description'', d)])"

definition gui_enabled :: bool where
  "gui_enabled = False"

definition run_effects :: "('vm, 'a, 'b) lua_effects_scheme \<Rightarrow> 'vm lua_engine \<Rightarrow> 'vm lua_engine" where
  "run_effects ef e =
     e\<lparr>lua_vm := le_vm ef, tls_port_registry := add_dissectors (le_adds ef) (tls_port_registry e)\<rparr>"

definition load_plugin_str ::
  "'vm lua_host \<Rightarrow> string \<Rightarrow> string \<Rightarrow> 'vm lua_engine \<Rightarrow> (lua_error + unit) \<times> 'vm lua_engine"
where
  "load_plugin_str host src chunk_name e =
     (let ef = exec_chunk host (lua_vm e) src chunk_name in (le_result ef, run_effects ef e))"

text \<open>\<open>file\<close> is what \<open>read_to_string\<close> returns for the path.\<close>

definition load_plugin_file ::
  "'vm lua_host \<Rightarrow> string \<Rightarrow> string + string \<Rightarrow> 'vm lua_engine \<Rightarrow> (lua_error + unit) \<times> 'vm lua_engine"
where
  "load_plugin_file host path file e =
     (case file of
        Inl err \<Rightarrow> (Inl (''reading plugin '' @ path @ '': '' @ err), e)
      | Inr src \<Rightarrow> load_plugin_str host src path e)"

definition has_dissector_for_port :: "u16 \<Rightarrow> 'vm lua_engine \<Rightarrow> bool" where
  "has_dissector_for_port port e \<longleftrightarrow> tls_port_registry e port \<noteq> None"

definition lua_used_memory :: "'vm lua_host \<Rightarrow> 'vm lua_engine \<Rightarrow> nat" where
  "lua_used_memory host e = host_used_memory host (lua_vm e)"

definition gc_collect :: "'vm lua_host \<Rightarrow> 'vm lua_engine \<Rightarrow> 'vm lua_engine" where
  "gc_collect host e = e\<lparr>lua_vm := host_gc_collect host (lua_vm e)\<rparr>"

text \<open>\<open>n as usize\<close>: an integer keeps its bits, a float truncates and saturates.\<close>

definition usize_MAX :: nat where
  "usize_MAX = 2 ^ 64 - 1"

definition consumed_bytes :: "lua_value \<Rightarrow> nat \<Rightarrow> nat" where
  "consumed_bytes ret plaintext_len =
     (case ret of
        LInteger n \<Rightarrow> if sint n \<ge> 0 then min (unat n) plaintext_len else plaintext_len
      | LNumber (Finite x) \<Rightarrow>
          if x \<ge> 0 then min (min (nat \<lfloor>x\<rfloor>) usize_MAX) plaintext_len else plaintext_len
      | LNumber PosInfinity \<Rightarrow> min usize_MAX plaintext_len
      | _ \<Rightarrow> plaintext_len)"

text \<open>
  \<open>fields.borrow().clone()\<close> after the call: the entries of the call's accumulator, with pointers to the accumulators of the
  subtrees. Nothing changes those any more before the message is written, so they are given here by what they hold. The walk
  through them always ends, so the second case is never taken (\<open>recorded_fields_spec\<close>).
\<close>

definition recorded_fields :: "tree_op calls \<Rightarrow> panic + frame_fields" where
  "recorded_fields trace = map_sum id (\<lambda>opt. case opt of Some ff \<Rightarrow> ff | None \<Rightarrow> default_fields) (call_fields trace)"

text \<open>A panic that a script does not catch is resumed by \<open>get\<close> or \<open>call\<close> and unwinds \<open>dissect\<close>; an error of the script is its result.\<close>

definition dissect ::
  "'vm lua_host \<Rightarrow> u16 \<Rightarrow> bytes \<Rightarrow> 'vm lua_engine
     \<Rightarrow> panic + ((lua_error + (frame_fields \<times> nat) option) \<times> 'vm lua_engine)"
where
  "dissect host port plaintext e =
     (case tls_port_registry e port of
        None \<Rightarrow> Inr (Inr None, e)
      | Some proto \<Rightarrow>
          (let ef = get_dissector host (lua_vm e) proto; e1 = run_effects ef e in
           case run_trace (lr_calls ef) no_call of
             Inl p \<Rightarrow> Inl p
           | Inr _ \<Rightarrow>
               (case le_result ef of
                  Inl err \<Rightarrow> Inr (Inl err, e1)
                | Inr fn \<Rightarrow>
                    (let ef2 = call_dissector host (lua_vm e1) fn plaintext; e2 = run_effects ef2 e1 in
                     case recorded_fields (lr_calls ef2) of
                       Inl p \<Rightarrow> Inl p
                     | Inr ff \<Rightarrow>
                         (case le_result ef2 of
                            Inl err \<Rightarrow> Inr (Inl err, e2)
                          | Inr ret \<Rightarrow> Inr (Inr (Some (ff, consumed_bytes ret (length plaintext))), e2))))))"

lemma recorded_fields_spec: "recorded_fields trace = map_sum id sp_tree (spec_run trace)"
  by (cases "spec_run trace") (simp_all add: recorded_fields_def call_fields_spec)

text \<open>A subtree added for a protocol table is recorded under the name the table was made with.\<close>

lemma proto_new_name: "map_of (proto_new name description) ''name'' = Some name"
  by (simp add: proto_new_def)

text \<open>The last registration for a port on a supported table wins.\<close>

lemma add_dissectors_eq:
  "add_dissectors adds reg =
     reg ++ map_of (rev (map snd (filter (\<lambda>a. dissector_table_get (fst a) = Inr ()) adds)))"
  by (induction adds reg rule: add_dissectors.induct) (auto simp: map_add_def fun_eq_iff split: sum.splits option.splits)

lemma consumed_bytes_le: "consumed_bytes ret n \<le> n"
  by (auto simp: consumed_bytes_def split: lua_value.splits lua_float.splits)

lemma dissect_consumed:
  "dissect host port bs e = Inr (Inr (Some (ff, consumed)), e') \<Longrightarrow> consumed \<le> length bs"
  by (auto simp: dissect_def Let_def consumed_bytes_le split: option.splits sum.splits)

subsection \<open>Panics\<close>

text \<open>The panics a script raises and does not catch, and scripts that raise none.\<close>

definition script_panics :: "'vm lua_host \<Rightarrow> panic \<Rightarrow> bool" where
  "script_panics host p \<longleftrightarrow>
     (\<exists>vm proto. run_trace (lr_calls (get_dissector host vm proto)) no_call = Inl p)
     \<or> (\<exists>vm fn bs. run_trace (lr_calls (call_dissector host vm fn bs)) new_call = Inl p)"

definition calm :: "'vm lua_host \<Rightarrow> bool" where
  "calm host \<longleftrightarrow> (\<forall>p. \<not> script_panics host p)"

lemma call_fields_panic: "call_fields trace = Inl p \<longleftrightarrow> run_trace trace new_call = Inl p"
  by (cases "run_trace trace new_call") (simp_all add: call_fields_def)

lemma recorded_fields_panic: "recorded_fields trace = Inl p \<longleftrightarrow> run_trace trace new_call = Inl p"
  by (cases "call_fields trace") (simp_all add: recorded_fields_def flip: call_fields_panic)

lemma dissect_panic: "dissect host port bs e = Inl p \<Longrightarrow> script_panics host p"
  by (auto simp: dissect_def script_panics_def Let_def recorded_fields_panic split: option.splits sum.splits)

text \<open>Reading outside the buffer is the only panic.\<close>

lemma field_call_value_panic: "field_call_value le k args = Inl p \<Longrightarrow> p = SliceOutOfRange"
proof -
  have b: "tvb_bytes r = Inl p \<Longrightarrow> p = SliceOutOfRange" for r
    by (auto simp: tvb_bytes_def index_range_def split: if_splits)
  have "value_from_tvbrange r k = Inl p \<Longrightarrow> p = SliceOutOfRange" for r k
    by (cases k) (auto simp: uint_or_zero_def tvb_uint_def map_sum_def dest: b split: sum.splits)
  moreover have "value_from_tvbrange_le r k = Inl p \<Longrightarrow> p = SliceOutOfRange" for r k
    using calculation by (cases k) (auto simp: uint_or_zero_def tvb_uint_def map_sum_def dest: b split: sum.splits)
  ultimately show "field_call_value le k args = Inl p \<Longrightarrow> p = SliceOutOfRange"
    by (cases "(le, k, args)" rule: field_call_value.cases) (auto split: if_splits lua_arg.splits option.splits)
qed

lemma tree_step_panic: "tree_step c s = Inl p \<Longrightarrow> p = SliceOutOfRange"
proof -
  have d: "dispatch_add a args le st = Inl p \<Longrightarrow> p = SliceOutOfRange" for a args le st
    by (cases args) (auto simp: Let_def dest: field_call_value_panic split: lua_arg.splits option.splits sum.splits)
  show "tree_step c s = Inl p \<Longrightarrow> p = SliceOutOfRange"
    by (cases c) (auto simp: tvb_uint_def tvb_raw_def tvb_bytes_def index_range_def dest: d split: sum.splits if_splits)
qed

lemma run_calls_panic:
  "run_calls step cs s = Inl p \<Longrightarrow> \<exists>caught c s'. (caught, c) \<in> set cs \<and> \<not> caught \<and> step c s' = Inl p"
proof (induction step cs s rule: run_calls.induct)
  case (2 step caught c cs s)
  then show ?case by (cases "step c s") (auto split: if_splits)
qed simp

lemma script_panic: "script_panics host p \<Longrightarrow> p = SliceOutOfRange"
  by (auto simp: script_panics_def run_trace_def dest!: run_calls_panic tree_step_panic)

text \<open>The ranges a script can cut out of a buffer with offsets and lengths that are not negative.\<close>

definition not_negative :: "u64 \<Rightarrow> bool" where
  "not_negative i \<longleftrightarrow> i < 2 ^ 63"

inductive window :: "bytes \<Rightarrow> tvb_range \<Rightarrow> bool" for data :: bytes where
  of_buffer: "tvb_call data offset len = Inr r \<Longrightarrow> not_negative offset \<Longrightarrow> pred_option not_negative len \<Longrightarrow> window data r"
| of_range: "window data r \<Longrightarrow> tvb_range_call r offset len = Inr r' \<Longrightarrow> not_negative offset \<Longrightarrow> pred_option not_negative len
    \<Longrightarrow> window data r'"

lemma slice_inside:
  assumes base: "unat base_start + unat base_len \<le> length data" "length data < 2 ^ 63"
    and r: "tvb_slice data base_start base_len offset len = Inr r" "not_negative offset" "pred_option not_negative len"
  shows "tr_data r = data \<and> unat (fst (tr_range r)) \<le> unat (snd (tr_range r)) \<and> unat (snd (tr_range r)) \<le> length data"
proof -
  define n where "n = (case len of None \<Rightarrow> saturating_sub base_len offset | Some l \<Rightarrow> l)"
  have bl: "unat base_len < 2 ^ 63" using base by simp
  have n63: "unat n < 2 ^ 63"
  proof (cases len)
    case None
    then have "unat n \<le> unat base_len"
      using word_sub_le [of offset base_len] by (auto simp: n_def saturating_sub_def word_le_nat_alt not_less)
    then show ?thesis using bl by simp
  qed (use r(3) in \<open>simp add: n_def not_negative_def word_less_nat_alt\<close>)
  have o63: "unat offset < 2 ^ 63" using r(2) by (simp add: not_negative_def word_less_nat_alt)
  have fit: "\<not> offset + n > base_len" "r = \<lparr>tr_data = data, tr_range = (base_start + offset, base_start + offset + n)\<rparr>"
    using r(1) by (auto simp: tvb_slice_def Let_def n_def split: if_splits)
  have on: "unat (offset + n) = unat offset + unat n"
    using o63 n63 by (subst unat_add_lem [symmetric]) simp
  then have le: "unat offset + unat n \<le> unat base_len" using fit(1) by (simp add: word_le_nat_alt not_less)
  have so: "unat (base_start + offset) = unat base_start + unat offset"
    using base le by (subst unat_add_lem [symmetric]) simp
  have "unat (base_start + offset + n) = unat (base_start + offset) + unat n"
    using base le so by (subst unat_add_lem [symmetric]) simp
  then show ?thesis using fit(2) so le base(1) by simp
qed

lemma window_inside:
  assumes "length data < 2 ^ 63"
  shows "window data r \<Longrightarrow>
    tr_data r = data \<and> unat (fst (tr_range r)) \<le> unat (snd (tr_range r)) \<and> unat (snd (tr_range r)) \<le> length data"
proof (induction rule: window.induct)
  case (of_buffer offset len r)
  have "unat (of_nat (length data) :: u64) = length data" using assms by (simp add: unat_of_nat)
  then show ?case using slice_inside [of 0 "of_nat (length data)" data offset len r] assms of_buffer by (simp add: tvb_call_def)
next
  case (of_range r offset len r')
  have "unat (range_len64 (tr_range r)) = unat (snd (tr_range r)) - unat (fst (tr_range r))"
    using of_range.IH by (auto simp: range_len64_def saturating_sub_def word_less_nat_alt unat_sub word_le_nat_alt)
  then show ?case
    using slice_inside [of "fst (tr_range r)" "range_len64 (tr_range r)" data offset len r'] assms of_range
    by (simp add: tvb_range_call_def)
qed

definition readable :: "tvb_range \<Rightarrow> bool" where
  "readable r \<longleftrightarrow> (\<exists>data. length data < 2 ^ 63 \<and> window data r)"

lemma readable_bytes: "readable r \<Longrightarrow> \<exists>bs. tvb_bytes r = Inr bs"
  using window_inside by (fastforce simp: readable_def tvb_bytes_def index_range_def)

fun arg_ranges :: "lua_arg \<Rightarrow> tvb_range list" where
  "arg_ranges (ArgRange r) = [r]"
| "arg_ranges _ = []"

fun op_ranges :: "tree_op \<Rightarrow> tvb_range list" where
  "op_ranges (Add h args le) = concat (map arg_ranges args)"
| "op_ranges (ReadUint r le) = [r]"
| "op_ranges (ReadRaw r) = [r]"
| "op_ranges _ = []"

definition careful :: "'vm lua_host \<Rightarrow> bool" where
  "careful host \<longleftrightarrow>
     (\<forall>vm proto. \<forall>(caught, c) \<in> set (lr_calls (get_dissector host vm proto)). list_all readable (op_ranges c))
     \<and> (\<forall>vm fn bs. \<forall>(caught, c) \<in> set (lr_calls (call_dissector host vm fn bs)). list_all readable (op_ranges c))"

lemma field_call_value_calm:
  "list_all readable (concat (map arg_ranges args)) \<Longrightarrow> field_call_value le k args \<noteq> Inl p"
proof -
  have 1: "\<exists>v. value_from_tvbrange r k = Inr v" if "readable r" for r k
    using readable_bytes [OF that] by (cases k) (auto simp: uint_or_zero_def tvb_uint_def split: sum.splits)
  have 2: "\<exists>v. value_from_tvbrange_le r k = Inr v" if "readable r" for r k
    using readable_bytes [OF that] 1 [OF that] by (cases k) (auto simp: uint_or_zero_def tvb_uint_def split: sum.splits)
  have "list_all readable (concat (map arg_ranges args)) \<Longrightarrow> \<exists>v. field_call_value le k args = Inr v"
    by (cases "(le, k, args)" rule: field_call_value.cases)
      (auto simp: 1 2 split: lua_arg.splits option.splits)
  then show "list_all readable (concat (map arg_ranges args)) \<Longrightarrow> field_call_value le k args \<noteq> Inl p" by auto
qed

lemma tree_step_calm: "list_all readable (op_ranges c) \<Longrightarrow> tree_step c s \<noteq> Inl p"
proof (cases c)
  case (Add h args le)
  assume "list_all readable (op_ranges c)"
  then have "dispatch_add (cs_handles s ! h) args le (cs_store s) \<noteq> Inl p"
    using field_call_value_calm [of "tl args" le _ p] Add
    by (cases args) (auto simp: Let_def split: lua_arg.splits option.splits sum.splits)
  then show ?thesis by (auto simp: Add split: sum.splits)
qed (use readable_bytes in \<open>fastforce simp: tvb_uint_def tvb_raw_def\<close>)+

lemma careful_calm: "careful host \<Longrightarrow> calm host"
  unfolding calm_def script_panics_def run_trace_def careful_def
  using run_calls_panic [of tree_step] tree_step_calm by (metis (no_types, lifting) case_prodD)

subsection \<open>Properties\<close>

text \<open>
  C26 (scripts that slice forward do not panic). When every range that the scripts' calls read was cut, directly or through other
  ranges, out of a buffer with offsets and lengths that are not negative, no call of \<open>dissect\<close> panics: it gives the
  fields the script recorded, or the script's error.
\<close>

theorem careful_scripts_do_not_panic:
  assumes "careful host"
  shows "\<exists>res e'. dissect host port plaintext e = Inr (res, e')"
  using careful_calm [OF assms] dissect_panic [of host port plaintext e]
  by (cases "dissect host port plaintext e") (auto simp: calm_def)

text \<open>
  A range before the buffer ends the dissection with a panic. A script that adds a field, or asks for the bytes or the number,
  of \<open>tvb(-1, 1)\<close>, and does not catch the panic, makes \<open>dissect\<close> panic, whatever it did before and whatever the record holds.
\<close>

lemma negative_offset_panics_dissect:
  assumes "tls_port_registry e port = Some proto"
    and "get_dissector host (lua_vm e) proto = ef" and "lr_calls ef = []" and "le_result ef = Inr fn"
    and "lr_calls (call_dissector host (le_vm ef) fn plaintext) = before @ (False, c) # after"
    and "run_trace before new_call = Inr s"
    and "tvb_call plaintext (- 1) (Some 1) = Inr r"
    and "c \<in> {ReadRaw r, ReadUint r le} \<or> (\<exists>h f. h < length (cs_handles s) \<and> c = Add h [ArgField f, ArgRange r] le)"
  shows "dissect host port plaintext e = Inl SliceOutOfRange"
proof -
  have "r = \<lparr>tr_data = plaintext, tr_range = (- 1, 0)\<rparr>"
    using assms(7) by (simp add: tvb_call_def tvb_slice_def Let_def)
  then have b: "tvb_bytes r = Inl SliceOutOfRange" by (simp add: tvb_bytes_def index_range_def unat_gt_0)
  have v: "value_from_tvbrange r k = Inl SliceOutOfRange" "value_from_tvbrange_le r k = Inl SliceOutOfRange" for k
    using b by (cases k; simp add: uint_or_zero_def tvb_uint_def)+
  have "tree_step c s = Inl SliceOutOfRange"
    using assms(8) b v by (auto simp: tvb_raw_def tvb_uint_def)
  moreover have "run_calls tree_step (before @ rest) s0 = (case run_calls tree_step before s0 of Inl p \<Rightarrow> Inl p | Inr s' \<Rightarrow> run_calls tree_step rest s')"
    for rest s0
    by (induction before arbitrary: s0) (auto split: sum.splits)
  ultimately have "run_trace (lr_calls (call_dissector host (le_vm ef) fn plaintext)) new_call = Inl SliceOutOfRange"
    using assms(6) unfolding assms(5) by (simp add: run_trace_def)
  then have "recorded_fields (lr_calls (call_dissector host (le_vm ef) fn plaintext)) = Inl SliceOutOfRange"
    by (simp add: recorded_fields_panic)
  then show ?thesis
    using assms(1-4) by (simp add: dissect_def Let_def run_trace_def run_effects_def)
qed

subsection \<open>Witnesses\<close>

text \<open>Scripts that read a byte of the buffer: the first one, and the one before it.\<close>

definition reading_host :: "u64 \<Rightarrow> unit lua_host" where
  "reading_host offset =
     \<lparr>get_dissector = (\<lambda>vm r. \<lparr>le_result = Inr r, le_adds = [], le_vm = (), lr_calls = []\<rparr>),
      call_dissector = (\<lambda>vm r bs. \<lparr>le_result = Inr (LInteger 1), le_adds = [], le_vm = (),
        lr_calls = (case tvb_call bs offset (Some 1) of Inl _ \<Rightarrow> []
          | Inr range' \<Rightarrow> if length bs < 2 ^ 63 then [(False, ReadRaw range')] else [])\<rparr>),
      exec_chunk = (\<lambda>vm s n. \<lparr>le_result = Inr (), le_adds = [], le_vm = ()\<rparr>),
      host_gc_collect = (\<lambda>vm. vm), host_used_memory = (\<lambda>vm. 0)\<rparr>"

theorem careful_scripts_do_not_panic_witness:
  "\<exists>res e'. dissect (reading_host 0) 443 [1, 2] \<lparr>lua_vm = (), tls_port_registry = [443 \<mapsto> 0]\<rparr> = Inr (res, e')"
proof -
  have "readable r" if "tvb_call bs 0 (Some 1) = Inr r" "length bs < 2 ^ 63" for bs r
    using window.of_buffer [OF that(1)] that(2) by (auto simp: readable_def not_negative_def)
  then have "careful (reading_host 0)" by (auto simp: careful_def reading_host_def split: sum.splits)
  then show ?thesis by (rule careful_scripts_do_not_panic)
qed

lemma negative_offset_example:
  "dissect (reading_host (- 1)) 443 [1, 2] \<lparr>lua_vm = (), tls_port_registry = [443 \<mapsto> 0]\<rparr> = Inl SliceOutOfRange"
proof -
  let ?r = "\<lparr>tr_data = [1, 2], tr_range = (- 1, 0)\<rparr>"
  let ?ef = "\<lparr>le_result = Inr 0, le_adds = [], le_vm = (), lr_calls = []\<rparr>"
  have r: "tvb_call [1, 2] (- 1) (Some 1) = Inr ?r"
    by (simp add: tvb_call_def tvb_slice_def Let_def)
  show ?thesis
    by (rule negative_offset_panics_dissect [where before = "[]" and after = "[]" and proto = 0 and fn = 0 and s = new_call
          and le = False and r = ?r and ef = ?ef and c = "ReadRaw ?r"]) (simp_all add: reading_host_def run_trace_def r)
qed

end
