(* ===== verification/Pcap_Input.thy ===== *)
theory Pcap_Input
  imports Strings "HOL-Library.Product_Lexorder"
begin

text \<open>
  \<open>src/pcap_input.rs\<close>: detecting the capture format, reading packets, correcting pcapng time stamps and parsing a
  frame down to its TCP segment. Two crates are parameters: \<open>etherparse\<close>, whose slicing of a packet is the
  record \<open>etherparse_lib\<close>, and \<open>pcap_file\<close>, whose readers are the sequence of results they will return. What
  the code relies on in \<open>etherparse\<close>, that a TCP payload is a sub-slice of the bytes it was given, is the hypothesis
  \<open>payload_sub_slice\<close>.
\<close>

datatype ip_addr = V4 u32 | V6 "128 word"

text \<open>The derived order: version 4 before version 6, then the address.\<close>

instantiation ip_addr :: linorder
begin

fun less_eq_ip_addr :: "ip_addr \<Rightarrow> ip_addr \<Rightarrow> bool" where
  "less_eq_ip_addr (V4 a) (V4 b) = (a \<le> b)"
| "less_eq_ip_addr (V4 a) (V6 b) = True"
| "less_eq_ip_addr (V6 a) (V4 b) = False"
| "less_eq_ip_addr (V6 a) (V6 b) = (a \<le> b)"

definition less_ip_addr :: "ip_addr \<Rightarrow> ip_addr \<Rightarrow> bool" where
  "less_ip_addr a b \<longleftrightarrow> a \<le> b \<and> \<not> b \<le> a"

instance
proof
  fix x y z :: ip_addr
  show "(x < y) = (x \<le> y \<and> \<not> y \<le> x)" by (simp add: less_ip_addr_def)
  show "x \<le> x" by (cases x) simp_all
  show "x \<le> y \<Longrightarrow> y \<le> z \<Longrightarrow> x \<le> z" by (cases x; cases y; cases z) auto
  show "x \<le> y \<Longrightarrow> y \<le> x \<Longrightarrow> x = y" by (cases x; cases y) auto
  show "x \<le> y \<or> y \<le> x" by (cases x; cases y) auto
qed

end

record tcp_flags =
  fl_syn :: bool
  fl_fin :: bool
  fl_rst :: bool
  fl_ack :: bool
  fl_psh :: bool

record tcp_frame =
  src_ip :: ip_addr
  dst_ip :: ip_addr
  src_port :: u16
  dst_port :: u16
  tf_seq :: u32
  ack_number :: u32
  tf_flags :: tcp_flags
  payload_range :: usize_range

datatype parse_error = NotTcp

datatype data_link = ETHERNET | LINUX_SLL | LINUX_SLL2 | RAW | NULL_LINK | LOOP_LINK | OtherLink u32

definition LINUX_SLL_HEADER_LEN :: nat where "LINUX_SLL_HEADER_LEN = 16"
definition LINUX_SLL2_HEADER_LEN :: nat where "LINUX_SLL2_HEADER_LEN = 20"
definition NULL_LOOP_HEADER_LEN :: nat where "NULL_LOOP_HEADER_LEN = 4"

text \<open>What a sliced packet offers: the network layer, and the transport layer with its header fields and the place
  of its payload in the bytes that were sliced.\<close>

datatype net_slice = NetIpv4 u32 u32 | NetIpv6 "128 word" "128 word" | NetOther

record tcp_slice =
  ts_source_port :: u16
  ts_destination_port :: u16
  ts_sequence_number :: u32
  ts_acknowledgment_number :: u32
  ts_flags :: tcp_flags
  ts_payload_offset :: nat
  ts_payload_len :: nat

datatype transport_slice = TransportTcp tcp_slice | TransportOther

record sliced_packet =
  sl_net :: "net_slice option"
  sl_transport :: "transport_slice option"

record etherparse_lib =
  from_ethernet :: "bytes \<Rightarrow> sliced_packet option"
  from_ip :: "bytes \<Rightarrow> sliced_packet option"

definition from_ip_after :: "etherparse_lib \<Rightarrow> nat \<Rightarrow> bytes \<Rightarrow> parse_error + (sliced_packet \<times> nat)" where
  "from_ip_after ep header_len data =
     (if length data < header_len then Inl NotTcp
      else (case from_ip ep (drop header_len data) of
              None \<Rightarrow> Inl NotTcp | Some s \<Rightarrow> Inr (s, header_len)))"

definition slice_link :: "etherparse_lib \<Rightarrow> data_link \<Rightarrow> bytes \<Rightarrow> parse_error + (sliced_packet \<times> nat)" where
  "slice_link ep link_type data =
     (case link_type of
        ETHERNET \<Rightarrow> (case from_ethernet ep data of None \<Rightarrow> Inl NotTcp | Some s \<Rightarrow> Inr (s, 0))
      | LINUX_SLL \<Rightarrow> from_ip_after ep LINUX_SLL_HEADER_LEN data
      | LINUX_SLL2 \<Rightarrow> from_ip_after ep LINUX_SLL2_HEADER_LEN data
      | RAW \<Rightarrow> from_ip_after ep 0 data
      | NULL_LINK \<Rightarrow> from_ip_after ep NULL_LOOP_HEADER_LEN data
      | LOOP_LINK \<Rightarrow> from_ip_after ep NULL_LOOP_HEADER_LEN data
      | OtherLink _ \<Rightarrow> Inl NotTcp)"

definition parse_tcp_frame :: "etherparse_lib \<Rightarrow> data_link \<Rightarrow> bytes \<Rightarrow> parse_error + tcp_frame" where
  "parse_tcp_frame ep link_type data =
     (case slice_link ep link_type data of
        Inl e \<Rightarrow> Inl e
      | Inr (sliced, base_offset) \<Rightarrow>
          (case (case sl_net sliced of
                   Some (NetIpv4 s d) \<Rightarrow> Some (V4 s, V4 d)
                 | Some (NetIpv6 s d) \<Rightarrow> Some (V6 s, V6 d)
                 | _ \<Rightarrow> None) of
             None \<Rightarrow> Inl NotTcp
           | Some (src, dst) \<Rightarrow>
               (case sl_transport sliced of
                  Some (TransportTcp tcp) \<Rightarrow>
                    let payload_start = base_offset + ts_payload_offset tcp in
                    Inr \<lparr>src_ip = src, dst_ip = dst, src_port = ts_source_port tcp,
                         dst_port = ts_destination_port tcp, tf_seq = ts_sequence_number tcp,
                         ack_number = ts_acknowledgment_number tcp, tf_flags = ts_flags tcp,
                         payload_range = (payload_start, payload_start + ts_payload_len tcp)\<rparr>
                | _ \<Rightarrow> Inl NotTcp)))"

record raw_packet =
  rp_index :: nat
  rp_data :: bytes
  rp_timestamp :: duration

subsection \<open>Opening a capture\<close>

datatype open_error = TooShort | UnknownMagic | PcapFailed string

text \<open>A reader: given the room left in the buffer it returns an error or the bytes it read, and its next state.\<close>

type_synonym 'r read_fn = "'r \<Rightarrow> nat \<Rightarrow> (unit + bytes) \<times> 'r"

function read_magic :: "'r read_fn \<Rightarrow> bytes \<Rightarrow> 'r \<Rightarrow> open_error + (bytes \<times> 'r)" where
  "read_magic rd filled r =
     (if length filled < 4 then
        (case rd r (4 - length filled) of
           (Inl _, r') \<Rightarrow> Inl TooShort
         | (Inr bs, r') \<Rightarrow>
             let n = min (length bs) (4 - length filled) in
             if n = 0 then Inl TooShort else read_magic rd (filled @ take n bs) r')
      else Inr (filled, r))"
  by pat_completeness auto
termination
  by (relation "measure (\<lambda>(rd, filled, r). 4 - length filled)") (auto simp: neq_Nil_conv min_def)

declare read_magic.simps [simp del]

datatype capture_format = ClassicPcap | PcapNg

definition detect_format :: "bytes \<Rightarrow> capture_format option" where
  "detect_format magic =
     (if magic \<in> {[0xA1, 0xB2, 0xC3, 0xD4], [0xD4, 0xC3, 0xB2, 0xA1],
                  [0xA1, 0xB2, 0x3C, 0x4D], [0x4D, 0x3C, 0xB2, 0xA1]} then Some ClassicPcap
      else if magic = [0x0A, 0x0D, 0x0D, 0x0A] then Some PcapNg
      else None)"

text \<open>An interface description, as far as it is used: its link type and its options.\<close>

datatype interface_option = IfTsResol u8 | IfOther

record interface_description =
  if_linktype :: data_link
  if_options :: "interface_option list"

record enhanced_packet =
  ep_interface_id :: u32
  ep_data :: bytes
  ep_timestamp :: duration

datatype block = EnhancedPacket enhanced_packet | OtherBlock

text \<open>
  A \<open>PcapSource\<close> with the results its reader has still to give. Each pcapng block comes with the interfaces the
  reader knows once it has read that block.
\<close>

datatype pcap_source =
    SourcePcap "(string + (bytes \<times> duration)) list" data_link
  | SourcePcapNg "((string + block) \<times> interface_description list) list"

text \<open>The constructors of the two readers, given the magic bytes chained in front of the rest.\<close>

record 'r pcap_lib =
  pcap_new :: "bytes \<Rightarrow> 'r \<Rightarrow> string + (data_link \<times> (string + (bytes \<times> duration)) list)"
  pcapng_new :: "bytes \<Rightarrow> 'r \<Rightarrow> string + ((string + block) \<times> interface_description list) list"

definition open_capture :: "'r pcap_lib \<Rightarrow> 'r read_fn \<Rightarrow> 'r \<Rightarrow> open_error + pcap_source" where
  "open_capture lib rd input =
     (case read_magic rd [] input of
        Inl e \<Rightarrow> Inl e
      | Inr (magic, rest) \<Rightarrow>
          (case detect_format magic of
             Some ClassicPcap \<Rightarrow>
               (case pcap_new lib magic rest of
                  Inl e \<Rightarrow> Inl (PcapFailed e) | Inr (link, rs) \<Rightarrow> Inr (SourcePcap rs link))
           | Some PcapNg \<Rightarrow>
               (case pcapng_new lib magic rest of
                  Inl e \<Rightarrow> Inl (PcapFailed e) | Inr bs \<Rightarrow> Inr (SourcePcapNg bs))
           | None \<Rightarrow> Inl UnknownMagic))"

subsection \<open>Time stamps\<close>

text \<open>\<open>u128\<close> values are \<open>nat\<close>; the casts to \<open>u64\<close> and \<open>u32\<close> are written out.\<close>

definition duration_new :: "nat \<Rightarrow> nat \<Rightarrow> duration" where
  "duration_new whole_secs subsec_nanos = whole_secs * 1000000000 + subsec_nanos"

definition correct_epb_timestamp :: "duration \<Rightarrow> u8 option \<Rightarrow> duration" where
  "correct_epb_timestamp mis_scaled if_tsresol =
     (let raw_ticks = mis_scaled;
          tsresol = (case if_tsresol of None \<Rightarrow> 6 | Some v \<Rightarrow> v) in
      if tsresol AND 0x80 \<noteq> 0 then
        (let shift = unat (tsresol AND 0x7F);
             unit_ticks = 2 ^ shift;
             whole_secs = (raw_ticks div unit_ticks) mod 2 ^ 64;
             frac_ticks = raw_ticks mod unit_ticks;
             subsec_nanos = (frac_ticks * 1000000000 div unit_ticks) mod 2 ^ 32 in
         duration_new whole_secs subsec_nanos)
      else
        (let ex = unat (min tsresol 9);
             divisor = 10 ^ ex;
             whole_secs = (raw_ticks div divisor) mod 2 ^ 64;
             frac_ticks = raw_ticks mod divisor;
             subsec_nanos = (frac_ticks * 10 ^ (9 - ex)) mod 2 ^ 32 in
         duration_new whole_secs subsec_nanos))"

subsection \<open>Reading packets\<close>

definition find_tsresol :: "interface_description \<Rightarrow> u8 option" where
  "find_tsresol i =
     (case List.find (\<lambda>opt. case opt of IfTsResol _ \<Rightarrow> True | IfOther \<Rightarrow> False) (if_options i) of
        Some (IfTsResol v) \<Rightarrow> Some v | _ \<Rightarrow> None)"

fun next_block :: "nat \<Rightarrow> ((string + block) \<times> interface_description list) list
    \<Rightarrow> (open_error + (raw_packet \<times> data_link)) option
       \<times> ((string + block) \<times> interface_description list) list"
where
  "next_block index [] = (None, [])"
| "next_block index ((Inl e, ifs) # rest) = (Some (Inl (PcapFailed e)), rest)"
| "next_block index ((Inr OtherBlock, ifs) # rest) = next_block index rest"
| "next_block index ((Inr (EnhancedPacket epb), ifs) # rest) =
     (let interface = (if unat (ep_interface_id epb) < length ifs
                       then Some (ifs ! unat (ep_interface_id epb)) else None);
          link_type = (case interface of None \<Rightarrow> ETHERNET | Some i \<Rightarrow> if_linktype i);
          tsresol = (case interface of None \<Rightarrow> None | Some i \<Rightarrow> find_tsresol i) in
      (Some (Inr (\<lparr>rp_index = index, rp_data = ep_data epb,
                   rp_timestamp = correct_epb_timestamp (ep_timestamp epb) tsresol\<rparr>, link_type)),
       rest))"

definition next_packet ::
  "nat \<Rightarrow> pcap_source \<Rightarrow> (open_error + (raw_packet \<times> data_link)) option \<times> pcap_source"
where
  "next_packet index src =
     (case src of
        SourcePcap [] link \<Rightarrow> (None, src)
      | SourcePcap (Inl e # rest) link \<Rightarrow> (Some (Inl (PcapFailed e)), SourcePcap rest link)
      | SourcePcap (Inr (data, ts) # rest) link \<Rightarrow>
          (Some (Inr (\<lparr>rp_index = index, rp_data = data, rp_timestamp = ts\<rparr>, link)), SourcePcap rest link)
      | SourcePcapNg blocks \<Rightarrow>
          (let (res, rest) = next_block index blocks in (res, SourcePcapNg rest)))"

subsection \<open>Lemmas\<close>

definition sliced_ok :: "bytes \<Rightarrow> sliced_packet \<Rightarrow> bool" where
  "sliced_ok data s \<longleftrightarrow>
     (case sl_transport s of
        Some (TransportTcp tcp) \<Rightarrow> ts_payload_offset tcp + ts_payload_len tcp \<le> length data | _ \<Rightarrow> True)"

text \<open>A TCP slice's payload is a sub-slice of the bytes it was parsed from.\<close>

definition payload_sub_slice :: "etherparse_lib \<Rightarrow> bool" where
  "payload_sub_slice ep \<longleftrightarrow>
     (\<forall>data s. from_ethernet ep data = Some s \<or> from_ip ep data = Some s \<longrightarrow> sliced_ok data s)"

lemma from_ip_after_ok:
  assumes "payload_sub_slice ep" and "from_ip_after ep h data = Inr (s, base)"
  shows "base \<le> length data \<and> sliced_ok (drop base data) s"
proof -
  have "from_ip ep (drop h data) = Some s" "base = h" "h \<le> length data"
    using assms(2) by (auto simp: from_ip_after_def split: if_splits option.splits)
  then show ?thesis using assms(1) by (auto simp: payload_sub_slice_def)
qed

lemma slice_link_ok:
  assumes "payload_sub_slice ep" and "slice_link ep link data = Inr (s, base)"
  shows "base \<le> length data \<and> sliced_ok (drop base data) s"
proof (cases "link = ETHERNET")
  case True
  then have "from_ethernet ep data = Some s" "base = 0"
    using assms(2) by (auto simp: slice_link_def split: option.splits)
  then show ?thesis using assms(1) by (auto simp: payload_sub_slice_def)
next
  case False
  then obtain h where "from_ip_after ep h data = Inr (s, base)"
    using assms(2) by (cases link) (auto simp: slice_link_def)
  then show ?thesis by (rule from_ip_after_ok [OF assms(1)])
qed

lemma tick_split: "(r div u) * n + (r mod u) * n div u = r * n div u" if "0 < u" for r u n :: nat
proof -
  have "r * n = r mod u * n + r div u * n * u"
    by (metis add.commute distrib_right div_mult_mod_eq mult.assoc mult.commute)
  then show ?thesis using that by (simp add: add.commute)
qed

lemma subsec_bound: "0 < u \<Longrightarrow> (r mod u) * 1000000000 div u < (1000000000 :: nat)" for r u :: nat
  by (simp add: div_less_iff_less_mult mult.commute)

lemma parse_tcp_frame_payload:
  assumes "payload_sub_slice ep" and "parse_tcp_frame ep link data = Inr frame"
  shows "index_range (payload_range frame) data = Inr (sub_range (payload_range frame) data)"
proof -
  obtain s base where s: "slice_link ep link data = Inr (s, base)"
    using assms(2) by (auto simp: parse_tcp_frame_def split: sum.splits)
  obtain tcp where t: "sl_transport s = Some (TransportTcp tcp)"
    and f: "payload_range frame
      = (base + ts_payload_offset tcp, base + ts_payload_offset tcp + ts_payload_len tcp)"
    using assms(2) s
    by (auto simp: parse_tcp_frame_def Let_def split: option.splits net_slice.splits transport_slice.splits)
  show ?thesis
    using slice_link_ok [OF assms(1) s] t f by (auto simp: index_range_def sliced_ok_def)
qed

lemma timestamp_exact:
  assumes "raw < 2 ^ 64" and "tsresol AND 0x80 \<noteq> 0 \<or> tsresol \<le> 9"
  shows "correct_epb_timestamp raw (Some tsresol) =
    raw * 10 ^ 9 div (if tsresol AND 0x80 \<noteq> 0 then 2 ^ unat (tsresol AND 0x7F) else 10 ^ unat tsresol)"
proof (cases "tsresol AND 0x80 \<noteq> 0")
  case True
  let ?u = "2 ^ unat (tsresol AND 0x7F) :: nat"
  have "raw div ?u < 2 ^ 64" using assms(1) div_le_dividend [of raw ?u] by linarith
  moreover have "(raw mod ?u) * 1000000000 div ?u < 2 ^ 32" using subsec_bound [of ?u raw] by simp
  ultimately show ?thesis
    using True tick_split [of ?u raw 1000000000]
    by (simp add: correct_epb_timestamp_def Let_def duration_new_def)
next
  case False
  then have le: "tsresol \<le> 9" using assms(2) by simp
  then have e: "unat tsresol \<le> 9" by (simp add: word_le_nat_alt)
  let ?u = "10 ^ unat tsresol :: nat"
  have "?u * 10 ^ (9 - unat tsresol) = (10 ^ 9 :: nat)" using e by (simp flip: power_add)
  then have "n * 10 ^ 9 = (n * 10 ^ (9 - unat tsresol)) * ?u" for n :: nat
    by (simp only: mult.assoc mult.commute [of "10 ^ (9 - unat tsresol)" ?u])
  then have scale: "n * 10 ^ 9 div ?u = n * 10 ^ (9 - unat tsresol)" for n :: nat
    by (simp only: nonzero_mult_div_cancel_right [of ?u]) simp
  have "raw div ?u < 2 ^ 64" using assms(1) div_le_dividend [of raw ?u] by linarith
  moreover have "(raw mod ?u) * 10 ^ (9 - unat tsresol) < 2 ^ 32"
    using subsec_bound [of ?u raw] scale [of "raw mod ?u"] by simp
  moreover have "min tsresol 9 = tsresol" using le by (simp add: min_def)
  ultimately show ?thesis
    using False tick_split [of ?u raw 1000000000] scale [of "raw mod ?u"]
    by (simp add: correct_epb_timestamp_def Let_def duration_new_def)
qed

subsection \<open>Properties\<close>

text \<open>The ticks of a second: a binary resolution, a decimal one up to nanoseconds, the default.\<close>

definition ticks_per_second :: "u8 option \<Rightarrow> nat" where
  "ticks_per_second if_tsresol =
     (case if_tsresol of
        None \<Rightarrow> 10 ^ 6
      | Some v \<Rightarrow> if v AND 0x80 \<noteq> 0 then 2 ^ unat (v AND 0x7F) else 10 ^ min (unat v) 9)"

text \<open>
  C30 (time stamps). For every tick count of 64 bits, as the capture reader gives them, and every resolution option, the corrected time
  stamp is the tick count in nanoseconds, rounded down, and no cast of the computation loses a bit. A binary resolution
  counts as it says. A decimal one does up to nanoseconds, and finer ones are taken for nanoseconds. Without the option the ticks are
  microseconds.
\<close>

theorem epb_timestamp_exact:
  assumes "raw < 2 ^ 64"
  shows "correct_epb_timestamp raw if_tsresol = raw * 10 ^ 9 div ticks_per_second if_tsresol"
proof (cases if_tsresol)
  case None
  then have "correct_epb_timestamp raw if_tsresol = correct_epb_timestamp raw (Some 6)"
    by (simp add: correct_epb_timestamp_def)
  then show ?thesis using timestamp_exact [OF assms, of 6] None by (simp add: ticks_per_second_def)
next
  case (Some v)
  show ?thesis
  proof (cases "v AND 0x80 \<noteq> 0 \<or> v \<le> 9")
    case True
    then have "v AND 0x80 = 0 \<Longrightarrow> min (unat v) 9 = unat v" by (auto simp: word_le_nat_alt)
    then show ?thesis using timestamp_exact [OF assms True] Some by (simp add: ticks_per_second_def)
  next
    case False
    then have "correct_epb_timestamp raw (Some v) = correct_epb_timestamp raw (Some 9)"
      by (simp add: correct_epb_timestamp_def min_def)
    moreover have "min (unat v) 9 = 9" using False by (simp add: word_le_nat_alt)
    ultimately show ?thesis using timestamp_exact [OF assms, of 9] Some False by (simp add: ticks_per_second_def)
  qed
qed

text \<open>A reader that hands its bytes out in chunks, as a pipe does.\<close>

fun chunk_read :: "bytes list read_fn" where
  "chunk_read [] n = (Inr [], [])"
| "chunk_read (c # cs) n = (Inr (take n c), if length c \<le> n then cs else drop n c # cs)"

lemma read_magic_chunks:
  assumes "\<forall>c \<in> set cs. c \<noteq> []" and "4 \<le> length filled + length (concat cs)" and "length filled \<le> 4"
  shows "\<exists>cs'. read_magic chunk_read filled cs = Inr (take 4 (filled @ concat cs), cs')
    \<and> take 4 (filled @ concat cs) @ concat cs' = filled @ concat cs"
  using assms
proof (induction "4 - length filled" arbitrary: filled cs rule: less_induct)
  case less
  show ?case
  proof (cases "length filled < 4")
    case False
    with less.prems show ?thesis by (simp add: read_magic.simps)
  next
    case True
    then obtain c cs2 where cs: "cs = c # cs2" using less.prems(2) by (cases cs) auto
    let ?k = "4 - length filled"
    let ?cs = "if length c \<le> ?k then cs2 else drop ?k c # cs2"
    have c: "0 < length c" using less.prems(1) cs by simp
    have bytes: "(filled @ take ?k c) @ concat ?cs = filled @ concat cs" using cs by auto
    have "\<exists>cs'. read_magic chunk_read (filled @ take ?k c) ?cs
          = Inr (take 4 ((filled @ take ?k c) @ concat ?cs), cs')
        \<and> take 4 ((filled @ take ?k c) @ concat ?cs) @ concat cs' = (filled @ take ?k c) @ concat ?cs"
    proof (rule less.hyps)
      show "4 - length (filled @ take ?k c) < 4 - length filled" using True c
        unfolding length_append length_take by linarith
      show "\<forall>c \<in> set ?cs. c \<noteq> []" using less.prems(1) cs by auto
      show "4 \<le> length (filled @ take ?k c) + length (concat ?cs)"
        using less.prems(2) arg_cong [OF bytes, of length] by simp
      show "length (filled @ take ?k c) \<le> 4"
        using True unfolding length_append length_take by linarith
    qed
    moreover have "read_magic chunk_read filled cs = read_magic chunk_read (filled @ take ?k c) ?cs"
      using True c cs by (subst read_magic.simps) (auto simp: Let_def min_def)
    ultimately show ?thesis unfolding bytes by simp
  qed
qed

text \<open>
  Format detection does not depend on chunking. However a stream of at least four bytes is cut into chunks, the magic
  bytes read are its first four, and those four in front of what the reader has left are the whole stream.
\<close>

lemma magic_chunking_independent:
  assumes "\<forall>c \<in> set chunks. c \<noteq> []" and "4 \<le> length (concat chunks)"
  shows "\<exists>rest. read_magic chunk_read [] chunks = Inr (take 4 (concat chunks), rest)
    \<and> take 4 (concat chunks) @ concat rest = concat chunks"
  using read_magic_chunks [OF assms(1), of "[]"] assms(2) by simp

subsection \<open>Witnesses\<close>

theorem epb_timestamp_exact_witness:
  "correct_epb_timestamp 1700000000123456 None = 1700000000123456000
   \<and> correct_epb_timestamp 1500 (Some 12) = 1500 \<and> correct_epb_timestamp 3 (Some 0x81) = 1500000000"
  using epb_timestamp_exact [of 1700000000123456 None] epb_timestamp_exact [of 1500 "Some 12"]
    epb_timestamp_exact [of 3 "Some 0x81"]
  by (simp add: ticks_per_second_def)

lemma magic_chunking_example:
  "\<exists>rest. read_magic chunk_read [] [[0x0A], [0x0D, 0x0D], [0x0A, 1, 2]] = Inr ([0x0A, 0x0D, 0x0D, 0x0A], rest)
    \<and> [0x0A, 0x0D, 0x0D, 0x0A] @ concat rest = [0x0A, 0x0D, 0x0D, 0x0A, 1, 2]"
  using magic_chunking_independent [of "[[0x0A], [0x0D, 0x0D], [0x0A, 1, 2]]"] by simp

end
