(* ===== verification/Orchestrator.thy ===== *)
theory Orchestrator
  imports Framing Connection_Correct Keylog_Source Lua_Engine Pcap_Input
begin

text \<open>
  \<open>src/orchestrator.rs\<close>: the core loop. \<open>process_frame\<close> takes one TCP frame through connection tracking, reassembly,
  record framing, decryption and dissection, and evicts finished connections. The connection map is an
  association list with distinct keys. The clock readings and file-system results a call meets are its \<open>frame_env\<close>;
  the crates behind decryption, key-log decoding and the Lua machine are the parameter \<open>world\<close>. A panic of any step is
  a value. Messages to standard error are not modelled.
\<close>

type_synonym endpoint = "ip_addr \<times> u16"
type_synonym conn_key = "endpoint \<times> endpoint"

definition conn_key :: "endpoint \<Rightarrow> endpoint \<Rightarrow> conn_key" where
  "conn_key a b = (if a \<le> b then (a, b) else (b, a))"

record connection_meta =
  fin_seen_c2s :: bool
  fin_seen_s2c :: bool
  rst_seen :: bool
  last_activity :: "instant option"

definition default_meta :: connection_meta where
  "default_meta = \<lparr>fin_seen_c2s = False, fin_seen_s2c = False, rst_seen = False, last_activity = None\<rparr>"

definition is_closed :: "connection_meta \<Rightarrow> bool" where
  "is_closed m \<longleftrightarrow> rst_seen m \<or> (fin_seen_c2s m \<and> fin_seen_s2c m)"

record connection =
  client_endpoint :: endpoint
  server_endpoint :: endpoint
  reassembler_c2s :: stream_reassembler
  reassembler_s2c :: stream_reassembler
  conn_state :: "connection_state option"
  tail_c2s :: bytes
  tail_s2c :: bytes
  desynced_c2s :: bool
  desynced_s2c :: bool
  conn_meta :: connection_meta

definition connection_new :: "endpoint \<Rightarrow> endpoint \<Rightarrow> pending_limits \<Rightarrow> connection" where
  "connection_new client server l =
     \<lparr>client_endpoint = client, server_endpoint = server,
      reassembler_c2s = with_pending_limits l, reassembler_s2c = with_pending_limits l,
      conn_state = None, tail_c2s = [], tail_s2c = [], desynced_c2s = False, desynced_s2c = False,
      conn_meta = default_meta\<rparr>"

definition reassembler_for :: "bool \<Rightarrow> connection \<Rightarrow> stream_reassembler" where
  "reassembler_for c2s c = (if c2s then reassembler_c2s c else reassembler_s2c c)"

text \<open>Writing through the reference \<open>reassembler_for\<close> returns.\<close>

definition set_reassembler :: "bool \<Rightarrow> stream_reassembler \<Rightarrow> connection \<Rightarrow> connection" where
  "set_reassembler c2s r c = (if c2s then c\<lparr>reassembler_c2s := r\<rparr> else c\<lparr>reassembler_s2c := r\<rparr>)"

definition is_desynced :: "bool \<Rightarrow> connection \<Rightarrow> bool" where
  "is_desynced c2s c = (if c2s then desynced_c2s c else desynced_s2c c)"

definition mark_desynced :: "bool \<Rightarrow> pending_limits \<Rightarrow> connection \<Rightarrow> connection" where
  "mark_desynced c2s l c =
     (if c2s then c\<lparr>desynced_c2s := True, reassembler_c2s := with_pending_limits l\<rparr>
      else c\<lparr>desynced_s2c := True, reassembler_s2c := with_pending_limits l\<rparr>)"

definition tail_for :: "bool \<Rightarrow> connection \<Rightarrow> bytes" where
  "tail_for c2s c = (if c2s then tail_c2s c else tail_s2c c)"

definition set_tail :: "bool \<Rightarrow> bytes \<Rightarrow> connection \<Rightarrow> connection" where
  "set_tail c2s bs c = (if c2s then c\<lparr>tail_c2s := bs\<rparr> else c\<lparr>tail_s2c := bs\<rparr>)"

definition take_tail :: "bool \<Rightarrow> connection \<Rightarrow> bytes \<times> connection" where
  "take_tail c2s c = (tail_for c2s c, set_tail c2s [] c)"

definition endpoints :: "bool \<Rightarrow> connection \<Rightarrow> endpoint \<times> endpoint" where
  "endpoints c2s c =
     (if c2s then (client_endpoint c, server_endpoint c) else (server_endpoint c, client_endpoint c))"

record decoded_message =
  dm_src_ip :: ip_addr
  dm_dst_ip :: ip_addr
  dm_src_port :: u16
  dm_dst_port :: u16
  dm_tls_app_data :: bytes
  dm_fields :: frame_fields
  dm_timestamp :: duration

record packet_event =
  pe_src_ip :: ip_addr
  pe_dst_ip :: ip_addr
  pe_src_port :: u16
  pe_dst_port :: u16
  pe_seq :: u32
  pe_ack :: u32
  pe_flags :: "string list"
  pe_payload_len :: nat
  pe_timestamp :: duration

definition canonical_flags :: "tcp_flags \<Rightarrow> string list" where
  "canonical_flags f =
     (if fl_syn f then [''syn''] else []) @ (if fl_ack f then [''ack''] else [])
     @ (if fl_fin f then [''fin''] else []) @ (if fl_rst f then [''rst''] else [])
     @ (if fl_psh f then [''psh''] else [])"

definition DEFAULT_MAX_TAIL_BYTES :: nat where
  "DEFAULT_MAX_TAIL_BYTES = 1024 * 1024"

record orchestrator_config =
  idle_timeout :: "duration option"
  sweep_interval :: duration
  max_pending_bytes :: nat
  max_pending_packets :: nat
  max_pending_age :: duration
  max_tail_bytes :: nat
  lua_gc_interval :: duration

definition default_config :: orchestrator_config where
  "default_config =
     \<lparr>idle_timeout = None, sweep_interval = secs 60, max_pending_bytes = DEFAULT_MAX_PENDING_BYTES,
      max_pending_packets = DEFAULT_MAX_PENDING_PACKETS, max_pending_age = DEFAULT_MAX_PENDING_AGE,
      max_tail_bytes = DEFAULT_MAX_TAIL_BYTES, lua_gc_interval = secs 5\<rparr>"

record 'vm orchestrator =
  connections :: "(conn_key \<times> connection) list"
  oc_keylog :: keylog_source
  oc_lua :: "'vm lua_engine"
  oc_config :: orchestrator_config
  last_sweep :: instant
  last_lua_gc :: instant
  logged_no_dissector_ports :: "u16 set"
  evicted_connections :: u64
  gap_abandoned_bytes :: u64
  tail_bytes_discarded :: u64
  connections_desynced :: u64
  tls_records_seen :: u64
  tls_records_decrypted :: u64
  tls_records_authfailed :: u64
  tls_records_nokey :: u64
  tls_records_no_client_hello :: u64
  tls_records_plaintext_handshake :: u64

definition orchestrator_new ::
  "keylog_source \<Rightarrow> 'vm lua_engine \<Rightarrow> orchestrator_config \<Rightarrow> instant \<Rightarrow> instant \<Rightarrow> 'vm orchestrator"
where
  "orchestrator_new kl lua cfg now1 now2 =
     \<lparr>connections = [], oc_keylog = kl, oc_lua = lua, oc_config = cfg, last_sweep = now1, last_lua_gc = now2,
      logged_no_dissector_ports = {}, evicted_connections = 0, gap_abandoned_bytes = 0,
      tail_bytes_discarded = 0, connections_desynced = 0, tls_records_seen = 0, tls_records_decrypted = 0,
      tls_records_authfailed = 0, tls_records_nokey = 0, tls_records_no_client_hello = 0,
      tls_records_plaintext_handshake = 0\<rparr>"

definition active_connections :: "'vm orchestrator \<Rightarrow> nat" where
  "active_connections orc = length (connections orc)"

definition buffered_bytes :: "'vm orchestrator \<Rightarrow> nat" where
  "buffered_bytes orc =
     sum_list (map (\<lambda>(_, c).
        contiguous_len (reassembler_c2s c) + pending_len (reassembler_c2s c)
        + contiguous_len (reassembler_s2c c) + pending_len (reassembler_s2c c)) (connections orc))"

definition orch_lua_used_memory :: "'vm lua_host \<Rightarrow> 'vm orchestrator \<Rightarrow> nat" where
  "orch_lua_used_memory host orc = lua_used_memory host (oc_lua orc)"

definition keylog_entries :: "'vm orchestrator \<Rightarrow> nat" where
  "keylog_entries orc = entry_count (ks_current (oc_keylog orc))"

text \<open>The crates' operations.\<close>

record 'vm world =
  w_crypto :: crypto
  w_hex :: hex_decoder
  w_host :: "'vm lua_host"

text \<open>
  What the clock and the file system answer during one \<open>process_frame\<close>. \<open>fe_records i\<close> is for the \<open>i\<close>-th record drained: the
  environment of its \<open>poll\<close> and of its \<open>poll_after_miss\<close>.
\<close>

record frame_env =
  fe_activity :: instant
  fe_push_t0 :: instant
  fe_push_t1 :: instant
  fe_records :: "nat \<Rightarrow> keylog_env \<times> keylog_env"
  fe_sweep_elapsed :: instant
  fe_sweep_at :: instant
  fe_sweep_now :: instant
  fe_gc_elapsed :: instant
  fe_gc_at :: instant

definition get_conn :: "conn_key \<Rightarrow> 'vm orchestrator \<Rightarrow> connection option" where
  "get_conn key orc = map_of (connections orc) key"

definition put_conn :: "conn_key \<Rightarrow> connection \<Rightarrow> 'vm orchestrator \<Rightarrow> 'vm orchestrator" where
  "put_conn key c orc = orc\<lparr>connections := AList.update key c (connections orc)\<rparr>"

definition remove_conn :: "conn_key \<Rightarrow> 'vm orchestrator \<Rightarrow> 'vm orchestrator" where
  "remove_conn key orc = orc\<lparr>connections := AList.delete key (connections orc)\<rparr>"

definition maybe_gc_lua :: "'vm world \<Rightarrow> frame_env \<Rightarrow> 'vm orchestrator \<Rightarrow> 'vm orchestrator" where
  "maybe_gc_lua w env orc =
     (if elapsed (last_lua_gc orc) (fe_gc_elapsed env) < lua_gc_interval (oc_config orc) then orc
      else orc\<lparr>last_lua_gc := fe_gc_at env, oc_lua := gc_collect (w_host w) (oc_lua orc)\<rparr>)"

definition maybe_sweep_idle :: "frame_env \<Rightarrow> 'vm orchestrator \<Rightarrow> 'vm orchestrator" where
  "maybe_sweep_idle env orc =
     (case idle_timeout (oc_config orc) of
        None \<Rightarrow> orc
      | Some timeout \<Rightarrow>
          if elapsed (last_sweep orc) (fe_sweep_elapsed env) < sweep_interval (oc_config orc) then orc
          else
            let before = length (connections orc);
                kept = filter (\<lambda>(_, c). case last_activity (conn_meta c) of
                                  Some t \<Rightarrow> elapsed t (fe_sweep_now env) < timeout
                                | None \<Rightarrow> True) (connections orc);
                evicted = before - length kept in
            orc\<lparr>last_sweep := fe_sweep_at env, connections := kept,
              evicted_connections := evicted_connections orc + of_nat evicted\<rparr>)"

definition set_tail_capped ::
  "conn_key \<Rightarrow> bool \<Rightarrow> bytes \<Rightarrow> 'vm orchestrator \<Rightarrow> 'vm orchestrator"
where
  "set_tail_capped key c2s bs orc =
     (let cap = max_tail_bytes (oc_config orc);
          discard = length bs - cap;
          (bs', orc1) = (if length bs > cap
                       then (drop discard bs,
                             orc\<lparr>tail_bytes_discarded := tail_bytes_discarded orc + of_nat discard\<rparr>)
                       else (bs, orc)) in
      case get_conn key orc1 of
        None \<Rightarrow> orc1
      | Some c \<Rightarrow> put_conn key (set_tail c2s bs' c) orc1)"

definition dissect_and_emit ::
  "'vm world \<Rightarrow> conn_key \<Rightarrow> bool \<Rightarrow> bytes \<Rightarrow> duration \<Rightarrow> 'vm orchestrator
     \<Rightarrow> panic + ('vm orchestrator \<times> decoded_message list)"
where
  "dissect_and_emit w key c2s plaintext timestamp orc =
     (case get_conn key orc of
        None \<Rightarrow> Inr (orc, [])
      | Some conn \<Rightarrow>
          let (tail, conn1) = take_tail c2s conn;
              buf = tail @ plaintext;
              (src, dst) = endpoints c2s conn1;
              port = snd (server_endpoint conn1) in
          (case dissect (w_host w) port buf (oc_lua orc) of
             Inl p \<Rightarrow> Inl p
           | Inr (res, lua') \<Rightarrow>
               let orc1 = (put_conn key conn1 orc)\<lparr>oc_lua := lua'\<rparr>;
                   (orc2, ff) =
                     (case res of
                        Inr (Some (dissected, consumed)) \<Rightarrow>
                          (set_tail_capped key c2s (drop (min consumed (length buf)) buf) orc1, dissected)
                      | Inr None \<Rightarrow>
                          (orc1\<lparr>logged_no_dissector_ports := insert port (logged_no_dissector_ports orc1)\<rparr>,
                           default_fields)
                      | Inl _ \<Rightarrow> (set_tail_capped key c2s buf orc1, default_fields)) in
               Inr (orc2, [\<lparr>dm_src_ip = fst src, dm_dst_ip = fst dst, dm_src_port = snd src, dm_dst_port = snd dst,
                      dm_tls_app_data = plaintext, dm_fields = ff, dm_timestamp = timestamp\<rparr>])))"

text \<open>The body of the loop in \<open>drain_records\<close> once a record has been taken off the stream.\<close>

definition handle_record ::
  "'vm world \<Rightarrow> conn_key \<Rightarrow> bool \<Rightarrow> duration \<Rightarrow> keylog_env \<times> keylog_env \<Rightarrow> u8 \<Rightarrow> bytes
     \<Rightarrow> connection \<Rightarrow> 'vm orchestrator \<Rightarrow> panic + ('vm orchestrator \<times> decoded_message list)"
where
  "handle_record w key c2s timestamp envs outer_content_type body conn orc0 =
     (let orc = orc0\<lparr>tls_records_seen := tls_records_seen orc0 + 1\<rparr>;
          plaintext_record = (\<lambda>orc. orc\<lparr>tls_records_plaintext_handshake := tls_records_plaintext_handshake orc + 1\<rparr>)
      in
      if outer_content_type = 0x14 then Inr (plaintext_record orc, [])
      else
        case (if c2s \<and> conn_state conn = None then client_random_from_client_hello body else None) of
          Some random \<Rightarrow>
            Inr (plaintext_record (put_conn key (conn\<lparr>conn_state := Some (new_connection random)\<rparr>) orc), [])
        | None \<Rightarrow>
            (case conn_state conn of
               None \<Rightarrow> Inr (orc\<lparr>tls_records_no_client_hello := tls_records_no_client_hello orc + 1\<rparr>, [])
             | Some state0 \<Rightarrow>
                 let (learned, state) =
                       (case (if c2s then None else server_random_from_server_hello body) of
                          None \<Rightarrow> (False, state0)
                        | Some random \<Rightarrow> set_server_random random state0) in
                 if learned
                 then Inr (plaintext_record (put_conn key (conn\<lparr>conn_state := Some state\<rparr>) orc), [])
                 else
                   let kl = poll (w_hex w) (fst envs) (oc_keylog orc);
                       (res, state') = decrypt (w_crypto w) (ks_current kl) c2s outer_content_type body state;
                       orc1 = put_conn key (conn\<lparr>conn_state := Some state'\<rparr>) (orc\<lparr>oc_keylog := kl\<rparr>) in
                   (case res of
                      Inr decrypted \<Rightarrow>
                        let orc2 = orc1\<lparr>tls_records_decrypted := tls_records_decrypted orc1 + 1\<rparr> in
                        if dr_content_type decrypted = 0x17
                        then dissect_and_emit w key c2s (dr_plaintext decrypted) timestamp orc2
                        else Inr (orc2, [])
                    | Inl NoKey \<Rightarrow>
                        Inr (orc1\<lparr>tls_records_nokey := tls_records_nokey orc1 + 1,
                            oc_keylog := poll_after_miss (w_hex w) (snd envs) (oc_keylog orc1)\<rparr>, [])
                    | Inl AuthFailed \<Rightarrow>
                        Inr (orc1\<lparr>tls_records_authfailed := tls_records_authfailed orc1 + 1\<rparr>, []))))"

subsection \<open>Facts the loop's termination needs\<close>

lemma get_put_conn [simp]: "get_conn k (put_conn key c orc) = (if k = key then Some c else get_conn k orc)"
  by (simp add: get_conn_def put_conn_def update_conv')

lemma reassembler_simps [simp]:
  "reassembler_for d (c\<lparr>conn_state := s\<rparr>) = reassembler_for d c"
  "reassembler_for d (set_tail t bs c) = reassembler_for d c"
  "reassembler_for d (set_reassembler d r c) = r"
  "d \<noteq> d' \<Longrightarrow> reassembler_for d (set_reassembler d' r c) = reassembler_for d c"
  by (auto simp: reassembler_for_def set_tail_def set_reassembler_def)

text \<open>Handling a record leaves both reassemblers of the connection as they were.\<close>

definition same_streams :: "connection \<Rightarrow> connection option \<Rightarrow> bool" where
  "same_streams c x \<longleftrightarrow> (\<exists>c'. x = Some c' \<and> (\<forall>d. reassembler_for d c' = reassembler_for d c))"

lemma get_conn_updates [simp]:
  "get_conn k (orc\<lparr>oc_keylog := a\<rparr>) = get_conn k orc"
  "get_conn k (orc\<lparr>oc_lua := b\<rparr>) = get_conn k orc"
  "get_conn k (orc\<lparr>tls_records_seen := n\<rparr>) = get_conn k orc"
  "get_conn k (orc\<lparr>tls_records_decrypted := n\<rparr>) = get_conn k orc"
  "get_conn k (orc\<lparr>tls_records_authfailed := n\<rparr>) = get_conn k orc"
  "get_conn k (orc\<lparr>tls_records_nokey := n\<rparr>) = get_conn k orc"
  "get_conn k (orc\<lparr>tls_records_no_client_hello := n\<rparr>) = get_conn k orc"
  "get_conn k (orc\<lparr>tls_records_plaintext_handshake := n\<rparr>) = get_conn k orc"
  "get_conn k (orc\<lparr>tail_bytes_discarded := n\<rparr>) = get_conn k orc"
  "get_conn k (orc\<lparr>logged_no_dissector_ports := ps\<rparr>) = get_conn k orc"
  by (simp_all add: get_conn_def)

lemma set_tail_capped_get:
  "get_conn key orc = Some c \<Longrightarrow> \<exists>bs'. get_conn key (set_tail_capped key d bs orc) = Some (set_tail d bs' c)"
  "k \<noteq> key \<Longrightarrow> get_conn k (set_tail_capped key d bs orc) = get_conn k orc"
  by (auto simp: set_tail_capped_def Let_def split: option.splits)

lemma dissect_and_emit_streams:
  assumes "get_conn key orc = Some c" and "dissect_and_emit w key d pt ts orc = Inr (orc', out)"
  shows "same_streams c (get_conn key orc')"
proof -
  have capped: "same_streams c (get_conn key (set_tail_capped key d bs ((put_conn key (set_tail d [] c) orc)\<lparr>oc_lua := lua'\<rparr>)))"
    for bs lua'
  proof -
    have "get_conn key ((put_conn key (set_tail d [] c) orc)\<lparr>oc_lua := lua'\<rparr>) = Some (set_tail d [] c)" by simp
    from set_tail_capped_get(1) [OF this, of d bs] show ?thesis by (auto simp: same_streams_def)
  qed
  show ?thesis
    using assms capped
    by (auto simp: dissect_and_emit_def take_tail_def Let_def same_streams_def
        split: sum.splits option.splits prod.splits)
qed

lemma handle_record_streams:
  assumes "get_conn key orc = Some conn" and "handle_record w key c2s ts envs ct body conn orc = Inr (orc', out)"
  shows "same_streams conn (get_conn key orc')"
proof -
  have self: "same_streams conn (Some (conn\<lparr>conn_state := st\<rparr>))" "same_streams conn (Some conn)" for st
    by (simp_all add: same_streams_def)
  have emit: "same_streams conn (get_conn key orc')"
    if "dissect_and_emit w key d pt t ((put_conn key (conn\<lparr>conn_state := st\<rparr>) x)\<lparr>tls_records_decrypted := n\<rparr>)
      = Inr (orc', out)" for d pt t st n x
    using dissect_and_emit_streams [OF _ that, of "conn\<lparr>conn_state := st\<rparr>"] by (simp add: same_streams_def)
  show ?thesis
    using assms self
    by (auto simp: handle_record_def Let_def split: option.splits prod.splits sum.splits process_error.splits if_splits
        intro: emit)
qed

definition stream_ready :: "conn_key \<Rightarrow> bool \<Rightarrow> 'vm orchestrator \<Rightarrow> nat" where
  "stream_ready key c2s orc =
     (case get_conn key orc of None \<Rightarrow> 0 | Some c \<Rightarrow> contiguous_len (reassembler_for c2s c))"

lemma handle_record_ready:
  "handle_record w key c2s ts envs ct body conn (put_conn key conn orc) = Inr (orc', out) \<Longrightarrow>
     stream_ready key c2s orc' = contiguous_len (reassembler_for c2s conn)"
  using handle_record_streams [of key "put_conn key conn orc" conn w c2s ts envs ct body orc' out]
  by (auto simp: same_streams_def stream_ready_def)

text \<open>The loop, with the number of the record to be drained.\<close>

function drain_records ::
  "'vm world \<Rightarrow> conn_key \<Rightarrow> bool \<Rightarrow> duration \<Rightarrow> (nat \<Rightarrow> keylog_env \<times> keylog_env) \<Rightarrow> nat
     \<Rightarrow> 'vm orchestrator \<Rightarrow> decoded_message list \<Rightarrow> panic + ('vm orchestrator \<times> decoded_message list)"
where
  "drain_records w key c2s timestamp envs i orc out =
     (case get_conn key orc of
        None \<Rightarrow> Inr (orc, out)
      | Some conn \<Rightarrow>
          (case read_record contiguous_len peek take_bytes (reassembler_for c2s conn) of
             Inl e \<Rightarrow> Inl e
           | Inr None \<Rightarrow> Inr (orc, out)
           | Inr (Some (ct, body, r)) \<Rightarrow>
               let conn' = set_reassembler c2s r conn in
               (case handle_record w key c2s timestamp (envs i) ct body conn' (put_conn key conn' orc) of
                  Inl e \<Rightarrow> Inl e
                | Inr (orc1, msgs) \<Rightarrow> drain_records w key c2s timestamp envs (Suc i) orc1 (out @ msgs))))"
  by pat_completeness auto
termination
proof (relation "measure (\<lambda>(w, key, c2s, timestamp, envs, i, orc, out). stream_ready key c2s orc)")
  fix w :: "'vm world" and key c2s timestamp and envs :: "nat \<Rightarrow> keylog_env \<times> keylog_env" and i
  fix orc :: "'vm orchestrator" and out conn opt x ct y body r conn' z orc1 msgs
  assume "get_conn key orc = Some conn"
    and "read_record contiguous_len peek take_bytes (reassembler_for c2s conn) = Inr opt"
    and "opt = Some x" and "(ct, y) = x" and "(body, r) = y" and "conn' = set_reassembler c2s r conn"
    and "handle_record w key c2s timestamp (envs i) ct body conn' (put_conn key conn' orc) = Inr z" and "(orc1, msgs) = z"
  then show "((w, key, c2s, timestamp, envs, Suc i, orc1, out @ msgs), w, key, c2s, timestamp, envs, i, orc, out)
      \<in> measure (\<lambda>(w, key, c2s, timestamp, envs, i, orc, out). stream_ready key c2s orc)"
    using read_record_consumes [of "reassembler_for c2s conn" ct body r]
      handle_record_ready [of w key c2s timestamp "envs i" ct body conn' orc orc1 msgs]
    by (auto simp: stream_ready_def)
qed simp

declare drain_records.simps [simp del]

definition orch_limits :: "'vm orchestrator \<Rightarrow> pending_limits" where
  "orch_limits orc =
     \<lparr>max_bytes = max_pending_bytes (oc_config orc), max_packets = max_pending_packets (oc_config orc),
      max_age = max_pending_age (oc_config orc)\<rparr>"

definition packet_event_of :: "tcp_frame \<Rightarrow> duration \<Rightarrow> packet_event" where
  "packet_event_of frame timestamp =
     \<lparr>pe_src_ip = src_ip frame, pe_dst_ip = dst_ip frame, pe_src_port = src_port frame,
      pe_dst_port = dst_port frame, pe_seq = tf_seq frame, pe_ack = ack_number frame,
      pe_flags = canonical_flags (tf_flags frame), pe_payload_len = range_len (payload_range frame),
      pe_timestamp = timestamp\<rparr>"

text \<open>The connection a frame belongs to, with its direction: found, or created with this frame's source as the client.\<close>

definition track_frame ::
  "tcp_frame \<Rightarrow> frame_env \<Rightarrow> 'vm orchestrator \<Rightarrow> conn_key \<times> bool \<times> connection"
where
  "track_frame frame env orc =
     (let src = (src_ip frame, src_port frame); dst = (dst_ip frame, dst_port frame);
          key = conn_key src dst;
          is_new = (get_conn key orc = None);
          conn0 = (case get_conn key orc of
                     Some c \<Rightarrow> c | None \<Rightarrow> connection_new src dst (orch_limits orc));
          conn1 = (if is_new \<and> fl_syn (tf_flags frame) \<and> \<not> fl_ack (tf_flags frame)
                   then conn0\<lparr>client_endpoint := src, server_endpoint := dst\<rparr> else conn0);
          c2s = (src = client_endpoint conn1);
          conn2 = (if fl_syn (tf_flags frame)
                   then set_reassembler c2s (set_isn (tf_seq frame + 1) (reassembler_for c2s conn1)) conn1
                   else conn1);
          meta1 = (if fl_fin (tf_flags frame)
                   then (if c2s then (conn_meta conn2)\<lparr>fin_seen_c2s := True\<rparr>
                         else (conn_meta conn2)\<lparr>fin_seen_s2c := True\<rparr>)
                   else conn_meta conn2);
          meta2 = (if fl_rst (tf_flags frame) then meta1\<lparr>rst_seen := True\<rparr> else meta1) in
      (key, c2s, conn2\<lparr>conn_meta := meta2\<lparr>last_activity := Some (fe_activity env)\<rparr>\<rparr>))"

text \<open>Feeding a frame's payload to its direction: a gap abandoned marks the direction desynced.\<close>

definition feed_payload ::
  "tcp_frame \<Rightarrow> nat \<Rightarrow> bytes \<Rightarrow> frame_env \<Rightarrow> conn_key \<Rightarrow> bool \<Rightarrow> connection \<Rightarrow> 'vm orchestrator \<Rightarrow> 'vm orchestrator"
where
  "feed_payload frame packet_index payload env key c2s conn orc =
     (if payload \<noteq> [] \<and> \<not> is_desynced c2s conn then
        (let (outcome, r) = push (fe_push_t0 env) (fe_push_t1 env) packet_index (tf_seq frame)
                              (payload_range frame) payload (reassembler_for c2s conn);
             conn' = set_reassembler c2s r conn in
         case outcome of
           GapAbandoned n \<Rightarrow>
             put_conn key (mark_desynced c2s (orch_limits orc) conn')
               (orc\<lparr>gap_abandoned_bytes := gap_abandoned_bytes orc + of_nat n,
                    connections_desynced := connections_desynced orc + 1\<rparr>)
         | _ \<Rightarrow> put_conn key conn' orc)
      else put_conn key conn orc)"

definition evict_closed :: "conn_key \<Rightarrow> 'vm orchestrator \<Rightarrow> 'vm orchestrator" where
  "evict_closed key orc =
     (let should_evict = (case get_conn key orc of None \<Rightarrow> False | Some c \<Rightarrow> is_closed (conn_meta c)) in
      if should_evict
      then (remove_conn key orc)\<lparr>evicted_connections := evicted_connections orc + 1\<rparr>
      else orc)"

definition process_frame ::
  "'vm world \<Rightarrow> tcp_frame \<Rightarrow> nat \<Rightarrow> bytes \<Rightarrow> duration \<Rightarrow> frame_env \<Rightarrow> 'vm orchestrator
     \<Rightarrow> panic + (packet_event \<times> decoded_message list \<times> 'vm orchestrator)"
where
  "process_frame w frame packet_index packet_data timestamp env orc =
     (let event = packet_event_of frame timestamp;
          (key, c2s, conn) = track_frame frame env orc in
      case index_range (payload_range frame) packet_data of
        Inl e \<Rightarrow> Inl e
      | Inr payload \<Rightarrow>
          (case drain_records w key c2s timestamp (fe_records env) 0
                  (feed_payload frame packet_index payload env key c2s conn orc) [] of
             Inl e \<Rightarrow> Inl e
           | Inr (orc1, out) \<Rightarrow>
               Inr (event, out, maybe_gc_lua w env (maybe_sweep_idle env (evict_closed key orc1)))))"

end
