(* ===== verification/Calendar.thy ===== *)
theory Calendar
  imports Strings
begin

text \<open>
  The calendar computation of \<open>src/ek_output.rs\<close>: \<open>civil_from_days\<close> and \<open>index_date\<close>. The reference is the Gregorian
  calendar as a successor function on dates. The source computes in \<open>i64\<close> and \<open>u64\<close>; a day number derived from a
  \<open>Duration\<close> is below 2^48, so nothing wraps, and the model uses \<open>int\<close>.
\<close>

text \<open>Division of the source language on signed integers rounds towards zero.\<close>

definition trunc_div :: "int \<Rightarrow> int \<Rightarrow> int" where
  "trunc_div a b = (if a \<ge> 0 then a div b else - ((- a) div b))"

definition civil_from_days :: "int \<Rightarrow> int \<times> int \<times> int" where
  "civil_from_days z0 =
     (let z = z0 + 719468;
          era = trunc_div (if z \<ge> 0 then z else z - 146096) 146097;
          doe = z - era * 146097;
          yoe = (doe - doe div 1460 + doe div 36524 - doe div 146096) div 365;
          y = yoe + era * 400;
          doy = doe - (365 * yoe + yoe div 4 - yoe div 100);
          mp = (5 * doy + 2) div 153;
          d = doy - (153 * mp + 2) div 5 + 1;
          m = (if mp < 10 then mp + 3 else mp - 9) in
      (if m \<le> 2 then y + 1 else y, m, d))"

definition index_date :: "duration \<Rightarrow> string" where
  "index_date timestamp =
     (let days = int ((timestamp div 1000000000) div 86400);
          (y, m, d) = civil_from_days days in
      fmt_dec_pad 4 (nat y) @ ''-'' @ fmt_dec_pad 2 (nat m) @ ''-'' @ fmt_dec_pad 2 (nat d))"

subsection \<open>The Gregorian calendar\<close>

definition leap_year :: "int \<Rightarrow> bool" where
  "leap_year y \<longleftrightarrow> y mod 4 = 0 \<and> (y mod 100 \<noteq> 0 \<or> y mod 400 = 0)"

definition days_in_month :: "int \<Rightarrow> int \<Rightarrow> int" where
  "days_in_month y m =
     (if m = 2 then (if leap_year y then 29 else 28) else if m \<in> {4, 6, 9, 11} then 30 else 31)"

definition next_day :: "int \<times> int \<times> int \<Rightarrow> int \<times> int \<times> int" where
  "next_day = (\<lambda>(y, m, d).
     if d < days_in_month y m then (y, m, d + 1) else if m < 12 then (y, m + 1, 1) else (y + 1, 1, 1))"

lemma era_floor: "trunc_div (if z \<ge> 0 then z else z - 146096) 146097 = z div 146097"
proof (cases "z \<ge> 0")
  case False
  have "146096 - z = 146097 * (- (z div 146097)) + (146096 - z mod 146097)"
    using mult_div_mod_eq [of 146097 z] by (simp add: algebra_simps)
  then have "(146096 - z) div 146097 = - (z div 146097)"
    by (rule int_div_pos_eq) (use pos_mod_bound [of 146097 z] pos_mod_sign [of 146097 z] in simp_all)
  then show ?thesis using False by (simp add: trunc_div_def)
qed (simp add: trunc_div_def)

text \<open>A day of the 400-year era as a year that starts in March and a day of that year.\<close>

definition march_start :: "int \<Rightarrow> int" where
  "march_start y = 365 * y + y div 4 - y div 100"

definition march_length :: "int \<Rightarrow> int" where
  "march_length y = (if leap_year (y + 1) then 366 else 365)"

definition era_ticks :: "int \<Rightarrow> int" where
  "era_ticks doe = doe - doe div 1460 + doe div 36524 - doe div 146096"

lemma era_ticks_step: "era_ticks x \<le> era_ticks (x + 1)"
proof -
  have "(x + 1) div 1460 \<le> (x + 1460) div 1460" by (rule zdiv_mono1) simp_all
  then have a: "(x + 1) div 1460 \<le> x div 1460 + 1" by simp
  have "(x + 1) div 36524 \<le> (x + 36524) div 36524" "x div 36524 \<le> (x + 1) div 36524"
    by (rule zdiv_mono1; simp)+
  then have "(x + 1) div 36524 = x div 36524 \<or> (x + 1) div 36524 = x div 36524 + 1" by auto
  moreover have "w div 146096 = (w div 36524) div 4" for w :: int
    using zdiv_zmult2_eq [of 4 w 36524] by simp
  moreover have "u - u div 4 \<le> (u + 1) - (u + 1) div 4" for u :: int by presburger
  ultimately have "x div 36524 - x div 146096 \<le> (x + 1) div 36524 - (x + 1) div 146096"
    by (metis order_refl)
  then show ?thesis using a by (simp add: era_ticks_def)
qed

lemma era_ticks_mono: "a \<le> b \<Longrightarrow> era_ticks a \<le> era_ticks b"
proof (induction b rule: int_ge_induct)
  case (step i)
  then show ?case using era_ticks_step [of i] by simp
qed simp

text \<open>The 400 years of an era, checked one by one.\<close>

definition year_checks :: "int \<Rightarrow> bool" where
  "year_checks y \<longleftrightarrow> 365 * y \<le> era_ticks (march_start y)
     \<and> era_ticks (march_start y + march_length y - 1) \<le> 365 * y + 364
     \<and> march_start (y + 1) + (if y = 399 then 1 else 0) = march_start y + march_length y
     \<and> 0 \<le> march_start y \<and> march_start y + march_length y \<le> 146097"

lemma year_checks_all: "list_all year_checks [0..399]"
  by code_simp

lemma year_checks: "0 \<le> y \<Longrightarrow> y \<le> 399 \<Longrightarrow> year_checks y"
  using year_checks_all by (simp add: list_all_iff)

lemma era_year_exists:
  assumes "0 \<le> doe" and "doe < 146097"
  shows "\<exists>y. 0 \<le> y \<and> y \<le> 399 \<and> march_start y \<le> doe \<and> doe < march_start y + march_length y"
  using assms
proof (induction doe rule: int_ge_induct)
  case base
  show ?case by (intro exI [of _ 0]) (simp add: march_start_def march_length_def)
next
  case (step doe)
  then obtain y where y: "0 \<le> y" "y \<le> 399" "march_start y \<le> doe" "doe < march_start y + march_length y" by auto
  show ?case
  proof (cases "doe + 1 < march_start y + march_length y")
    case True
    then show ?thesis using y by (intro exI [of _ y]) simp
  next
    case False
    then have eq: "doe + 1 = march_start y + march_length y" using y(4) by simp
    have ck: "march_start (y + 1) + (if y = 399 then 1 else 0) = march_start y + march_length y"
      using year_checks [OF y(1,2)] by (simp add: year_checks_def)
    have "y \<noteq> 399"
    proof
      assume "y = 399"
      then have "doe + 1 = 146097" using eq ck by (simp add: march_start_def)
      then show False using step.prems by simp
    qed
    then show ?thesis
      using y(1,2) eq ck by (intro exI [of _ "y + 1"]) (simp add: march_length_def)
  qed
qed

lemma year_of_era:
  assumes "0 \<le> y" "y \<le> 399" "march_start y \<le> doe" "doe < march_start y + march_length y"
  shows "era_ticks doe div 365 = y"
proof -
  have "365 * y \<le> era_ticks doe" "era_ticks doe \<le> 365 * y + 364"
    using year_checks [OF assms(1,2)] era_ticks_mono [OF assms(3)]
      era_ticks_mono [of doe "march_start y + march_length y - 1"] assms(4)
    by (auto simp: year_checks_def)
  then show ?thesis by (intro int_div_pos_eq [of _ _ _ "era_ticks doe - 365 * y"]) simp_all
qed

text \<open>The day of a March year as year carry, month and day.\<close>

definition march_date :: "int \<Rightarrow> int \<times> int \<times> int" where
  "march_date doy =
     (let mp = (5 * doy + 2) div 153; m = (if mp < 10 then mp + 3 else mp - 9) in
      (if m \<le> 2 then 1 else 0, m, doy - (153 * mp + 2) div 5 + 1))"

definition add_years :: "int \<Rightarrow> int \<times> int \<times> int \<Rightarrow> int \<times> int \<times> int" where
  "add_years y = (\<lambda>(c, m, d). (y + c, m, d))"

lemma civil_from_days_eq:
  assumes "z + 719468 = 146097 * e + march_start y + r"
    and "0 \<le> y" "y \<le> 399" "0 \<le> r" "r < march_length y"
  shows "civil_from_days z = add_years (y + e * 400) (march_date r)"
proof -
  have rng: "0 \<le> march_start y + r" "march_start y + r < 146097"
    using year_checks [OF assms(2,3)] assms(4,5) by (simp_all add: year_checks_def)
  have era: "(z + 719468) div 146097 = e"
    using assms(1) rng by (intro int_div_pos_eq [of _ _ _ "march_start y + r"]) simp_all
  have yoe: "era_ticks (march_start y + r) div 365 = y"
    by (rule year_of_era [OF assms(2,3)]) (use assms(4,5) in simp_all)
  have doe: "z + 719468 - e * 146097 = march_start y + r" using assms(1) by simp
  have doy: "march_start y + r - (365 * y + y div 4 - y div 100) = r" by (simp add: march_start_def)
  have carry: "add_years Y (if b then 1 else 0, m, d) = (if b then Y + 1 else Y, m, d)" for Y b m d
    by (simp add: add_years_def)
  show ?thesis
    unfolding civil_from_days_def Let_def era_floor era doe
    unfolding era_ticks_def [symmetric] yoe doy march_date_def Let_def carry ..
qed

lemma civil_decompose:
  "\<exists>e y r. z + 719468 = 146097 * e + march_start y + r \<and> 0 \<le> y \<and> y \<le> 399 \<and> 0 \<le> r \<and> r < march_length y"
proof -
  let ?e = "(z + 719468) div 146097" and ?doe = "(z + 719468) mod 146097"
  obtain y where y: "0 \<le> y" "y \<le> 399" "march_start y \<le> ?doe" "?doe < march_start y + march_length y"
    using era_year_exists [of ?doe] by auto
  have "z + 719468 = 146097 * ?e + march_start y + (?doe - march_start y)" by simp
  then show ?thesis using y by (intro exI [of _ ?e] exI [of _ y] exI [of _ "?doe - march_start y"]) simp
qed

text \<open>The 366 days of a March year, checked one by one; \<open>leap\<close> says whether its February has 29 days.\<close>

definition month_days :: "bool \<Rightarrow> int \<Rightarrow> int" where
  "month_days leap m = (if m = 2 then (if leap then 29 else 28) else if m \<in> {4, 6, 9, 11} then 30 else 31)"

definition step_day :: "bool \<Rightarrow> int \<times> int \<times> int \<Rightarrow> int \<times> int \<times> int" where
  "step_day leap = (\<lambda>(c, m, d).
     if d < month_days leap m then (c, m, d + 1) else if m < 12 then (c, m + 1, 1) else (c + 1, 1, 1))"

definition day_checks :: "bool \<Rightarrow> int \<Rightarrow> bool" where
  "day_checks leap r \<longleftrightarrow>
     step_day leap (march_date r)
       = (if r = (if leap then 365 else 364) then (1, 3, 1) else march_date (r + 1))
     \<and> (fst (snd (march_date r)) = 2 \<longrightarrow> fst (march_date r) = 1)"

lemma day_checks_all: "list_all (day_checks False) [0..364]" "list_all (day_checks True) [0..365]"
  by (code_simp, code_simp)

lemma day_checks: "0 \<le> r \<Longrightarrow> r < (if leap then 366 else 365) \<Longrightarrow> day_checks leap r"
  using day_checks_all by (cases leap) (simp_all add: list_all_iff)

lemma next_day_march:
  assumes "m = 2 \<longrightarrow> c = 1"
  shows "next_day (y + c, m, d) = add_years y (step_day (leap_year (y + 1)) (c, m, d))"
  using assms by (auto simp: next_day_def add_years_def step_day_def month_days_def days_in_month_def add.assoc)

lemma leap_year_era: "leap_year (y + e * 400) = leap_year y"
proof -
  have "(y + e * 400) mod 4 = y mod 4" "(y + e * 400) mod 100 = y mod 100" "(y + e * 400) mod 400 = y mod 400"
    using mod_mult_self1 [of y "e * 100" 4] mod_mult_self1 [of y "e * 4" 100] mod_mult_self1 [of y e 400]
    by (simp_all add: mult.assoc)
  then show ?thesis by (simp add: leap_year_def)
qed

subsection \<open>Properties\<close>

text \<open>
  C35 (calendar dates). Day 0 is 1 January 1970, and for every day number, negative ones included, the date of the next
  day number is the next date of the Gregorian calendar.
\<close>

theorem civil_from_days_gregorian:
  "civil_from_days 0 = (1970, 1, 1) \<and> civil_from_days (z + 1) = next_day (civil_from_days z)"
proof
  show "civil_from_days 0 = (1970, 1, 1)" by code_simp
  obtain e y r where d: "z + 719468 = 146097 * e + march_start y + r" "0 \<le> y" "y \<le> 399" "0 \<le> r"
      "r < march_length y"
    using civil_decompose by blast
  let ?y = "y + e * 400" and ?leap = "leap_year (y + 1)"
  obtain c m dd where md: "march_date r = (c, m, dd)" by (rule prod_cases3)
  have ck: "day_checks ?leap r" using d(4,5) by (intro day_checks) (simp_all add: march_length_def)
  have leap: "leap_year (?y + 1) = ?leap" using leap_year_era [of "y + 1" e] by (simp add: algebra_simps)
  have "next_day (civil_from_days z) = add_years ?y (step_day ?leap (march_date r))"
    using civil_from_days_eq [OF d] next_day_march [of m c ?y dd] ck md leap
    by (simp add: add_years_def day_checks_def)
  moreover have "civil_from_days (z + 1) = add_years ?y (step_day ?leap (march_date r))"
  proof (cases "r + 1 < march_length y")
    case True
    then have "civil_from_days (z + 1) = add_years ?y (march_date (r + 1))"
      using d by (intro civil_from_days_eq) simp_all
    then show ?thesis using ck True by (simp add: day_checks_def march_length_def split: if_splits)
  next
    case False
    then have r: "r = (if ?leap then 365 else 364)" using d(5) by (simp add: march_length_def split: if_splits)
    have end': "march_start (y + 1) + (if y = 399 then 1 else 0) = march_start y + march_length y"
      using year_checks [OF d(2,3)] by (simp add: year_checks_def)
    have first: "march_date 0 = (0, 3, 1)" by code_simp
    have "civil_from_days (z + 1) = add_years (?y + 1) (march_date 0)"
    proof (cases "y = 399")
      case True
      have "civil_from_days (z + 1) = add_years (0 + (e + 1) * 400) (march_date 0)"
        using d(1) False d(5) end' True by (intro civil_from_days_eq) (simp_all add: march_start_def march_length_def)
      then show ?thesis using True by (simp add: add.commute)
    next
      case False': False
      have "civil_from_days (z + 1) = add_years ((y + 1) + e * 400) (march_date 0)"
        using d False end' False' by (intro civil_from_days_eq) (simp_all add: march_length_def)
      then show ?thesis by (simp add: algebra_simps)
    qed
    then show ?thesis using ck r first by (simp add: day_checks_def add_years_def)
  qed
  ultimately show "civil_from_days (z + 1) = next_day (civil_from_days z)" by simp
qed

end
