(* ===== verification/Json.thy ===== *)
theory Json
  imports Strings
begin

text \<open>
  JSON values, their compact text, and a strict parser for it: the reference the output formats of
  \<open>src/ek_output.rs\<close> are compared with. The escaping of strings is the source's \<open>write_json_string\<close>. Text is a list of
  UTF-8 bytes; the bytes of a code point outside ASCII pass through \<open>write_json_string\<close> unchanged, so working by bytes
  agrees with the source's loop over code points.
\<close>

definition DQ :: char where "DQ = CHR 0x22"
definition BSLASH :: char where "BSLASH = CHR 0x5C"

text \<open>The arms of the \<open>match\<close> in \<open>write_json_string\<close>; the format of the last but one is \<open>\u{:04x}\<close>.\<close>

definition escape_char :: "char \<Rightarrow> string" where
  "escape_char c =
     (if c = DQ then [BSLASH, DQ]
      else if c = BSLASH then [BSLASH, BSLASH]
      else if c = CHR 0x0A then [BSLASH, CHR ''n'']
      else if c = CHR 0x0D then [BSLASH, CHR ''r'']
      else if c = CHR 0x09 then [BSLASH, CHR ''t'']
      else if (of_char c :: nat) < 0x20
      then [BSLASH, CHR ''u'', CHR ''0'', CHR ''0'', hex_digit (of_char c div 16), hex_digit (of_char c mod 16)]
      else [c])"

fun escape_chars :: "string \<Rightarrow> string" where
  "escape_chars [] = []"
| "escape_chars (c # cs) = escape_char c @ escape_chars cs"

definition write_json_string :: "string \<Rightarrow> string" where
  "write_json_string s = [DQ] @ escape_chars s @ [DQ]"

text \<open>Parts with a comma before each but the first, as the source's loops with a \<open>first\<close> flag write them.\<close>

fun write_parts :: "bool \<Rightarrow> string list \<Rightarrow> string" where
  "write_parts first [] = []"
| "write_parts first (p # ps) = (if first then [] else '','') @ p @ write_parts False ps"

subsection \<open>Values and their text\<close>

datatype json = JNum nat | JStr string | JArr "json list" | JObj "(string \<times> json) list"

fun json_text :: "json \<Rightarrow> string" where
  "json_text (JNum n) = fmt_dec n"
| "json_text (JStr s) = write_json_string s"
| "json_text (JArr js) = ''['' @ write_parts True (map json_text js) @ '']''"
| "json_text (JObj ms) =
     ''{'' @ write_parts True (map (\<lambda>(k, j). write_json_string k @ '':'' @ json_text j) ms) @ ''}''"

subsection \<open>A strict parser\<close>

definition hex_val :: "char \<Rightarrow> nat option" where
  "hex_val c =
     (if byte_in 0x30 0x39 c then Some (of_char c - 0x30)
      else if byte_in 0x61 0x66 c then Some (of_char c - 0x61 + 10)
      else if byte_in 0x41 0x46 c then Some (of_char c - 0x41 + 10) else None)"

text \<open>One escape after the backslash; \<open>\u\<close> escapes are taken for ASCII code points only.\<close>

fun parse_escape :: "string \<Rightarrow> (char \<times> string) option" where
  "parse_escape [] = None"
| "parse_escape (c # s) =
     (if c = DQ \<or> c = BSLASH \<or> c = CHR ''/'' then Some (c, s)
      else if c = CHR ''n'' then Some (CHR 0x0A, s)
      else if c = CHR ''r'' then Some (CHR 0x0D, s)
      else if c = CHR ''t'' then Some (CHR 0x09, s)
      else if c = CHR ''b'' then Some (CHR 0x08, s)
      else if c = CHR ''f'' then Some (CHR 0x0C, s)
      else if c = CHR ''u'' then
        (case map hex_val (take 4 s) of
           [Some a, Some b, Some x, Some y] \<Rightarrow>
             (let n = ((a * 16 + b) * 16 + x) * 16 + y in
              if n < 0x80 then Some (char_of n, drop 4 s) else None)
         | _ \<Rightarrow> None)
      else None)"

lemma parse_escape_shorter: "parse_escape s = Some (c, s') \<Longrightarrow> length s' < length s"
  by (cases s) (auto simp: Let_def split: if_splits list.splits option.splits)

text \<open>The rest of a string after its opening quote; a bare control character is an error.\<close>

function parse_chars :: "string \<Rightarrow> (string \<times> string) option" where
  "parse_chars [] = None"
| "parse_chars (c # s) =
     (if c = DQ then Some ([], s)
      else if c = BSLASH then
        (case parse_escape s of
           None \<Rightarrow> None
         | Some (d, s') \<Rightarrow> (case parse_chars s' of None \<Rightarrow> None | Some (ds, r) \<Rightarrow> Some (d # ds, r)))
      else if (of_char c :: nat) < 0x20 then None
      else (case parse_chars s of None \<Rightarrow> None | Some (ds, r) \<Rightarrow> Some (c # ds, r)))"
  by pat_completeness auto
termination
  by (relation "measure length") (auto dest: parse_escape_shorter)

definition parse_string :: "string \<Rightarrow> (string \<times> string) option" where
  "parse_string s = (case s of [] \<Rightarrow> None | c # s' \<Rightarrow> if c = DQ then parse_chars s' else None)"

text \<open>A number without sign, fraction and exponent, and without leading zeros.\<close>

definition parse_number :: "string \<Rightarrow> (nat \<times> string) option" where
  "parse_number s =
     (let ds = takeWhile dec_digit s in
      if ds = [] \<or> (hd ds = CHR ''0'' \<and> tl ds \<noteq> []) then None
      else Some (dec_val ds, dropWhile dec_digit s))"

text \<open>Values; the first argument bounds the nesting and the number of elements.\<close>

fun parse_value :: "nat \<Rightarrow> string \<Rightarrow> (json \<times> string) option"
and parse_elements :: "nat \<Rightarrow> string \<Rightarrow> (json list \<times> string) option"
and parse_members :: "nat \<Rightarrow> string \<Rightarrow> ((string \<times> json) list \<times> string) option"
where
  "parse_value 0 s = None"
| "parse_value (Suc n) s =
     (case s of
        [] \<Rightarrow> None
      | c # s' \<Rightarrow>
          if c = DQ then map_option (\<lambda>(x, r). (JStr x, r)) (parse_string s)
          else if c = CHR ''['' then
            (case s' of
               d # r \<Rightarrow> if d = CHR '']'' then Some (JArr [], r)
                        else map_option (\<lambda>(js, r). (JArr js, r)) (parse_elements n s')
             | [] \<Rightarrow> None)
          else if c = CHR ''{'' then
            (case s' of
               d # r \<Rightarrow> if d = CHR ''}'' then Some (JObj [], r)
                        else map_option (\<lambda>(ms, r). (JObj ms, r)) (parse_members n s')
             | [] \<Rightarrow> None)
          else map_option (\<lambda>(x, r). (JNum x, r)) (parse_number s))"
| "parse_elements 0 s = None"
| "parse_elements (Suc n) s =
     (case parse_value n s of
        Some (j, c # r) \<Rightarrow>
          if c = CHR '']'' then Some ([j], r)
          else if c = CHR '','' then map_option (\<lambda>(js, r'). (j # js, r')) (parse_elements n r)
          else None
      | _ \<Rightarrow> None)"
| "parse_members 0 s = None"
| "parse_members (Suc n) s =
     (case parse_string s of
        Some (k, d # s') \<Rightarrow>
          if d = CHR '':'' then
            (case parse_value n s' of
               Some (j, c # r) \<Rightarrow>
                 if c = CHR ''}'' then Some ([(k, j)], r)
                 else if c = CHR '','' then map_option (\<lambda>(ms, r'). ((k, j) # ms, r')) (parse_members n r)
                 else None
             | _ \<Rightarrow> None)
          else None
      | _ \<Rightarrow> None)"

text \<open>A whole text: one value and nothing after it.\<close>

definition parse_json :: "string \<Rightarrow> json option" where
  "parse_json s = (case parse_value (Suc (length s)) s of Some (j, []) \<Rightarrow> Some j | _ \<Rightarrow> None)"

subsection \<open>Strings\<close>

lemma hex_val_digit: "n < 16 \<Longrightarrow> hex_val (hex_digit n) = Some n"
  by (auto simp: hex_val_def hex_digit_def byte_in_def)

lemma escape_char_parse:
  "parse_chars (escape_char c @ s) = map_option (\<lambda>(ds, r). (c # ds, r)) (parse_chars s)"
proof -
  have q: "DQ \<noteq> BSLASH" "BSLASH \<noteq> DQ" "CHR ''u'' \<noteq> DQ" "CHR ''u'' \<noteq> BSLASH" "CHR ''n'' \<noteq> DQ" "CHR ''n'' \<noteq> BSLASH"
      "CHR ''r'' \<noteq> DQ" "CHR ''r'' \<noteq> BSLASH" "CHR ''t'' \<noteq> DQ" "CHR ''t'' \<noteq> BSLASH"
    by (simp_all add: DQ_def BSLASH_def)
  have z: "hex_val (CHR ''0'') = Some 0" by code_simp
  have u: "parse_escape (CHR ''u'' # CHR ''0'' # CHR ''0'' # hex_digit (of_char c div 16)
      # hex_digit (of_char c mod 16) # s) = Some (c, s)" if "(of_char c :: nat) < 0x20"
  proof -
    have "(of_char c :: nat) div 16 < 16" using that by auto
    moreover have "(of_char c :: nat) div 16 * 16 + of_char c mod 16 = of_char c" by simp
    ultimately show ?thesis using that by (simp add: q z hex_val_digit Let_def)
  qed
  show ?thesis
    using u by (simp add: escape_char_def q split: option.splits)
qed

lemma parse_chars_escape: "parse_chars (escape_chars cs @ [DQ] @ s) = Some (cs, s)"
  by (induction cs) (simp_all add: escape_char_parse)

lemma parse_string_write: "parse_string (write_json_string cs @ s) = Some (cs, s)"
  using parse_chars_escape [of cs s] by (simp add: parse_string_def write_json_string_def)

subsection \<open>Numbers\<close>

lemma fmt_dec_no_zero: "hd (fmt_dec n) = CHR ''0'' \<Longrightarrow> n = 0"
proof (induction n rule: fmt_dec.induct)
  case (1 n)
  show ?case
  proof (cases "n < 10")
    case True
    then have "hd (fmt_dec n) = char_of (0x30 + n)" by (subst fmt_dec.simps) simp
    then have "char_of (0x30 + n) = CHR ''0''" using 1(2) by (rule trans [OF sym])
    then have "0x30 + n = of_char (CHR ''0'')" using of_char_digit [OF True] by metis
    then show ?thesis by simp
  next
    case False
    have "fmt_dec (n div 10) \<noteq> []" using fmt_dec_val by blast
    then have "hd (fmt_dec n) = hd (fmt_dec (n div 10))" using False by (subst fmt_dec.simps) simp
    then show ?thesis using 1 False by simp
  qed
qed

lemma fmt_dec_zero: "fmt_dec 0 = ''0''"
  by code_simp

lemma parse_number_fmt:
  assumes "s = [] \<or> \<not> dec_digit (hd s)"
  shows "parse_number (fmt_dec n @ s) = Some (n, s)"
proof -
  have d: "\<forall>c \<in> set (fmt_dec n). dec_digit c" "fmt_dec n \<noteq> []" "dec_val (fmt_dec n) = n"
    using fmt_dec_val [of n] by (auto simp: list_all_iff)
  have t: "takeWhile dec_digit (fmt_dec n @ s) = fmt_dec n" "dropWhile dec_digit (fmt_dec n @ s) = s"
    using d(1) assms by (cases s; simp)+
  have "\<not> (hd (fmt_dec n) = CHR ''0'' \<and> tl (fmt_dec n) \<noteq> [])"
    using fmt_dec_no_zero [of n] fmt_dec_zero by auto
  then show ?thesis using t d by (simp add: parse_number_def Let_def)
qed

lemma json_text_head: "\<exists>c cs. json_text j = c # cs \<and> (dec_digit c \<or> c = DQ \<or> c = CHR ''['' \<or> c = CHR ''{'')"
proof (cases j)
  case (JNum n)
  then show ?thesis using fmt_dec_val [of n] by (cases "fmt_dec n") auto
qed (simp_all add: write_json_string_def)

subsection \<open>Values\<close>

text \<open>How much of the parser's bound a value takes.\<close>

fun json_fuel :: "json \<Rightarrow> nat" where
  "json_fuel (JNum n) = 1"
| "json_fuel (JStr s) = 1"
| "json_fuel (JArr js) = Suc (foldr (\<lambda>f m. Suc (max f m)) (map json_fuel js) 0)"
| "json_fuel (JObj ms) = Suc (foldr (\<lambda>f m. Suc (max f m)) (map (\<lambda>(k, j). json_fuel j) ms) 0)"

abbreviation ends_value :: "string \<Rightarrow> bool" where
  "ends_value s \<equiv> s = [] \<or> \<not> dec_digit (hd s)"

lemma punctuation [simp]:
  "\<not> dec_digit (CHR '','')" "\<not> dec_digit (CHR '']'')" "\<not> dec_digit (CHR ''}'')" "\<not> dec_digit DQ"
  "\<not> dec_digit (CHR ''['')" "\<not> dec_digit (CHR ''{'')" "DQ \<noteq> CHR ''[''" "DQ \<noteq> CHR ''{''" "DQ \<noteq> CHR '']''" "DQ \<noteq> CHR ''}''"
  "CHR ''['' \<noteq> DQ" "CHR ''{'' \<noteq> DQ"
  by (simp_all add: dec_digit_def byte_in_def DQ_def)

lemma parse_elements_text:
  assumes "\<And>j n s. j \<in> set js \<Longrightarrow> json_fuel j \<le> n \<Longrightarrow> ends_value s \<Longrightarrow>
      parse_value n (json_text j @ s) = Some (j, s)"
    and "js \<noteq> []" and "foldr (\<lambda>f m. Suc (max f m)) (map json_fuel js) 0 \<le> n"
  shows "parse_elements n (write_parts True (map json_text js) @ CHR '']'' # s) = Some (js, s)"
  using assms
proof (induction js arbitrary: n)
  case (Cons j js)
  then obtain n' where n: "n = Suc n'" "json_fuel j \<le> n'"
      "foldr (\<lambda>f m. Suc (max f m)) (map json_fuel js) 0 \<le> n'"
    by (cases n) auto
  show ?case
  proof (cases js)
    case Nil
    then show ?thesis using Cons.prems(1) [of j n' "CHR '']'' # s"] n by simp
  next
    case js: (Cons j' js')
    let ?rest = "write_parts True (map json_text js) @ CHR '']'' # s"
    have "write_parts False (map json_text js) = CHR '','' # write_parts True (map json_text js)"
      using js by simp
    moreover have "parse_value n' (json_text j @ CHR '','' # ?rest) = Some (j, CHR '','' # ?rest)"
      using Cons.prems(1) [of j n'] n by simp
    moreover have "parse_elements n' ?rest = Some (js, s)"
      using Cons.IH [of n'] Cons.prems(1) js n(3) by simp
    ultimately show ?thesis using n(1) by simp
  qed
qed simp

lemma parse_members_text:
  assumes "\<And>k j n s. (k, j) \<in> set ms \<Longrightarrow> json_fuel j \<le> n \<Longrightarrow> ends_value s \<Longrightarrow>
      parse_value n (json_text j @ s) = Some (j, s)"
    and "ms \<noteq> []" and "foldr (\<lambda>f m. Suc (max f m)) (map (\<lambda>(k, j). json_fuel j) ms) 0 \<le> n"
  shows "parse_members n (write_parts True (map (\<lambda>(k, j). write_json_string k @ '':'' @ json_text j) ms) @ CHR ''}'' # s)
    = Some (ms, s)"
  using assms
proof (induction ms arbitrary: n)
  case (Cons m ms)
  obtain k j where m: "m = (k, j)" by (rule prod.exhaust)
  obtain n' where n: "n = Suc n'" "json_fuel j \<le> n'"
      "foldr (\<lambda>f m. Suc (max f m)) (map (\<lambda>(k, j). json_fuel j) ms) 0 \<le> n'"
    using Cons.prems(3) m by (cases n) auto
  let ?t = "map (\<lambda>(k, j). write_json_string k @ '':'' @ json_text j)"
  have str: "parse_string (write_json_string k @ CHR '':'' # r) = Some (k, CHR '':'' # r)" for r
    by (rule parse_string_write)
  show ?case
  proof (cases ms)
    case Nil
    then show ?thesis using Cons.prems(1) [of k j n' "CHR ''}'' # s"] n m str by simp
  next
    case ms: (Cons m' ms')
    let ?rest = "write_parts True (?t ms) @ CHR ''}'' # s"
    have "write_parts False (?t ms) = CHR '','' # write_parts True (?t ms)" using ms by simp
    moreover have "parse_value n' (json_text j @ CHR '','' # ?rest) = Some (j, CHR '','' # ?rest)"
      using Cons.prems(1) [of k j n'] n m by simp
    moreover have "parse_members n' ?rest = Some (ms, s)"
      by (rule Cons.IH) (use Cons.prems(1) ms n(3) in auto)
    ultimately show ?thesis using n(1) m str by simp
  qed
qed simp

lemma parse_value_text:
  "json_fuel j \<le> n \<Longrightarrow> ends_value s \<Longrightarrow> parse_value n (json_text j @ s) = Some (j, s)"
proof (induction j arbitrary: n s)
  case (JNum x)
  obtain n' where n: "n = Suc n'" using JNum.prems by (cases n) auto
  obtain c cs where c: "fmt_dec x = c # cs" "dec_digit c" using fmt_dec_val [of x] by (cases "fmt_dec x") auto
  then have "c \<noteq> DQ" "c \<noteq> CHR ''[''" "c \<noteq> CHR ''{''" by auto
  then show ?case using parse_number_fmt [OF JNum.prems(2), of x] c n by simp
next
  case (JStr x)
  obtain n' where n: "n = Suc n'" using JStr.prems by (cases n) auto
  show ?case using parse_string_write [of x s] n by (simp add: write_json_string_def)
next
  case (JArr js)
  obtain n' where n: "n = Suc n'" "foldr (\<lambda>f m. Suc (max f m)) (map json_fuel js) 0 \<le> n'"
    using JArr.prems by (cases n) auto
  show ?case
  proof (cases js)
    case Nil
    then show ?thesis using n by simp
  next
    case (Cons j js')
    obtain c cs where c: "json_text j = c # cs" "dec_digit c \<or> c = DQ \<or> c = CHR ''['' \<or> c = CHR ''{''"
      using json_text_head by blast
    then have "c \<noteq> CHR '']''" by (auto simp: DQ_def)
    have "parse_elements n' (write_parts True (map json_text js) @ CHR '']'' # s) = Some (js, s)"
      by (rule parse_elements_text) (use JArr.IH Cons n in auto)
    then show ?thesis using n(1) c(1) \<open>c \<noteq> CHR '']''\<close> Cons by simp
  qed
next
  case (JObj ms)
  obtain n' where n: "n = Suc n'" "foldr (\<lambda>f m. Suc (max f m)) (map (\<lambda>(k, j). json_fuel j) ms) 0 \<le> n'"
    using JObj.prems by (cases n) auto
  show ?case
  proof (cases ms)
    case Nil
    then show ?thesis using n by simp
  next
    case (Cons m ms')
    obtain k j where m: "m = (k, j)" by (rule prod.exhaust)
    have "parse_members n' (write_parts True (map (\<lambda>(k, j). write_json_string k @ '':'' @ json_text j) ms)
        @ CHR ''}'' # s) = Some (ms, s)"
      by (rule parse_members_text) (use JObj.IH Cons n in auto)
    then show ?thesis using n(1) Cons m by (simp add: write_json_string_def)
  qed
qed

lemma write_parts_fuel:
  assumes "\<And>x. x \<in> set xs \<Longrightarrow> f x \<le> length (g x)"
  shows "foldr (\<lambda>f m. Suc (max f m)) (map f xs) 0 \<le> Suc (length (write_parts b (map g xs)))"
  using assms
proof (induction xs arbitrary: b)
  case (Cons x xs)
  have "foldr (\<lambda>f m. Suc (max f m)) (map f xs) 0 \<le> length (write_parts False (map g xs))"
  proof (cases xs)
    case (Cons y ys)
    then show ?thesis using Cons.IH [of True] Cons.prems by simp
  qed simp
  then show ?case using Cons.prems [of x] by auto
qed simp

lemma json_fuel_length: "json_fuel j \<le> length (json_text j)"
proof (induction j)
  case (JNum n)
  then show ?case using fmt_dec_val [of n] by (cases "fmt_dec n") auto
next
  case (JStr s)
  then show ?case by (simp add: write_json_string_def)
next
  case (JArr js)
  then show ?case using write_parts_fuel [of js json_fuel json_text True] by simp
next
  case (JObj ms)
  have "(\<lambda>(k, j). json_fuel j) m \<le> length ((\<lambda>(k, j). write_json_string k @ '':'' @ json_text j) m)"
    if "m \<in> set ms" for m
    using JObj.IH that by (cases m) (fastforce simp: prod_set_defs)
  from write_parts_fuel [OF this, where b = True] show ?case by simp
qed

text \<open>Every value's text parses back to that value.\<close>

lemma parse_json_text: "parse_json (json_text j) = Some j"
  using parse_value_text [of j "Suc (length (json_text j))" "[]"] json_fuel_length [of j]
  by (simp add: parse_json_def del: parse_value.simps)

text \<open>And holds no control character, so no line break.\<close>

lemma escape_chars_plain: "c \<in> set (escape_chars s) \<Longrightarrow> (of_char c :: nat) \<ge> 0x20"
proof (induction s)
  case (Cons a s)
  have "(of_char c :: nat) \<ge> 0x20" if "c \<in> set (escape_char a)"
  proof -
    have "(of_char (hex_digit n) :: nat) \<ge> 0x20" if "n < 16" for n
      using that by (auto simp: hex_digit_def)
    moreover have "(of_char a :: nat) div 16 < 16" if "(of_char a :: nat) < 0x20" using that by auto
    ultimately show ?thesis
      using that by (auto simp: escape_char_def DQ_def BSLASH_def split: if_splits)
  qed
  then show ?case using Cons by auto
qed simp

lemma write_parts_set: "c \<in> set (write_parts b ps) \<Longrightarrow> c = CHR '','' \<or> (\<exists>p \<in> set ps. c \<in> set p)"
  by (induction ps arbitrary: b) (auto split: if_splits)

lemma write_json_string_plain: "c \<in> set (write_json_string s) \<Longrightarrow> (of_char c :: nat) \<ge> 0x20"
  by (auto simp: write_json_string_def DQ_def dest: escape_chars_plain)

lemma json_text_plain: "c \<in> set (json_text j) \<Longrightarrow> (of_char c :: nat) \<ge> 0x20"
proof (induction j)
  case (JNum n)
  then show ?case using fmt_dec_val [of n] by (auto simp: list_all_iff dec_digit_def byte_in_def)
next
  case (JStr s)
  then show ?case by (simp add: write_json_string_plain)
next
  case (JArr js)
  then show ?case by (fastforce dest: write_parts_set)
next
  case (JObj ms)
  then show ?case by (fastforce dest: write_parts_set write_json_string_plain)
qed

end
