(* ===== verification/Ek_Output.thy ===== *)
theory Ek_Output
  imports Orchestrator Calendar Json
begin

text \<open>
  \<open>src/ek_output.rs\<close>: the two output formats. A writer's \<open>write!\<close> and \<open>write_all\<close> calls append to the buffer of the
  caller, a \<open>Vec\<close>, so they cannot fail; each operation is the text it appends. The standard library's \<open>Display\<close> of an
  address is included.
\<close>

subsection \<open>Addresses\<close>

definition fmt_ipv4 :: "u32 \<Rightarrow> string" where
  "fmt_ipv4 a =
     (let octet = (\<lambda>i. fmt_dec (unat (drop_bit (8 * i) a AND 0xFF))) in
      octet 3 @ ''.'' @ octet 2 @ ''.'' @ octet 1 @ ''.'' @ octet 0)"

fun fmt_hex :: "nat \<Rightarrow> string" where
  "fmt_hex n = (if n < 16 then [hex_digit n] else fmt_hex (n div 16) @ [hex_digit (n mod 16)])"

declare fmt_hex.simps [simp del]

definition ipv6_segments :: "128 word \<Rightarrow> u16 list" where
  "ipv6_segments a = map (\<lambda>i. ucast (drop_bit (112 - 16 * i) a)) [0..<8]"

text \<open>The longest run of zero segments, the first of equals: start and length.\<close>

fun longest_zeros :: "u16 list \<Rightarrow> nat \<Rightarrow> nat \<times> nat \<Rightarrow> nat \<times> nat \<Rightarrow> nat \<times> nat" where
  "longest_zeros [] i current longest = longest"
| "longest_zeros (s # ss) i current longest =
     (if s = 0 then
        let current' = ((if snd current = 0 then i else fst current), snd current + 1) in
        longest_zeros ss (Suc i) current' (if snd current' > snd longest then current' else longest)
      else longest_zeros ss (Suc i) (0, 0) longest)"

fun fmt_segments :: "u16 list \<Rightarrow> string" where
  "fmt_segments [] = []"
| "fmt_segments [s] = fmt_hex (unat s)"
| "fmt_segments (s # ss) = fmt_hex (unat s) @ '':'' @ fmt_segments ss"

definition fmt_ipv6 :: "128 word \<Rightarrow> string" where
  "fmt_ipv6 a =
     (let segments = ipv6_segments a in
      if take 6 segments = [0, 0, 0, 0, 0, 0xFFFF] then ''::ffff:'' @ fmt_ipv4 (ucast a)
      else
        let (start, len) = longest_zeros segments 0 (0, 0) (0, 0) in
        if len > 1
        then fmt_segments (take start segments) @ ''::'' @ fmt_segments (drop (start + len) segments)
        else fmt_segments segments)"

fun fmt_ip :: "ip_addr \<Rightarrow> string" where
  "fmt_ip (V4 a) = fmt_ipv4 a"
| "fmt_ip (V6 a) = fmt_ipv6 a"

subsection \<open>Shared helpers\<close>

text \<open>\<open>hex::encode\<close> is the \<open>hex\<close> crate's, a parameter of the operations that use it.\<close>

type_synonym hex_encoder = "bytes \<Rightarrow> string"

text \<open>What a \<open>CountingWriter\<close> around a buffer leaves there, and its count.\<close>

definition counted_write :: "string \<Rightarrow> string \<Rightarrow> string \<times> nat" where
  "counted_write inner txt = (inner @ txt, length txt)"

definition epoch_millis :: "duration \<Rightarrow> nat" where
  "epoch_millis timestamp = timestamp div 1000000"

definition epoch_micros :: "duration \<Rightarrow> nat" where
  "epoch_micros timestamp = timestamp div 1000"

text \<open>\<open>s.replace('.', "_")\<close> and \<open>s.strip_prefix(p)\<close>.\<close>

definition dots_to_underscores :: "string \<Rightarrow> string" where
  "dots_to_underscores s = map (\<lambda>c. if c = CHR ''.'' then CHR ''_'' else c) s"

definition strip_prefix :: "string \<Rightarrow> string \<Rightarrow> string option" where
  "strip_prefix p s = (if take (length p) s = p then Some (drop (length p) s) else None)"

definition short_name :: "string \<Rightarrow> string \<Rightarrow> string" where
  "short_name prefix name = (case strip_prefix (prefix @ ''.'') name of Some s \<Rightarrow> s | None \<Rightarrow> name)"

definition quoted :: "string \<Rightarrow> string" where
  "quoted s = [DQ] @ s @ [DQ]"

subsection \<open>The Elasticsearch format\<close>

record ek_writer =
  ek_fields :: "string list"
  index_prefix :: string

definition ek_new :: "string list \<Rightarrow> string \<Rightarrow> ek_writer" where
  "ek_new fs prefix = \<lparr>ek_fields = fs, index_prefix = prefix\<rparr>"

definition ek_values_for :: "hex_encoder \<Rightarrow> string \<Rightarrow> decoded_message \<Rightarrow> string list option" where
  "ek_values_for hx field msg =
     (if field = ''ip.src'' then Some [fmt_ip (dm_src_ip msg)]
      else if field = ''ip.dst'' then Some [fmt_ip (dm_dst_ip msg)]
      else if field = ''tcp.srcport'' then Some [fmt_dec (unat (dm_src_port msg))]
      else if field = ''tcp.dstport'' then Some [fmt_dec (unat (dm_dst_port msg))]
      else if field = ''tls.app_data'' then Some [hx (dm_tls_app_data msg)]
      else Some (map to_output_string (values_for (dm_fields msg) field)))"

text \<open>The loop over the selected fields: a key and the array of its values, or nothing.\<close>

fun ek_layers :: "hex_encoder \<Rightarrow> decoded_message \<Rightarrow> bool \<Rightarrow> string list \<Rightarrow> string" where
  "ek_layers hx msg first [] = []"
| "ek_layers hx msg first (field # fs) =
     (case ek_values_for hx field msg of
        None \<Rightarrow> ek_layers hx msg first fs
      | Some values \<Rightarrow>
          if values = [] then ek_layers hx msg first fs
          else (if first then [] else '','')
               @ write_json_string (dots_to_underscores field) @ '':[''
               @ write_parts True (map write_json_string values) @ '']''
               @ ek_layers hx msg False fs)"

definition ek_index_line :: "ek_writer \<Rightarrow> decoded_message \<Rightarrow> string" where
  "ek_index_line ek msg =
     ''{'' @ quoted ''index'' @ '':{'' @ quoted ''_index'' @ '':''
     @ quoted (index_prefix ek @ ''-'' @ index_date (dm_timestamp msg)) @ ''}}'' @ [LF]"

definition ek_data_line :: "hex_encoder \<Rightarrow> ek_writer \<Rightarrow> decoded_message \<Rightarrow> string" where
  "ek_data_line hx ek msg =
     ''{'' @ quoted ''timestamp'' @ '':'' @ quoted (fmt_dec (epoch_millis (dm_timestamp msg))) @ '',''
     @ quoted ''layers'' @ '':{'' @ ek_layers hx msg True (ek_fields ek) @ ''}}'' @ [LF]"

definition ek_write_message :: "hex_encoder \<Rightarrow> ek_writer \<Rightarrow> string \<Rightarrow> decoded_message \<Rightarrow> string \<times> nat" where
  "ek_write_message hx ek w msg = counted_write w (ek_index_line ek msg @ ek_data_line hx ek msg)"

subsection \<open>The NDJSON format\<close>

record ndjson_writer =
  nw_groups :: "string set"
  generic_group_order :: "string list"
  nw_explode :: "string option"
  nw_map_fields :: "string set"

text \<open>The loop of \<open>new\<close> over the selected fields.\<close>

fun collect_groups :: "string list \<Rightarrow> string set \<Rightarrow> string list \<Rightarrow> string set \<times> string list" where
  "collect_groups [] groups order = (groups, order)"
| "collect_groups (field # fs) groups order =
     (let group = takeWhile (\<lambda>c. c \<noteq> CHR ''.'') field in
      collect_groups fs (insert group groups)
        (if group \<notin> groups \<and> group \<notin> {''ip'', ''tcp'', ''tls''} then order @ [group] else order))"

definition ndjson_new :: "string list \<Rightarrow> string option \<Rightarrow> string list \<Rightarrow> ndjson_writer" where
  "ndjson_new fs explode map_fields =
     (let (groups, order) = collect_groups fs {} [] in
      \<lparr>nw_groups = groups, generic_group_order = order, nw_explode = explode, nw_map_fields = set map_fields\<rparr>)"

text \<open>
  The loop of \<open>grouped_entries\<close>: the names in the order of their first occurrence, and the values of each. Every name
  of the order is in the map, so its \<open>unwrap\<close> cannot fail.
\<close>

definition opt_list :: "'a list option \<Rightarrow> 'a list" where
  "opt_list x = (case x of None \<Rightarrow> [] | Some vs \<Rightarrow> vs)"

fun group_loop ::
  "(string \<times> field_value) list \<Rightarrow> string list \<Rightarrow> (string \<rightharpoonup> field_value list)
     \<Rightarrow> string list \<times> (string \<rightharpoonup> field_value list)"
where
  "group_loop [] order m = (order, m)"
| "group_loop ((name, v) # es) order m =
     group_loop es (if m name = None then order @ [name] else order)
       (m(name \<mapsto> opt_list (m name) @ [v]))"

definition grouped_entries :: "frame_fields \<Rightarrow> (string \<times> field_value list) list" where
  "grouped_entries ff =
     (let (order, m) = group_loop (ff_entries ff) [] Map.empty in
      map (\<lambda>name. (name, opt_list (m name))) order)"

text \<open>The leaves of one occurrence that \<open>write_map\<close> looks for; the last one of each name counts.\<close>

fun map_entry :: "string \<Rightarrow> (string \<times> field_value) list \<Rightarrow> string option \<times> string option \<Rightarrow> string option \<times> string option"
where
  "map_entry prefix [] kv = kv"
| "map_entry prefix ((name, v) # es) (k, x) =
     map_entry prefix es
       (case v of
          Str s \<Rightarrow>
            if short_name prefix name = ''name'' then (Some s, x)
            else if short_name prefix name = ''value'' then (k, Some s)
            else (k, x)
        | _ \<Rightarrow> (k, x))"

fun map_pairs :: "string \<Rightarrow> field_value list \<Rightarrow> (string \<times> string) list" where
  "map_pairs prefix [] = []"
| "map_pairs prefix (v # vs) =
     (case v of
        Tree child \<Rightarrow>
          (case map_entry prefix (ff_entries child) (None, None) of
             (Some k, Some x) \<Rightarrow> (k, x) # map_pairs prefix vs
           | _ \<Rightarrow> map_pairs prefix vs)
      | _ \<Rightarrow> map_pairs prefix vs)"

definition write_map :: "field_value list \<Rightarrow> string \<Rightarrow> string" where
  "write_map values prefix =
     ''{'' @ write_parts True (map (\<lambda>(k, x). write_json_string k @ '':'' @ write_json_string x)
                                  (map_pairs prefix values)) @ ''}''"

fun is_tree :: "field_value \<Rightarrow> bool" where
  "is_tree (Tree _) = True"
| "is_tree _ = False"

subsection \<open>Nested values\<close>

text \<open>The nesting depth of recorded values.\<close>

fun fv_depth :: "field_value \<Rightarrow> nat" and ff_depth :: "frame_fields \<Rightarrow> nat"
  and entries_depth :: "(string \<times> field_value) list \<Rightarrow> nat"
where
  "fv_depth (UInt n) = 0"
| "fv_depth (Str s) = 0"
| "fv_depth (Bytes b) = 0"
| "fv_depth (Tree ff) = Suc (ff_depth ff)"
| "ff_depth (FrameFields es p i mal) = entries_depth es"
| "entries_depth [] = 0"
| "entries_depth ((n, v) # es) = max (fv_depth v) (entries_depth es)"

definition values_depth :: "field_value list \<Rightarrow> nat" where
  "values_depth vs = foldr (\<lambda>v d. max (fv_depth v) d) vs 0"

lemma values_depth_simps [simp]:
  "values_depth [] = 0" "values_depth (v # vs) = max (fv_depth v) (values_depth vs)"
  by (simp_all add: values_depth_def)

lemma values_depth_le: "v \<in> set vs \<Longrightarrow> fv_depth v \<le> values_depth vs"
  by (induction vs) auto

lemma values_depth_bound: "values_depth vs \<le> n \<longleftrightarrow> (\<forall>v \<in> set vs. fv_depth v \<le> n)"
  by (induction vs) auto

lemma entries_depth_le: "(n, v) \<in> set es \<Longrightarrow> fv_depth v \<le> entries_depth es"
  by (induction es) auto

text \<open>Grouping, without the loop.\<close>

fun first_names :: "'a list \<Rightarrow> 'a list \<Rightarrow> 'a list" where
  "first_names seen [] = []"
| "first_names seen (x # xs) = (if x \<in> set seen then first_names seen xs else x # first_names (x # seen) xs)"

definition values_named :: "string \<Rightarrow> (string \<times> field_value) list \<Rightarrow> field_value list" where
  "values_named name es = map snd (filter (\<lambda>e. fst e = name) es)"

lemma group_loop_spec:
  assumes "group_loop es order m = (order', m')" and "\<And>n. m n = None \<longleftrightarrow> n \<notin> set seen"
  shows "order' = order @ first_names seen (map fst es)
    \<and> (\<forall>n. opt_list (m' n) = opt_list (m n) @ values_named n es)"
  using assms
proof (induction es arbitrary: order m seen)
  case Nil
  then show ?case by (simp add: values_named_def)
next
  case (Cons e es)
  obtain name v where e: "e = (name, v)" by (rule prod.exhaust)
  let ?m = "m(name \<mapsto> opt_list (m name) @ [v])"
  let ?seen = "if name \<in> set seen then seen else name # seen"
  have step: "group_loop es (if m name = None then order @ [name] else order) ?m = (order', m')"
    using Cons.prems(1) e by simp
  have "?m n = None \<longleftrightarrow> n \<notin> set ?seen" for n using Cons.prems(2) by auto
  from Cons.IH [OF step this] have "order' = (if m name = None then order @ [name] else order) @ first_names ?seen (map fst es)
      \<and> (\<forall>n. opt_list (m' n) = opt_list (?m n) @ values_named n es)" .
  moreover have "opt_list (?m n) @ values_named n es = opt_list (m n) @ values_named n (e # es)" for n
    using e by (simp add: values_named_def opt_list_def)
  moreover have "m name = None \<longleftrightarrow> name \<notin> set seen" using Cons.prems(2) .
  ultimately show ?case using e by simp
qed

lemma grouped_entries_eq:
  "grouped_entries ff = map (\<lambda>n. (n, values_named n (ff_entries ff))) (first_names [] (map fst (ff_entries ff)))"
proof -
  obtain order m where g: "group_loop (ff_entries ff) [] Map.empty = (order, m)" by (rule prod.exhaust)
  have "order = first_names [] (map fst (ff_entries ff)) \<and> (\<forall>n. opt_list (m n) = values_named n (ff_entries ff))"
    using group_loop_spec [OF g, of "[]"] by (simp add: opt_list_def)
  then show ?thesis using g by (simp add: grouped_entries_def)
qed

lemma grouped_entries_depth:
  assumes "(name, vs) \<in> set (grouped_entries ff)"
  shows "values_depth vs \<le> ff_depth ff"
proof (cases ff)
  case (FrameFields es p i mal)
  then show ?thesis
    using assms entries_depth_le by (auto simp: grouped_entries_eq values_named_def values_depth_bound)
qed

text \<open>The four mutually recursive writers of values.\<close>

function write_field_value :: "hex_encoder \<Rightarrow> field_value \<Rightarrow> string \<Rightarrow> string set \<Rightarrow> string"
and write_value_or_array :: "hex_encoder \<Rightarrow> field_value list \<Rightarrow> string \<Rightarrow> string set \<Rightarrow> string"
and write_named_value :: "hex_encoder \<Rightarrow> string \<Rightarrow> field_value list \<Rightarrow> string \<Rightarrow> string set \<Rightarrow> string"
and write_frame_fields_object :: "hex_encoder \<Rightarrow> frame_fields \<Rightarrow> string \<Rightarrow> string set \<Rightarrow> string"
where
  "write_field_value hx v prefix map_fields =
     (case v of
        UInt n \<Rightarrow> fmt_dec (unat n)
      | Str s \<Rightarrow> write_json_string s
      | Bytes b \<Rightarrow> write_json_string (hx b)
      | Tree child \<Rightarrow> write_frame_fields_object hx child prefix map_fields)"
| "write_value_or_array hx values prefix map_fields =
     (if length values = 1 \<and> \<not> is_tree (hd values)
      then write_field_value hx (hd values) prefix map_fields
      else ''['' @ write_parts True (map (\<lambda>v. write_field_value hx v prefix map_fields) values) @ '']'')"
| "write_named_value hx short values prefix map_fields =
     (if short \<in> map_fields then write_map values prefix
      else write_value_or_array hx values prefix map_fields)"
| "write_frame_fields_object hx ff prefix map_fields =
     ''{'' @ write_parts True (map (\<lambda>(name, values).
        write_json_string (dots_to_underscores (short_name prefix name)) @ '':''
        @ write_named_value hx (short_name prefix name) values name map_fields) (grouped_entries ff)) @ ''}''"
  by pat_completeness auto
termination
proof (relation "measures
    [\<lambda>x. case x of Inl (Inl (_, v, _)) \<Rightarrow> fv_depth v | Inl (Inr (_, vs, _)) \<Rightarrow> values_depth vs
       | Inr (Inl (_, _, vs, _)) \<Rightarrow> values_depth vs | Inr (Inr (_, ff, _)) \<Rightarrow> ff_depth ff,
     \<lambda>x. case x of Inl (Inl _) \<Rightarrow> 0 | Inl (Inr _) \<Rightarrow> 1 | Inr (Inl _) \<Rightarrow> 2 | Inr (Inr _) \<Rightarrow> 3]", goal_cases)
  case (3 hx vs prefix map_fields)
  then have "hd vs \<in> set vs" by (cases vs) auto
  then show ?case using values_depth_le by (auto simp: le_less)
next
  case (4 hx vs prefix map_fields v)
  then show ?case using values_depth_le by (auto simp: le_less)
next
  case (6 hx ff prefix map_fields x name vs)
  then show ?case using grouped_entries_depth [of name vs ff] by (auto simp: le_less)
qed auto

declare write_field_value.simps [simp del] write_value_or_array.simps [simp del] write_named_value.simps [simp del]
  write_frame_fields_object.simps [simp del]

subsection \<open>Lines\<close>

definition write_preamble :: "string \<Rightarrow> duration \<Rightarrow> string" where
  "write_preamble kind timestamp =
     ''{'' @ quoted ''kind'' @ '':'' @ quoted kind @ '','' @ quoted ''tstamp'' @ '':'' @ fmt_dec (epoch_micros timestamp)"

definition write_ip :: "ndjson_writer \<Rightarrow> string \<Rightarrow> string \<Rightarrow> string" where
  "write_ip nw src dst =
     (if ''ip'' \<notin> nw_groups nw then []
      else '','' @ quoted ''ip'' @ '':{'' @ quoted ''src'' @ '':'' @ write_json_string src
           @ '','' @ quoted ''dst'' @ '':'' @ write_json_string dst @ ''}'')"

text \<open>The loop over the selected groups that dissectors produce.\<close>

fun write_groups ::
  "hex_encoder \<Rightarrow> ndjson_writer \<Rightarrow> (string \<times> field_value list) list \<Rightarrow> (string \<times> field_value) option \<Rightarrow> string list \<Rightarrow> string"
where
  "write_groups hx nw grouped exploded [] = []"
| "write_groups hx nw grouped exploded (grp # gs) =
     (case exploded of
        Some (exploded_name, single_value) \<Rightarrow>
          if grp = exploded_name
          then '','' @ write_json_string grp @ '':'' @ write_field_value hx single_value grp (nw_map_fields nw)
               @ write_groups hx nw grouped exploded gs
          else
            (case map_of grouped grp of
               None \<Rightarrow> []
             | Some values \<Rightarrow> '','' @ write_json_string grp @ '':''
                 @ write_named_value hx grp values grp (nw_map_fields nw))
            @ write_groups hx nw grouped exploded gs
      | None \<Rightarrow>
          (case map_of grouped grp of
             None \<Rightarrow> []
           | Some values \<Rightarrow> '','' @ write_json_string grp @ '':''
               @ write_named_value hx grp values grp (nw_map_fields nw))
          @ write_groups hx nw grouped exploded gs)"

definition write_one_tls_record ::
  "hex_encoder \<Rightarrow> ndjson_writer \<Rightarrow> decoded_message \<Rightarrow> (string \<times> field_value list) list \<Rightarrow> (string \<times> field_value) option \<Rightarrow> string"
where
  "write_one_tls_record hx nw msg grouped exploded =
     write_preamble ''tls_record'' (dm_timestamp msg)
     @ write_ip nw (fmt_ip (dm_src_ip msg)) (fmt_ip (dm_dst_ip msg))
     @ (if ''tcp'' \<in> nw_groups nw
        then '','' @ quoted ''tcp'' @ '':{'' @ quoted ''srcport'' @ '':'' @ fmt_dec (unat (dm_src_port msg))
             @ '','' @ quoted ''dstport'' @ '':'' @ fmt_dec (unat (dm_dst_port msg)) @ ''}''
        else [])
     @ (if ''tls'' \<in> nw_groups nw
        then '','' @ quoted ''tls'' @ '':{'' @ quoted ''app_data'' @ '':''
             @ write_json_string (hx (dm_tls_app_data msg)) @ ''}''
        else [])
     @ write_groups hx nw grouped exploded (generic_group_order nw)
     @ ''}'' @ [LF]"

definition write_tls_record :: "hex_encoder \<Rightarrow> ndjson_writer \<Rightarrow> string \<Rightarrow> decoded_message \<Rightarrow> string \<times> nat" where
  "write_tls_record hx nw w msg =
     (let grouped = grouped_entries (dm_fields msg) in
      case nw_explode nw of
        None \<Rightarrow> counted_write w (write_one_tls_record hx nw msg grouped None)
      | Some explode_name \<Rightarrow>
          (case map_of grouped explode_name of
             None \<Rightarrow> counted_write w (write_one_tls_record hx nw msg grouped None)
           | Some values \<Rightarrow>
               if values = [] then counted_write w (write_one_tls_record hx nw msg grouped None)
               else counted_write w (concat (map (\<lambda>v. write_one_tls_record hx nw msg grouped (Some (explode_name, v))) values))))"

definition write_packet_event :: "ndjson_writer \<Rightarrow> string \<Rightarrow> packet_event \<Rightarrow> string \<times> nat" where
  "write_packet_event nw w evt =
     counted_write w
      (write_preamble ''packet'' (pe_timestamp evt)
       @ write_ip nw (fmt_ip (pe_src_ip evt)) (fmt_ip (pe_dst_ip evt))
       @ (if ''tcp'' \<in> nw_groups nw
          then '','' @ quoted ''tcp'' @ '':{'' @ quoted ''srcport'' @ '':'' @ fmt_dec (unat (pe_src_port evt))
               @ '','' @ quoted ''dstport'' @ '':'' @ fmt_dec (unat (pe_dst_port evt))
               @ '','' @ quoted ''seq'' @ '':'' @ fmt_dec (unat (pe_seq evt))
               @ '','' @ quoted ''ack'' @ '':'' @ fmt_dec (unat (pe_ack evt))
               @ '','' @ quoted ''flags'' @ '':['' @ write_parts True (map write_json_string (pe_flags evt)) @ '']''
               @ '','' @ quoted ''payload_len'' @ '':'' @ fmt_dec (pe_payload_len evt) @ ''}''
          else [])
       @ ''}'' @ [LF])"

end
