(* ===== verification/Ek_Correct.thy ===== *)
theory Ek_Correct
  imports Ek_Output
begin

text \<open>
  Both output formats against JSON values: every line the writers produce is the text of the value stated here, so a
  strict JSON parser reads that value back, and a line holds no line break.
\<close>

subsection \<open>The values meant\<close>

text \<open>A group of values under one name: the map form, one leaf, or an array of the rendered values \<open>js\<close>.\<close>

definition named_json :: "string set \<Rightarrow> string \<Rightarrow> field_value list \<Rightarrow> string \<Rightarrow> json list \<Rightarrow> json" where
  "named_json mf short vs prefix js =
     (if short \<in> mf then JObj (map (\<lambda>(k, x). (k, JStr x)) (map_pairs prefix vs))
      else if length vs = 1 \<and> \<not> is_tree (hd vs) then hd js else JArr js)"

function field_json :: "hex_encoder \<Rightarrow> field_value \<Rightarrow> string \<Rightarrow> string set \<Rightarrow> json" where
  "field_json hx v prefix mf =
     (case v of
        UInt n \<Rightarrow> JNum (unat n)
      | Str s \<Rightarrow> JStr s
      | Bytes b \<Rightarrow> JStr (hx b)
      | Tree child \<Rightarrow> JObj (map (\<lambda>(name, vs).
          (dots_to_underscores (short_name prefix name),
           named_json mf (short_name prefix name) vs name (map (\<lambda>x. field_json hx x name mf) vs)))
          (grouped_entries child)))"
  by pat_completeness auto
termination
proof (relation "measure (\<lambda>(_, v, _). fv_depth v)", goal_cases)
  case (2 hx v prefix mf child e name vs x)
  then have "fv_depth x \<le> values_depth vs" "values_depth vs \<le> ff_depth child"
    using values_depth_le grouped_entries_depth [of name vs child] by auto
  then show ?case using 2 by simp
qed simp

declare field_json.simps [simp del]

definition group_json :: "hex_encoder \<Rightarrow> string set \<Rightarrow> string \<Rightarrow> field_value list \<Rightarrow> string \<Rightarrow> json" where
  "group_json hx mf short vs prefix = named_json mf short vs prefix (map (\<lambda>v. field_json hx v prefix mf) vs)"

lemma field_json_simps [simp]:
  "field_json hx (UInt n) prefix mf = JNum (unat n)" "field_json hx (Str x) prefix mf = JStr x"
  "field_json hx (Bytes b) prefix mf = JStr (hx b)"
  "field_json hx (Tree child) prefix mf = JObj (map (\<lambda>(name, vs).
     (dots_to_underscores (short_name prefix name), group_json hx mf (short_name prefix name) vs name)) (grouped_entries child))"
  by (subst field_json.simps, simp add: group_json_def)+

lemma write_map_json: "write_map vs prefix = json_text (JObj (map (\<lambda>(k, x). (k, JStr x)) (map_pairs prefix vs)))"
proof -
  have "(\<lambda>(k, j). write_json_string k @ CHR '':'' # json_text j) \<circ> (\<lambda>(k, x). (k, JStr x))
      = (\<lambda>(k, x). write_json_string k @ CHR '':'' # write_json_string x)"
    by (auto simp: fun_eq_iff)
  then show ?thesis by (simp add: write_map_def)
qed

lemma write_values_json:
  "write_field_value hx v prefix mf = json_text (field_json hx v prefix mf)"
  "write_value_or_array hx vs prefix mf = json_text (if length vs = 1 \<and> \<not> is_tree (hd vs)
      then field_json hx (hd vs) prefix mf else JArr (map (\<lambda>v. field_json hx v prefix mf) vs))"
  "write_named_value hx short vs prefix mf = json_text (group_json hx mf short vs prefix)"
  "write_frame_fields_object hx ff prefix mf = json_text (JObj (map (\<lambda>(name, vs).
      (dots_to_underscores (short_name prefix name), group_json hx mf (short_name prefix name) vs name)) (grouped_entries ff)))"
proof (induction hx v prefix mf and hx vs prefix mf and hx short vs prefix mf and hx ff prefix mf
    rule: write_field_value_write_value_or_array_write_named_value_write_frame_fields_object.induct)
  case (1 hx v prefix mf)
  then show ?case
    by (cases v) (simp_all add: write_field_value.simps del: json_text.simps(4))
next
  case (2 hx vs prefix mf)
  show ?case
  proof (cases "length vs = 1 \<and> \<not> is_tree (hd vs)")
    case True
    then show ?thesis using 2(1) by (simp add: write_value_or_array.simps)
  next
    case False
    have e: "map json_text (map (\<lambda>v. field_json hx v prefix mf) vs) = map (\<lambda>v. write_field_value hx v prefix mf) vs"
      using 2(2) [OF False] by simp
    show ?thesis unfolding write_value_or_array.simps [of hx vs] if_not_P [OF False] json_text.simps e ..
  qed
next
  case (3 hx short vs prefix mf)
  have hd: "length vs = 1 \<Longrightarrow> hd (map f vs) = f (hd vs)" for f :: "field_value \<Rightarrow> json" by (cases vs) auto
  show ?case
    using 3 by (subst write_named_value.simps) (simp add: group_json_def named_json_def write_map_json hd)
next
  case (4 hx ff prefix mf)
  have e: "map (\<lambda>(name, values). write_json_string (dots_to_underscores (short_name prefix name)) @ '':''
        @ write_named_value hx (short_name prefix name) values name mf) (grouped_entries ff)
      = map (\<lambda>(k, j). write_json_string k @ '':'' @ json_text j) (map (\<lambda>(name, vs).
          (dots_to_underscores (short_name prefix name), group_json hx mf (short_name prefix name) vs name)) (grouped_entries ff))"
    using 4 by auto
  show ?case unfolding write_frame_fields_object.simps [of hx ff] json_text.simps e ..
qed

definition member :: "bool \<Rightarrow> string \<Rightarrow> json \<Rightarrow> (string \<times> json) list" where
  "member present key j = (if present then [(key, j)] else [])"

definition ip_json :: "string \<Rightarrow> string \<Rightarrow> json" where
  "ip_json src dst = JObj [(''src'', JStr src), (''dst'', JStr dst)]"

text \<open>The members for the selected groups, one replaced by a single occurrence when it is exploded.\<close>

definition group_members ::
  "hex_encoder \<Rightarrow> ndjson_writer \<Rightarrow> (string \<times> field_value list) list \<Rightarrow> (string \<times> field_value) option \<Rightarrow> (string \<times> json) list"
where
  "group_members hx nw grouped exploded =
     concat (map (\<lambda>g.
       if \<exists>v. exploded = Some (g, v)
       then [(g, field_json hx (snd (the exploded)) g (nw_map_fields nw))]
       else case map_of grouped g of None \<Rightarrow> [] | Some vs \<Rightarrow> [(g, group_json hx (nw_map_fields nw) g vs g)])
       (generic_group_order nw))"

definition tls_record_json :: "hex_encoder \<Rightarrow> ndjson_writer \<Rightarrow> decoded_message \<Rightarrow> (string \<times> field_value) option \<Rightarrow> json" where
  "tls_record_json hx nw msg exploded =
     JObj ([(''kind'', JStr ''tls_record''), (''tstamp'', JNum (epoch_micros (dm_timestamp msg)))]
       @ member (''ip'' \<in> nw_groups nw) ''ip'' (ip_json (fmt_ip (dm_src_ip msg)) (fmt_ip (dm_dst_ip msg)))
       @ member (''tcp'' \<in> nw_groups nw) ''tcp''
           (JObj [(''srcport'', JNum (unat (dm_src_port msg))), (''dstport'', JNum (unat (dm_dst_port msg)))])
       @ member (''tls'' \<in> nw_groups nw) ''tls'' (JObj [(''app_data'', JStr (hx (dm_tls_app_data msg)))])
       @ group_members hx nw (grouped_entries (dm_fields msg)) exploded)"

definition packet_json :: "ndjson_writer \<Rightarrow> packet_event \<Rightarrow> json" where
  "packet_json nw evt =
     JObj ([(''kind'', JStr ''packet''), (''tstamp'', JNum (epoch_micros (pe_timestamp evt)))]
       @ member (''ip'' \<in> nw_groups nw) ''ip'' (ip_json (fmt_ip (pe_src_ip evt)) (fmt_ip (pe_dst_ip evt)))
       @ member (''tcp'' \<in> nw_groups nw) ''tcp''
           (JObj [(''srcport'', JNum (unat (pe_src_port evt))), (''dstport'', JNum (unat (pe_dst_port evt))),
                  (''seq'', JNum (unat (pe_seq evt))), (''ack'', JNum (unat (pe_ack evt))),
                  (''flags'', JArr (map JStr (pe_flags evt))), (''payload_len'', JNum (pe_payload_len evt))]))"

subsection \<open>Texts\<close>

lemma write_parts_append: "write_parts False (xs @ ys) = write_parts False xs @ write_parts False ys"
  by (induction xs) simp_all

abbreviation member_text :: "string \<times> json \<Rightarrow> string" where
  "member_text \<equiv> \<lambda>(k, j). write_json_string k @ '':'' @ json_text j"

lemma plain_keys:
  "write_json_string ''kind'' = quoted ''kind''" "write_json_string ''tstamp'' = quoted ''tstamp''"
  "write_json_string ''ip'' = quoted ''ip''" "write_json_string ''src'' = quoted ''src''"
  "write_json_string ''dst'' = quoted ''dst''" "write_json_string ''tcp'' = quoted ''tcp''"
  "write_json_string ''srcport'' = quoted ''srcport''" "write_json_string ''dstport'' = quoted ''dstport''"
  "write_json_string ''tls'' = quoted ''tls''" "write_json_string ''app_data'' = quoted ''app_data''"
  "write_json_string ''seq'' = quoted ''seq''" "write_json_string ''ack'' = quoted ''ack''"
  "write_json_string ''flags'' = quoted ''flags''" "write_json_string ''payload_len'' = quoted ''payload_len''"
  "write_json_string ''tls_record'' = quoted ''tls_record''" "write_json_string ''packet'' = quoted ''packet''"
  "write_json_string ''index'' = quoted ''index''" "write_json_string ''_index'' = quoted ''_index''"
  "write_json_string ''timestamp'' = quoted ''timestamp''" "write_json_string ''layers'' = quoted ''layers''"
  by code_simp+

lemma write_groups_json:
  "write_groups hx nw grouped exploded gs = write_parts False (map member_text
     (concat (map (\<lambda>g. if \<exists>v. exploded = Some (g, v)
        then [(g, field_json hx (snd (the exploded)) g (nw_map_fields nw))]
        else case map_of grouped g of None \<Rightarrow> [] | Some vs \<Rightarrow> [(g, group_json hx (nw_map_fields nw) g vs g)]) gs)))"
  by (induction gs) (auto simp: write_values_json write_parts_append split: option.splits prod.splits)

lemma write_one_tls_record_json:
  "write_one_tls_record hx nw msg (grouped_entries (dm_fields msg)) exploded = json_text (tls_record_json hx nw msg exploded) @ [LF]"
  by (simp add: write_one_tls_record_def tls_record_json_def write_preamble_def write_ip_def ip_json_def
      write_parts_append member_def write_groups_json group_members_def plain_keys)

lemma write_packet_event_json:
  "write_packet_event nw w evt = counted_write w (json_text (packet_json nw evt) @ [LF])"
proof -
  have "json_text \<circ> JStr = write_json_string" by (simp add: fun_eq_iff)
  then show ?thesis
    by (simp add: write_packet_event_def packet_json_def write_preamble_def write_ip_def ip_json_def
        write_parts_append member_def plain_keys)
qed

subsection \<open>Properties\<close>

lemma str_lines_jsons:
  "str_lines (concat (map (\<lambda>j. json_text j @ [LF]) js)) = map json_text js"
proof (induction js)
  case Nil
  show ?case by (simp add: str_lines_def)
next
  case (Cons j js)
  have "LF \<notin> set (json_text j)" "CR \<notin> set (json_text j)"
    using json_text_plain [of LF j] json_text_plain [of CR j] by auto
  then show ?case using Cons by (simp add: str_lines_line)
qed

text \<open>The occurrences a message's lines are written for: none named, or each one of the exploded group.\<close>

definition explosions :: "ndjson_writer \<Rightarrow> decoded_message \<Rightarrow> (string \<times> field_value) option list" where
  "explosions nw msg =
     (case nw_explode nw of
        None \<Rightarrow> [None]
      | Some g \<Rightarrow>
          (case values_named g (ff_entries (dm_fields msg)) of
             [] \<Rightarrow> [None] | vs \<Rightarrow> map (\<lambda>v. Some (g, v)) vs))"

lemma set_first_names: "set (first_names seen xs) = set xs - set seen"
  by (induction xs arbitrary: seen) auto

lemma values_named_empty: "values_named g es = [] \<longleftrightarrow> g \<notin> fst ` set es"
  by (auto simp: values_named_def filter_empty_conv)

lemma map_of_grouped:
  "map_of (grouped_entries ff) g =
     (let vs = values_named g (ff_entries ff) in if vs = [] then None else Some vs)"
proof -
  have "map_of (map (\<lambda>n. (n, f n)) ns) g = (if g \<in> set ns then Some (f g) else None)" 
    for f :: "string \<Rightarrow> field_value list" and ns
    by (induction ns) auto
  then show ?thesis
    by (auto simp: grouped_entries_eq Let_def values_named_empty set_first_names)
qed

lemma write_tls_record_json:
  "write_tls_record hx nw w msg = counted_write w
     (concat (map (\<lambda>j. json_text j @ [LF]) (map (tls_record_json hx nw msg) (explosions nw msg))))"
proof -
  have one: "(\<lambda>v. write_one_tls_record hx nw msg (grouped_entries (dm_fields msg)) (Some (g, v)))
      = (\<lambda>v. json_text (tls_record_json hx nw msg (Some (g, v))) @ [LF])" for g
    by (simp add: write_one_tls_record_json)
  show ?thesis
    by (auto simp: write_tls_record_def explosions_def map_of_grouped Let_def write_one_tls_record_json one comp_def
        split: option.splits list.splits)
qed

text \<open>
  C33 (NDJSON records). What \<open>write_tls_record\<close> appends are lines that a strict JSON parser reads, in order, as the objects
  of the record: one, or with an exploded group one per occurrence of it and at least one. Whatever bytes a
  dissector recorded, a line never breaks, and the count returned is the number of bytes appended.
\<close>

theorem ndjson_lines_parse:
  "\<exists>outp. write_tls_record hx nw w msg = (w @ outp, length outp)
     \<and> map parse_json (str_lines outp) = map (\<lambda>x. Some (tls_record_json hx nw msg x)) (explosions nw msg)
     \<and> length (explosions nw msg) = (case nw_explode nw of None \<Rightarrow> 1
         | Some g \<Rightarrow> max 1 (length (values_named g (ff_entries (dm_fields msg)))))"
proof -
  let ?js = "map (tls_record_json hx nw msg) (explosions nw msg)"
  have "map parse_json (str_lines (concat (map (\<lambda>j. json_text j @ [LF]) ?js))) = map Some ?js"
    unfolding str_lines_jsons by (simp add: parse_json_text)
  moreover have "length (explosions nw msg) = (case nw_explode nw of None \<Rightarrow> 1
         | Some g \<Rightarrow> max 1 (length (values_named g (ff_entries (dm_fields msg)))))"
    by (auto simp: explosions_def split: option.splits list.splits)
  ultimately show ?thesis
    by (intro exI conjI, unfold write_tls_record_json counted_write_def) (rule refl, simp_all add: comp_def)
qed

text \<open>
  Packet events. A packet event is one line that parses as the object with its addresses, ports, sequence numbers,
  flags and payload length, as far as they are selected.
\<close>

lemma packet_event_parses:
  "\<exists>outp. write_packet_event nw w evt = (w @ outp, length outp)
     \<and> map parse_json (str_lines outp) = [Some (packet_json nw evt)]"
proof -
  have "str_lines (json_text (packet_json nw evt) @ [LF]) = [json_text (packet_json nw evt)]"
    using str_lines_jsons [of "[packet_json nw evt]"] by simp
  then show ?thesis by (simp add: write_packet_event_json counted_write_def parse_json_text)
qed

subsection \<open>The Elasticsearch format\<close>

definition plain_text :: "string \<Rightarrow> bool" where
  "plain_text s \<longleftrightarrow> list_all (\<lambda>c. c \<noteq> DQ \<and> c \<noteq> BSLASH \<and> (of_char c :: nat) \<ge> 0x20) s"

lemma escape_chars_id: "plain_text s \<Longrightarrow> escape_chars s = s"
  by (induction s) (auto simp: plain_text_def escape_char_def)

lemma quoted_json: "plain_text s \<Longrightarrow> quoted s = write_json_string s"
  by (simp add: quoted_def write_json_string_def escape_chars_id)

lemma plain_digits: "list_all dec_digit s \<Longrightarrow> plain_text s"
  by (auto simp: plain_text_def list_all_iff dec_digit_def byte_in_def DQ_def BSLASH_def)

lemma plain_append [simp]: "plain_text (s @ t) \<longleftrightarrow> plain_text s \<and> plain_text t"
  by (simp add: plain_text_def)

lemma plain_dash [simp]: "plain_text (CHR ''-'' # s) = plain_text s"
  by (simp add: plain_text_def DQ_def BSLASH_def)

lemma plain_index_date: "plain_text (index_date t)"
proof -
  have "plain_text (fmt_dec_pad w n)" for w n using plain_digits fmt_dec_pad_val by blast
  then show ?thesis by (simp add: index_date_def Let_def split: prod.splits)
qed

definition ek_layers_json :: "hex_encoder \<Rightarrow> decoded_message \<Rightarrow> string list \<Rightarrow> (string \<times> json) list" where
  "ek_layers_json hx msg fs =
     concat (map (\<lambda>f. case ek_values_for hx f msg of
        None \<Rightarrow> [] | Some vs \<Rightarrow> member (vs \<noteq> []) (dots_to_underscores f) (JArr (map JStr vs))) fs)"

definition ek_data_json :: "hex_encoder \<Rightarrow> ek_writer \<Rightarrow> decoded_message \<Rightarrow> json" where
  "ek_data_json hx ek msg =
     JObj [(''timestamp'', JStr (fmt_dec (epoch_millis (dm_timestamp msg)))),
           (''layers'', JObj (ek_layers_json hx msg (ek_fields ek)))]"

definition ek_index_json :: "ek_writer \<Rightarrow> decoded_message \<Rightarrow> json" where
  "ek_index_json ek msg =
     JObj [(''index'', JObj [(''_index'', JStr (index_prefix ek @ ''-'' @ index_date (dm_timestamp msg)))])]"

lemma ek_layers_text: "ek_layers hx msg b fs = write_parts b (map member_text (ek_layers_json hx msg fs))"
proof (induction fs arbitrary: b)
  case (Cons f fs)
  have "json_text \<circ> JStr = write_json_string" by (simp add: fun_eq_iff)
  then show ?case
    using Cons by (auto simp: ek_layers_json_def member_def split: option.splits)
qed (simp add: ek_layers_json_def)

lemma ek_data_line_json: "ek_data_line hx ek msg = json_text (ek_data_json hx ek msg) @ [LF]"
proof -
  have "plain_text (fmt_dec n)" for n using plain_digits fmt_dec_val by blast
  then show ?thesis
    by (simp add: ek_data_line_def ek_data_json_def ek_layers_text plain_keys quoted_json)
qed

lemma ek_index_line_json:
  assumes "plain_text (index_prefix ek)"
  shows "ek_index_line ek msg = json_text (ek_index_json ek msg) @ [LF]"
proof -
  have "plain_text (index_prefix ek @ ''-'' @ index_date (dm_timestamp msg))"
    using assms plain_index_date by simp
  from quoted_json [OF this] show ?thesis
    by (simp add: ek_index_line_def ek_index_json_def plain_keys)
qed

text \<open>
  C34 (bulk format). With an index prefix free of quotes, backslashes and control characters, a message is exactly two
  lines: an index action with the prefix and the capture date, and the object with the time stamp and an array of strings for
  every selected field that has a value; a strict JSON parser reads both.
\<close>

theorem ek_lines_parse:
  assumes "plain_text (index_prefix ek)"
  shows "\<exists>outp. ek_write_message hx ek w msg = (w @ outp, length outp)
    \<and> map parse_json (str_lines outp) = [Some (ek_index_json ek msg), Some (ek_data_json hx ek msg)]"
proof -
  define outp where "outp = concat (map (\<lambda>j. json_text j @ [LF]) [ek_index_json ek msg, ek_data_json hx ek msg])"
  have "ek_write_message hx ek w msg = counted_write w outp"
    unfolding ek_write_message_def ek_index_line_json [OF assms] ek_data_line_json outp_def by simp
  then have wm: "ek_write_message hx ek w msg = (w @ outp, length outp)" by (simp add: counted_write_def)
  have pj: "map parse_json (str_lines outp) = [Some (ek_index_json ek msg), Some (ek_data_json hx ek msg)]"
    unfolding outp_def str_lines_jsons by (simp only: list.map parse_json_text)
  show ?thesis by (rule exI [of _ outp], rule conjI [OF wm pj])
qed

subsection \<open>Witness\<close>

definition demo_msg :: decoded_message where
  "demo_msg = \<lparr>dm_src_ip = V4 0x0A000001, dm_dst_ip = V6 1, dm_src_port = 443, dm_dst_port = 5000,
     dm_tls_app_data = [0xAB], dm_fields = FrameFields [(''p.x'', Str [DQ, LF])] None None [],
     dm_timestamp = 0\<rparr>"

lemma demo_date: "index_date 0 = ''1970-01-01''"
proof -
  have "civil_from_days 0 = (1970, 1, 1)" by code_simp
  moreover have "fmt_dec_pad 4 1970 = ''1970''" "fmt_dec_pad 2 1 = ''01''" by code_simp+
  ultimately show ?thesis by (simp add: index_date_def)
qed

lemma demo_addresses: "fmt_ipv4 0x0A000001 = ''10.0.0.1''" "fmt_ipv6 1 = ''::1''"
  by code_simp+

theorem ek_lines_parse_witness:
  "\<exists>outp. ek_write_message lower_hex (ek_new [''ip.src'', ''ip.dst'', ''p.x'', ''none''] ''packets'') [] demo_msg = (outp, length outp)
     \<and> map parse_json (str_lines outp) =
       [Some (JObj [(''index'', JObj [(''_index'', JStr ''packets-1970-01-01'')])]),
        Some (JObj [(''timestamp'', JStr ''0''),
          (''layers'', JObj [(''ip_src'', JArr [JStr ''10.0.0.1'']), (''ip_dst'', JArr [JStr ''::1'']),
             (''p_x'', JArr [JStr [DQ, LF]])])])]"
proof -
  let ?ek = "ek_new [''ip.src'', ''ip.dst'', ''p.x'', ''none''] ''packets''"
  have "plain_text (index_prefix ?ek)" by code_simp
  from ek_lines_parse [OF this, of lower_hex "[]" demo_msg]
  obtain outp where t: "ek_write_message lower_hex ?ek [] demo_msg = (outp, length outp)"
    "map parse_json (str_lines outp) = [Some (ek_index_json ?ek demo_msg), Some (ek_data_json lower_hex ?ek demo_msg)]"
    by auto
  have "ek_index_json ?ek demo_msg = JObj [(''index'', JObj [(''_index'', JStr ''packets-1970-01-01'')])]"
    by (simp add: ek_index_json_def ek_new_def demo_msg_def demo_date)
  moreover have "ek_data_json lower_hex ?ek demo_msg = JObj [(''timestamp'', JStr ''0''),
          (''layers'', JObj [(''ip_src'', JArr [JStr ''10.0.0.1'']), (''ip_dst'', JArr [JStr ''::1'']),
             (''p_x'', JArr [JStr [DQ, LF]])])]"
    by (simp add: ek_data_json_def ek_new_def demo_msg_def ek_layers_json_def ek_values_for_def member_def
        dots_to_underscores_def epoch_millis_def fmt_dec_zero demo_addresses values_for_def)
  ultimately show ?thesis using t by auto
qed

end
