(* ===== verification/Orchestrator_Correct.thy ===== *)
theory Orchestrator_Correct
  imports Orchestrator
begin

text \<open>
  Correctness of the core loop: the invariant of the connection map and that processing a frame keeps it and never
  panics, the accounting of TLS records, the isolation of connections from each other, eviction, desynchronised
  directions, the bound on carried-over plaintext, and what each record produces.
\<close>

subsection \<open>What the operations leave alone\<close>

definition counters :: "'vm orchestrator \<Rightarrow> u64 \<times> u64" where
  "counters orc =
     (tls_records_seen orc,
      tls_records_decrypted orc + tls_records_authfailed orc + tls_records_nokey orc
        + tls_records_no_client_hello orc + tls_records_plaintext_handshake orc)"

lemma put_conn_fields [simp]:
  "oc_config (put_conn k c orc) = oc_config orc" "last_sweep (put_conn k c orc) = last_sweep orc" "oc_keylog (put_conn k c orc) = oc_keylog orc"
  "oc_lua (put_conn k c orc) = oc_lua orc" "tls_records_seen (put_conn k c orc) = tls_records_seen orc"
  "tls_records_decrypted (put_conn k c orc) = tls_records_decrypted orc"
  "tls_records_authfailed (put_conn k c orc) = tls_records_authfailed orc"
  "tls_records_nokey (put_conn k c orc) = tls_records_nokey orc"
  "tls_records_no_client_hello (put_conn k c orc) = tls_records_no_client_hello orc"
  "tls_records_plaintext_handshake (put_conn k c orc) = tls_records_plaintext_handshake orc"
  "evicted_connections (put_conn k c orc) = evicted_connections orc"
  "counters (put_conn k c orc) = counters orc" "orch_limits (put_conn k c orc) = orch_limits orc"
  by (simp_all add: put_conn_def counters_def orch_limits_def)

lemma distinct_put_conn [simp]:
  "distinct (map fst (connections orc)) \<Longrightarrow> distinct (map fst (connections (put_conn k c orc)))"
  by (simp add: put_conn_def distinct_update)

lemma set_tail_capped_fields [simp]:
  "oc_config (set_tail_capped key d bs orc) = oc_config orc" "last_sweep (set_tail_capped key d bs orc) = last_sweep orc"
  "counters (set_tail_capped key d bs orc) = counters orc"
  "evicted_connections (set_tail_capped key d bs orc) = evicted_connections orc"
  "distinct (map fst (connections orc)) \<Longrightarrow> distinct (map fst (connections (set_tail_capped key d bs orc)))"
  by (auto simp: set_tail_capped_def Let_def counters_def put_conn_def distinct_update split: option.splits)

text \<open>The message of a record, and the results of a dissection as one case rule for \<open>dissect_and_emit\<close>.\<close>

definition message_of :: "bool \<Rightarrow> connection \<Rightarrow> bytes \<Rightarrow> frame_fields \<Rightarrow> duration \<Rightarrow> decoded_message" where
  "message_of d c pt ff ts =
     \<lparr>dm_src_ip = fst (fst (endpoints d c)), dm_dst_ip = fst (snd (endpoints d c)),
      dm_src_port = snd (fst (endpoints d c)), dm_dst_port = snd (snd (endpoints d c)),
      dm_tls_app_data = pt, dm_fields = ff, dm_timestamp = ts\<rparr>"

lemma set_tail_simps [simp]:
  "server_endpoint (set_tail d bs c) = server_endpoint c"
  "client_endpoint (set_tail d bs c) = client_endpoint c"
  "endpoints d' (set_tail d bs c) = endpoints d' c"
  "conn_meta (set_tail d bs c) = conn_meta c" "is_desynced d' (set_tail d bs c) = is_desynced d' c"
  "tail_for d (set_tail d bs c) = bs" "d \<noteq> d' \<Longrightarrow> tail_for d (set_tail d' bs c) = tail_for d c"
  "conn_state (set_tail d bs c) = conn_state c"
  "set_tail d bs (set_tail d bs' c) = set_tail d bs c"
  by (auto simp: set_tail_def endpoints_def is_desynced_def tail_for_def)

lemma dissect_and_emit_cases [consumes 1, case_names panicked dissected undissected failed]:
  assumes "get_conn key orc = Some c"
  obtains (panicked) p where
      "dissect (w_host w) (snd (server_endpoint c)) (tail_for d c @ pt) (oc_lua orc) = Inl p"
      "dissect_and_emit w key d pt ts orc = Inl p"
    | (dissected) ff consumed lua' where
      "dissect (w_host w) (snd (server_endpoint c)) (tail_for d c @ pt) (oc_lua orc)
         = Inr (Inr (Some (ff, consumed)), lua')"
      "dissect_and_emit w key d pt ts orc =
         Inr (set_tail_capped key d (drop consumed (tail_for d c @ pt))
            ((put_conn key (set_tail d [] c) orc)\<lparr>oc_lua := lua'\<rparr>), [message_of d c pt ff ts])"
    | (undissected) lua' where
      "dissect (w_host w) (snd (server_endpoint c)) (tail_for d c @ pt) (oc_lua orc) = Inr (Inr None, lua')"
      "dissect_and_emit w key d pt ts orc =
         Inr ((put_conn key (set_tail d [] c) orc)\<lparr>oc_lua := lua',
            logged_no_dissector_ports := insert (snd (server_endpoint c)) (logged_no_dissector_ports orc)\<rparr>,
          [message_of d c pt default_fields ts])"
    | (failed) err lua' where
      "dissect (w_host w) (snd (server_endpoint c)) (tail_for d c @ pt) (oc_lua orc) = Inr (Inl err, lua')"
      "dissect_and_emit w key d pt ts orc =
         Inr (set_tail_capped key d (tail_for d c @ pt)
            ((put_conn key (set_tail d [] c) orc)\<lparr>oc_lua := lua'\<rparr>), [message_of d c pt default_fields ts])"
proof -
  obtain src dst where e: "endpoints d c = (src, dst)" by (rule prod.exhaust)
  note unf = dissect_and_emit_def take_tail_def Let_def message_of_def put_conn_def
  show thesis
  proof (cases "dissect (w_host w) (snd (server_endpoint c)) (tail_for d c @ pt) (oc_lua orc)")
    case (Inl p)
    then show ?thesis using assms e by (intro panicked) (simp_all add: unf)
  next
    case ds0: (Inr x)
    obtain res lua' where ds: "x = (res, lua')" by (rule prod.exhaust)
    show ?thesis
    proof (cases res)
      case (Inl err)
      then show ?thesis using assms ds0 ds e by (intro failed) (simp_all add: unf)
    next
      case (Inr opt)
      show ?thesis
      proof (cases opt)
        case None
        then show ?thesis using assms ds0 ds e Inr by (intro undissected) (simp_all add: unf)
      next
        case (Some x)
        obtain ff consumed where x: "x = (ff, consumed)" by fastforce
        have "consumed \<le> length (tail_for d c @ pt)"
          using dissect_consumed ds0 ds Inr Some x by blast
        then show ?thesis using assms ds0 ds e Inr Some x by (intro dissected) (simp_all add: unf min_absorb1)
      qed
    qed
  qed
qed

subsection \<open>Steps on one connection\<close>

text \<open>
  What handling records does to a connection: its endpoints, streams, close flags and desynchronisation stay, and its
  tails stay within the cap.
\<close>

definition record_step :: "orchestrator_config \<Rightarrow> connection \<Rightarrow> connection \<Rightarrow> bool" where
  "record_step cfg c c' \<longleftrightarrow>
     client_endpoint c' = client_endpoint c \<and> server_endpoint c' = server_endpoint c
     \<and> conn_meta c' = conn_meta c \<and> (\<forall>d. is_desynced d c' = is_desynced d c)
     \<and> (\<forall>d. reassembler_for d c' = reassembler_for d c)
     \<and> (\<forall>d. length (tail_for d c') \<le> max (length (tail_for d c)) (max_tail_bytes cfg))"

lemma record_step_refl [simp]: "record_step cfg c c"
  by (simp add: record_step_def)

lemma record_step_state [simp]: "record_step cfg c (c\<lparr>conn_state := s\<rparr>)"
  by (simp add: record_step_def is_desynced_def tail_for_def)

lemma record_step_trans: "record_step cfg c c1 \<Longrightarrow> record_step cfg c1 c2 \<Longrightarrow> record_step cfg c c2"
  by (auto simp: record_step_def) (metis (no_types, lifting) le_max_iff_disj order_trans)

lemma set_tail_capped_eq:
  assumes "get_conn key orc = Some c"
  shows "get_conn key (set_tail_capped key d bs orc)
    = Some (set_tail d (drop (length bs - max_tail_bytes (oc_config orc)) bs) c)"
  using assms by (auto simp: set_tail_capped_def Let_def)

lemma record_step_set_tail:
  "length bs \<le> max_tail_bytes cfg \<Longrightarrow> record_step cfg c (set_tail d bs c)"
proof -
  assume l: "length bs \<le> max_tail_bytes cfg"
  have "length (tail_for d' (set_tail d bs c)) \<le> max (length (tail_for d' c)) (max_tail_bytes cfg)" for d'
    using l by (cases "d' = d") auto
  then show ?thesis by (simp add: record_step_def)
qed

lemma dissect_and_emit_step:
  assumes "get_conn key orc = Some c" and "dissect_and_emit w key d pt ts orc = Inr (orc', out)"
  shows "\<exists>c'. get_conn key orc' = Some c' \<and> record_step (oc_config orc) c c'"
proof -
  have g: "get_conn key ((put_conn key (set_tail d [] c) orc)\<lparr>oc_lua := lua'\<rparr>) = Some (set_tail d [] c)" for lua' by simp
  note capped = set_tail_capped_eq [OF g]
  show ?thesis
    using assms
  proof (cases rule: dissect_and_emit_cases [of key orc c w d pt ts])
    case (dissected ff consumed lua')
    then show ?thesis using assms(2) capped by (auto simp: record_step_set_tail)
  next
    case (undissected lua')
    then show ?thesis using assms(2) by (auto simp: record_step_set_tail)
  next
    case (failed err lua')
    then show ?thesis using assms(2) capped by (auto simp: record_step_set_tail)
  qed simp
qed

lemma dissect_and_emit_frame:
  assumes "dissect_and_emit w key d pt ts orc = Inr (orc', out)"
  shows "oc_config orc' = oc_config orc \<and> last_sweep orc' = last_sweep orc \<and> counters orc' = counters orc
    \<and> evicted_connections orc' = evicted_connections orc
    \<and> (k \<noteq> key \<longrightarrow> get_conn k orc' = get_conn k orc)
    \<and> (distinct (map fst (connections orc)) \<longrightarrow> distinct (map fst (connections orc')))"
proof -
  have "counters (orc\<lparr>oc_lua := l\<rparr>) = counters orc"
    "counters (orc\<lparr>logged_no_dissector_ports := p\<rparr>) = counters orc" for orc :: "'a orchestrator" and l p
    by (simp_all add: counters_def)
  note c = this
  show ?thesis
  proof (cases "get_conn key orc")
    case None
    then show ?thesis using assms by (auto simp: dissect_and_emit_def)
  next
    case (Some conn)
    then show ?thesis
      using assms by (cases rule: dissect_and_emit_cases [of key orc conn w d pt ts])
        (auto simp: c set_tail_capped_get(2))
  qed
qed

lemma dissect_and_emit_panic: "dissect_and_emit w key d pt ts orc = Inl p \<Longrightarrow> script_panics (w_host w) p"
  by (auto simp: dissect_and_emit_def Let_def dest: dissect_panic split: option.splits sum.splits prod.splits)

subsection \<open>Handling one record\<close>

lemma counters_updates [simp]:
  "counters (orc\<lparr>oc_keylog := kl\<rparr>) = counters orc"
  "counters (orc\<lparr>tls_records_decrypted := tls_records_decrypted orc + 1\<rparr>)
     = (fst (counters orc), snd (counters orc) + 1)"
  "counters (orc\<lparr>tls_records_authfailed := tls_records_authfailed orc + 1\<rparr>)
     = (fst (counters orc), snd (counters orc) + 1)"
  "counters (orc\<lparr>tls_records_nokey := tls_records_nokey orc + 1\<rparr>)
     = (fst (counters orc), snd (counters orc) + 1)"
  "counters (orc\<lparr>tls_records_no_client_hello := tls_records_no_client_hello orc + 1\<rparr>)
     = (fst (counters orc), snd (counters orc) + 1)"
  "counters (orc\<lparr>tls_records_plaintext_handshake := tls_records_plaintext_handshake orc + 1\<rparr>)
     = (fst (counters orc), snd (counters orc) + 1)"
  "counters (orc\<lparr>tls_records_seen := tls_records_seen orc + 1\<rparr>)
     = (fst (counters orc) + 1, snd (counters orc))"
  by (simp_all add: counters_def)

text \<open>The ways a record is handled, as the state and messages each leaves.\<close>

definition seen_one :: "'vm orchestrator \<Rightarrow> 'vm orchestrator" where
  "seen_one orc = orc\<lparr>tls_records_seen := tls_records_seen orc + 1\<rparr>"

lemma seen_one_simps [simp]:
  "get_conn k (seen_one orc) = get_conn k orc" "oc_config (seen_one orc) = oc_config orc" "last_sweep (seen_one orc) = last_sweep orc"
  "counters (seen_one orc) = (fst (counters orc) + 1, snd (counters orc))"
  "connections (seen_one orc) = connections orc" "evicted_connections (seen_one orc) = evicted_connections orc"
  "oc_keylog (seen_one orc) = oc_keylog orc"
  by (simp_all add: seen_one_def)

lemma handle_record_cases [case_names cipher_spec hello no_hello decrypted nokey authfailed]:
  fixes w :: "'vm world" and orc :: "'vm orchestrator"
  obtains (cipher_spec) "ct = 0x14"
      "handle_record w key c2s ts envs ct body conn orc =
         Inr ((seen_one orc)\<lparr>tls_records_plaintext_handshake := tls_records_plaintext_handshake (seen_one orc) + 1\<rparr>, [])"
    | (hello) st orc1 where "ct \<noteq> 0x14" "orc1 = put_conn key (conn\<lparr>conn_state := Some st\<rparr>) (seen_one orc)"
      "handle_record w key c2s ts envs ct body conn orc =
         Inr (orc1\<lparr>tls_records_plaintext_handshake := tls_records_plaintext_handshake orc1 + 1\<rparr>, [])"
      "conn_state conn = None \<or> \<not> c2s \<and> server_random_from_server_hello body \<noteq> None
         \<and> (\<exists>st0 rnd. conn_state conn = Some st0 \<and> server_random st0 = None \<and> st = st0\<lparr>server_random := Some rnd\<rparr>)"
    | (no_hello) "ct \<noteq> 0x14" "conn_state conn = None"
      "handle_record w key c2s ts envs ct body conn orc =
         Inr ((seen_one orc)\<lparr>tls_records_no_client_hello := tls_records_no_client_hello (seen_one orc) + 1\<rparr>, [])"
    | (decrypted) st st' kl rc orc1 where "ct \<noteq> 0x14" "conn_state conn = Some st"
      "kl = poll (w_hex w) (fst envs) (oc_keylog orc)"
      "decrypt (w_crypto w) (ks_current kl) c2s ct body st = (Inr rc, st')"
      "orc1 = put_conn key (conn\<lparr>conn_state := Some st'\<rparr>) ((seen_one orc)\<lparr>oc_keylog := kl\<rparr>)"
      "handle_record w key c2s ts envs ct body conn orc =
         (if dr_content_type rc = 0x17
          then dissect_and_emit w key c2s (dr_plaintext rc) ts
                 (orc1\<lparr>tls_records_decrypted := tls_records_decrypted orc1 + 1\<rparr>)
          else Inr (orc1\<lparr>tls_records_decrypted := tls_records_decrypted orc1 + 1\<rparr>, []))"
    | (nokey) st st' kl orc1 where "ct \<noteq> 0x14" "conn_state conn = Some st"
      "kl = poll (w_hex w) (fst envs) (oc_keylog orc)"
      "decrypt (w_crypto w) (ks_current kl) c2s ct body st = (Inl NoKey, st')"
      "orc1 = put_conn key (conn\<lparr>conn_state := Some st'\<rparr>) ((seen_one orc)\<lparr>oc_keylog := kl\<rparr>)"
      "handle_record w key c2s ts envs ct body conn orc =
         Inr (orc1\<lparr>tls_records_nokey := tls_records_nokey orc1 + 1,
               oc_keylog := poll_after_miss (w_hex w) (snd envs) kl\<rparr>, [])"
    | (authfailed) st st' kl orc1 where "ct \<noteq> 0x14" "conn_state conn = Some st"
      "kl = poll (w_hex w) (fst envs) (oc_keylog orc)"
      "decrypt (w_crypto w) (ks_current kl) c2s ct body st = (Inl AuthFailed, st')"
      "orc1 = put_conn key (conn\<lparr>conn_state := Some st'\<rparr>) ((seen_one orc)\<lparr>oc_keylog := kl\<rparr>)"
      "handle_record w key c2s ts envs ct body conn orc =
         Inr (orc1\<lparr>tls_records_authfailed := tls_records_authfailed orc1 + 1\<rparr>, [])"
proof (cases "ct = 0x14")
  case True
  then show thesis using cipher_spec by (simp add: handle_record_def Let_def seen_one_def)
next
  case ct: False
  let ?hr = "handle_record w key c2s ts envs ct body conn orc"
  show thesis
  proof (cases "if c2s \<and> conn_state conn = None then client_random_from_client_hello body else None")
    case (Some random)
    then show ?thesis
      using ct hello [of "put_conn key (conn\<lparr>conn_state := Some (new_connection random)\<rparr>) (seen_one orc)"
          "new_connection random"]
      by (simp add: handle_record_def Let_def seen_one_def split: if_splits)
  next
    case no_ch: None
    show ?thesis
    proof (cases "conn_state conn")
      case None
      then show ?thesis using ct no_ch no_hello by (simp add: handle_record_def Let_def seen_one_def)
    next
      case st: (Some st)
      obtain learned st1 where l: "(case (if c2s then None else server_random_from_server_hello body) of
          None \<Rightarrow> (False, st) | Some random \<Rightarrow> set_server_random random st) = (learned, st1)"
        by (rule prod.exhaust)
      show ?thesis
      proof (cases learned)
        case True
        then have "\<not> c2s \<and> server_random_from_server_hello body \<noteq> None \<and> server_random st = None
            \<and> (\<exists>rnd. st1 = st\<lparr>server_random := Some rnd\<rparr>)"
          using l by (auto simp: set_server_random_def split: option.splits if_splits)
        then show ?thesis
          using True ct no_ch st l hello [of "put_conn key (conn\<lparr>conn_state := Some st1\<rparr>) (seen_one orc)" st1]
          by (simp add: handle_record_def Let_def seen_one_def)
      next
        case False
        then have st1: "st1 = st"
          using l by (auto simp: set_server_random_def split: option.splits if_splits)
        let ?kl = "poll (w_hex w) (fst envs) (oc_keylog orc)"
        obtain res st' where d: "decrypt (w_crypto w) (ks_current ?kl) c2s ct body st = (res, st')"
          by (rule prod.exhaust)
        note unf = handle_record_def Let_def seen_one_def put_conn_def
        show ?thesis
        proof (cases res)
          case (Inr rc)
          then show ?thesis
            using ct no_ch st l False st1 d
            by (intro decrypted [OF ct st refl _ refl]) (simp, simp only: unf, simp)
        next
          case (Inl e)
          show ?thesis
          proof (cases e)
            case NoKey
            then show ?thesis
              using Inl ct no_ch st l False st1 d by (intro nokey [OF ct st refl _ refl]) (simp_all add: unf)
          next
            case AuthFailed
            then show ?thesis
              using Inl ct no_ch st l False st1 d
              by (intro authfailed [OF ct st refl _ refl]) (simp_all add: unf)
          qed
        qed
      qed
    qed
  qed
qed

lemma handle_record_step:
  assumes "get_conn key orc = Some conn" and hr: "handle_record w key c2s ts envs ct body conn orc = Inr (orc', out)"
  shows "\<exists>c'. get_conn key orc' = Some c' \<and> record_step (oc_config orc) conn c'"
proof (cases rule: handle_record_cases [of ct w key c2s ts envs body conn orc])
  case (decrypted st st' kl rc orc1)
  let ?c1 = "conn\<lparr>conn_state := Some st'\<rparr>"
  let ?o = "orc1\<lparr>tls_records_decrypted := tls_records_decrypted orc1 + 1\<rparr>"
  have g: "get_conn key ?o = Some ?c1" and cfg: "oc_config ?o = oc_config orc"
    using decrypted(5) by simp_all
  show ?thesis
  proof (cases "dr_content_type rc = 0x17")
    case True
    then have "dissect_and_emit w key c2s (dr_plaintext rc) ts ?o = Inr (orc', out)" using decrypted(6) hr by simp
    from dissect_and_emit_step [OF g this]
    obtain c' where "get_conn key orc' = Some c'" "record_step (oc_config orc) ?c1 c'" unfolding cfg by blast
    then show ?thesis using record_step_trans [OF record_step_state] by auto
  next
    case False
    then show ?thesis using decrypted(6) g hr by auto
  qed
qed (use assms in auto)

lemma handle_record_frame:
  fixes orc :: "'vm orchestrator"
  assumes hr: "handle_record w key c2s ts envs ct body conn orc = Inr (orc', out)"
  shows "oc_config orc' = oc_config orc \<and> last_sweep orc' = last_sweep orc
    \<and> evicted_connections orc' = evicted_connections orc
    \<and> counters orc' = (fst (counters orc) + 1, snd (counters orc) + 1)
    \<and> (k \<noteq> key \<longrightarrow> get_conn k orc' = get_conn k orc)
    \<and> (distinct (map fst (connections orc)) \<longrightarrow> distinct (map fst (connections orc')))"
proof (cases rule: handle_record_cases [of ct w key c2s ts envs body conn orc])
  case (decrypted st st' kl rc orc1)
  let ?o = "orc1\<lparr>tls_records_decrypted := tls_records_decrypted orc1 + 1\<rparr>"
  have c: "counters ?o = (fst (counters orc) + 1, snd (counters orc) + 1)"
    using decrypted(5) by (simp add: counters_def) (simp add: seen_one_def)
  have c': "oc_config ?o = oc_config orc" "last_sweep ?o = last_sweep orc"
      "evicted_connections ?o = evicted_connections orc" "k \<noteq> key \<Longrightarrow> get_conn k ?o = get_conn k orc"
      "distinct (map fst (connections orc)) \<Longrightarrow> distinct (map fst (connections ?o))"
    using decrypted(5) by simp_all
  show ?thesis
  proof (cases "dr_content_type rc = 0x17")
    case True
    then have "dissect_and_emit w key c2s (dr_plaintext rc) ts ?o = Inr (orc', out)" using decrypted(6) hr by simp
    from dissect_and_emit_frame [OF this, of k] show ?thesis using c c' by auto
  next
    case False
    then show ?thesis using c c' decrypted(6) hr by auto
  qed
next
  case (nokey st st' kl orc1)
  then show ?thesis using hr by auto (simp_all add: counters_def seen_one_def)
next
  case (authfailed st st' kl orc1)
  then show ?thesis using hr by auto (simp_all add: counters_def seen_one_def)
next
  case (hello st orc1)
  then show ?thesis using hr by auto (simp_all add: counters_def seen_one_def)
qed (use hr in auto)

lemma handle_record_messages: "handle_record w key c2s ts envs ct body conn orc = Inr (orc', out) \<Longrightarrow> length out \<le> 1"
proof (cases rule: handle_record_cases [of ct w key c2s ts envs body conn orc])
  case (decrypted st st' kl rc orc1)
  assume hr: "handle_record w key c2s ts envs ct body conn orc = Inr (orc', out)"
  let ?o = "orc1\<lparr>tls_records_decrypted := tls_records_decrypted orc1 + 1\<rparr>"
  have g: "get_conn key ?o = Some (conn\<lparr>conn_state := Some st'\<rparr>)" using decrypted(5) by simp
  have "length out = 1" if "dissect_and_emit w key c2s (dr_plaintext rc) ts ?o = Inr (orc', out)"
    using g that by (cases rule: dissect_and_emit_cases [of key ?o _ w c2s "dr_plaintext rc" ts]) auto
  then show ?thesis using decrypted(6) hr by (auto split: if_splits)
qed auto

lemma handle_record_panic:
  "handle_record w key c2s ts envs ct body conn orc = Inl p \<Longrightarrow> script_panics (w_host w) p"
  by (cases rule: handle_record_cases [of ct w key c2s ts envs body conn orc])
    (auto dest: dissect_and_emit_panic split: if_splits)

subsection \<open>Draining a direction\<close>

text \<open>What draining does to a connection: its direction's stream is cut down to the incomplete record at its end.\<close>

definition drain_step :: "orchestrator_config \<Rightarrow> bool \<Rightarrow> connection \<Rightarrow> connection \<Rightarrow> bool" where
  "drain_step cfg d c c' \<longleftrightarrow>
     client_endpoint c' = client_endpoint c \<and> server_endpoint c' = server_endpoint c
     \<and> conn_meta c' = conn_meta c \<and> (\<forall>e. is_desynced e c' = is_desynced e c)
     \<and> (\<forall>e. e \<noteq> d \<longrightarrow> reassembler_for e c' = reassembler_for e c)
     \<and> wf_reassembler (reassembler_for d c') \<and> pending (reassembler_for d c') = pending (reassembler_for d c)
     \<and> limits (reassembler_for d c') = limits (reassembler_for d c)
     \<and> base_seq (reassembler_for d c') = base_seq (reassembler_for d c)
     \<and> next_expected_relative (reassembler_for d c') = next_expected_relative (reassembler_for d c)
     \<and> pending_since (reassembler_for d c') = pending_since (reassembler_for d c)
     \<and> (within_limits (reassembler_for d c') \<longleftrightarrow> within_limits (reassembler_for d c))
     \<and> contig_bytes (reassembler_for d c') = snd (split_records (contig_bytes (reassembler_for d c)))
     \<and> (\<forall>e. length (tail_for e c') \<le> max (length (tail_for e c)) (max_tail_bytes cfg))"

lemma set_reassembler_simps [simp]:
  "client_endpoint (set_reassembler d r c) = client_endpoint c"
  "server_endpoint (set_reassembler d r c) = server_endpoint c"
  "conn_meta (set_reassembler d r c) = conn_meta c" "is_desynced e (set_reassembler d r c) = is_desynced e c"
  "tail_for e (set_reassembler d r c) = tail_for e c" "conn_state (set_reassembler d r c) = conn_state c"
  by (auto simp: set_reassembler_def is_desynced_def tail_for_def)

lemma drain_step_stop:
  assumes "wf_reassembler (reassembler_for d c)" and "split_record (contig_bytes (reassembler_for d c)) = None"
  shows "drain_step cfg d c c"
  using assms by (simp add: drain_step_def split_records.simps)

lemma drain_step_record:
  assumes "wf_reassembler (reassembler_for d c)"
    and "split_record (contig_bytes (reassembler_for d c)) = Some (ct, body, contig_bytes r)"
    and "pending r = pending (reassembler_for d c)" "limits r = limits (reassembler_for d c)"
    and "base_seq r = base_seq (reassembler_for d c)"
      "next_expected_relative r = next_expected_relative (reassembler_for d c)"
      "pending_since r = pending_since (reassembler_for d c)"
    and "within_limits r \<longleftrightarrow> within_limits (reassembler_for d c)"
    and "record_step cfg (set_reassembler d r c) c1" and "drain_step cfg d c1 c2"
  shows "drain_step cfg d c c2"
proof -
  have sr: "snd (split_records (contig_bytes (reassembler_for d c))) = snd (split_records (contig_bytes r))"
    using assms(2) by (subst split_records.simps) (simp split: prod.splits)
  have "length (tail_for e c2) \<le> max (length (tail_for e c)) (max_tail_bytes cfg)" for e
  proof -
    have "length (tail_for e c2) \<le> max (length (tail_for e c1)) (max_tail_bytes cfg)"
      and "length (tail_for e c1) \<le> max (length (tail_for e c)) (max_tail_bytes cfg)"
      using assms(9,10) by (auto simp: record_step_def drain_step_def)
    then show ?thesis by linarith
  qed
  then show ?thesis
    using assms(3-10) sr unfolding record_step_def drain_step_def by simp
qed

lemma drain_records_ok:
  assumes "\<forall>c. get_conn key orc = Some c \<longrightarrow> wf_reassembler (reassembler_for d c)"
  shows "(\<exists>p. drain_records w key d ts envs i orc out = Inl p \<and> script_panics (w_host w) p) \<or>
    (\<exists>orc' out' n. drain_records w key d ts envs i orc out = Inr (orc', out @ out')
    \<and> oc_config orc' = oc_config orc \<and> last_sweep orc' = last_sweep orc \<and> evicted_connections orc' = evicted_connections orc
    \<and> counters orc' = (fst (counters orc) + of_nat n, snd (counters orc) + of_nat n)
    \<and> (\<forall>k. k \<noteq> key \<longrightarrow> get_conn k orc' = get_conn k orc)
    \<and> (distinct (map fst (connections orc)) \<longrightarrow> distinct (map fst (connections orc')))
    \<and> (case get_conn key orc of
         None \<Rightarrow> orc' = orc \<and> out' = []
       | Some c \<Rightarrow> n = length (fst (split_records (contig_bytes (reassembler_for d c)))) \<and> length out' \<le> n
           \<and> (\<exists>c'. get_conn key orc' = Some c' \<and> drain_step (oc_config orc) d c c')))"
  using assms
proof (induction w key d ts envs i orc out rule: drain_records.induct)
  case (1 w key d ts envs i orc out)
  show ?case
  proof (cases "get_conn key orc")
    case None
    then show ?thesis
      by (intro disjI2 exI [of _ orc] exI [of _ "[]"] exI [of _ 0]) (simp add: drain_records.simps)
  next
    case (Some c)
    have wf: "wf_reassembler (reassembler_for d c)" using 1(2) Some by simp
    note rr = tcp.read_record_content [OF wf]
    show ?thesis
    proof (cases "split_record (contig_bytes (reassembler_for d c))")
      case None
      then show ?thesis
        using Some rr drain_step_stop [OF wf None]
        by (intro disjI2 exI [of _ orc] exI [of _ "[]"] exI [of _ 0])
          (auto simp: drain_records.simps split_records.simps)
    next
      case sp: (Some x)
      obtain ct body rest where x: "x = (ct, body, rest)" by (cases x)
      obtain r where r: "read_record contiguous_len peek take_bytes (reassembler_for d c) = Inr (Some (ct, body, r))"
          "contig_bytes r = rest" "wf_reassembler r"
        using rr sp x by auto
      let ?c1 = "set_reassembler d r c"
      let ?hr = "handle_record w key d ts (envs i) ct body ?c1 (put_conn key ?c1 orc)"
      have g1: "get_conn key (put_conn key ?c1 orc) = Some ?c1" by simp
      show ?thesis
      proof (cases ?hr)
        case (Inl p)
        then have "drain_records w key d ts envs i orc out = Inl p"
          using Some r(1) by (subst drain_records.simps) (simp add: Let_def)
        then show ?thesis using handle_record_panic [OF Inl] by simp
      next
        case hr0: (Inr y)
        obtain orc1 msgs where y: "y = (orc1, msgs)" by (rule prod.exhaust)
        note hr = hr0 [unfolded y]
        obtain c2 where c2: "get_conn key orc1 = Some c2" "record_step (oc_config orc) ?c1 c2"
          using handle_record_step [OF g1 hr] by auto
        note fr = handle_record_frame [OF hr]
        have wf2: "wf_reassembler (reassembler_for d c2)" using c2(2) r(3) by (simp add: record_step_def)
        have step: "drain_records w key d ts envs i orc out = drain_records w key d ts envs (Suc i) orc1 (out @ msgs)"
          using Some r(1) hr by (subst drain_records.simps) (simp add: Let_def)
        have "\<forall>c. get_conn key orc1 = Some c \<longrightarrow> wf_reassembler (reassembler_for d c)" using c2(1) wf2 by simp
        from 1(1) [OF Some r(1) refl refl refl refl hr refl this] show ?thesis
        proof
          assume "\<exists>p. drain_records w key d ts envs (Suc i) orc1 (out @ msgs) = Inl p \<and> script_panics (w_host w) p"
          then show ?thesis using step by simp
        next
          assume "\<exists>orc' out' n. drain_records w key d ts envs (Suc i) orc1 (out @ msgs) = Inr (orc', (out @ msgs) @ out')
            \<and> oc_config orc' = oc_config orc1 \<and> last_sweep orc' = last_sweep orc1 \<and> evicted_connections orc' = evicted_connections orc1
            \<and> counters orc' = (fst (counters orc1) + of_nat n, snd (counters orc1) + of_nat n)
            \<and> (\<forall>k. k \<noteq> key \<longrightarrow> get_conn k orc' = get_conn k orc1)
            \<and> (distinct (map fst (connections orc1)) \<longrightarrow> distinct (map fst (connections orc')))
            \<and> (case get_conn key orc1 of
                 None \<Rightarrow> orc' = orc1 \<and> out' = []
               | Some c \<Rightarrow> n = length (fst (split_records (contig_bytes (reassembler_for d c)))) \<and> length out' \<le> n
                   \<and> (\<exists>c'. get_conn key orc' = Some c' \<and> drain_step (oc_config orc1) d c c'))"
          then obtain orc' out' n where ih:
            "drain_records w key d ts envs (Suc i) orc1 (out @ msgs) = Inr (orc', (out @ msgs) @ out')"
            "oc_config orc' = oc_config orc1" "last_sweep orc' = last_sweep orc1" "evicted_connections orc' = evicted_connections orc1"
            "counters orc' = (fst (counters orc1) + of_nat n, snd (counters orc1) + of_nat n)"
            "\<forall>k. k \<noteq> key \<longrightarrow> get_conn k orc' = get_conn k orc1"
            "distinct (map fst (connections orc1)) \<longrightarrow> distinct (map fst (connections orc'))"
            "n = length (fst (split_records (contig_bytes (reassembler_for d c2))))" "length out' \<le> n"
            "\<exists>c'. get_conn key orc' = Some c' \<and> drain_step (oc_config orc1) d c2 c'"
            using c2(1) by auto
          obtain c3 where c3: "get_conn key orc' = Some c3" "drain_step (oc_config orc) d c2 c3"
            using ih(10) fr by auto
          have "drain_step (oc_config orc) d c c3"
            using drain_step_record [OF wf _ _ _ _ _ _ _ c2(2) c3(2), of ct body] sp x r read_record_frame [OF wf r(1)]
            by simp
          moreover have "length (fst (split_records (contig_bytes (reassembler_for d c)))) = Suc n"
            using sp x r(2) ih(8) c2(2) by (subst split_records.simps) (simp add: record_step_def split: prod.splits)
          moreover have "length (msgs @ out') \<le> Suc n"
            using ih(9) handle_record_messages [OF hr] by simp
          ultimately show ?thesis
            using step ih(1-7) fr c3(1) Some
            by (intro disjI2 exI [of _ orc'] exI [of _ "msgs @ out'"] exI [of _ "Suc n"]) (simp add: add.assoc)
        qed
      qed
    qed
  qed
qed

text \<open>
  The loop as a rule: what holds when no complete record is ready, and is carried back over the handling of a record, holds
  of every run.
\<close>

lemma drain_records_rule [consumes 3, case_names stop step]:
  fixes orc :: "'vm orchestrator"
  assumes "get_conn key orc = Some c" and "wf_reassembler (reassembler_for d c)"
    and "drain_records w key d ts envs i orc out = Inr (orc', out')"
    and stop: "\<And>i (orc :: 'vm orchestrator) out c. get_conn key orc = Some c \<Longrightarrow> wf_reassembler (reassembler_for d c) \<Longrightarrow>
        split_record (contig_bytes (reassembler_for d c)) = None \<Longrightarrow> P i orc c out orc out"
    and step: "\<And>i (orc :: 'vm orchestrator) out c ct body r orc1 msgs c2 orc' out'.
        get_conn key orc = Some c \<Longrightarrow> wf_reassembler (reassembler_for d c) \<Longrightarrow>
        split_record (contig_bytes (reassembler_for d c)) = Some (ct, body, contig_bytes r) \<Longrightarrow> wf_reassembler r \<Longrightarrow>
        handle_record w key d ts (envs i) ct body (set_reassembler d r c) (put_conn key (set_reassembler d r c) orc)
          = Inr (orc1, msgs) \<Longrightarrow>
        get_conn key orc1 = Some c2 \<Longrightarrow> record_step (oc_config orc) (set_reassembler d r c) c2 \<Longrightarrow>
        P (Suc i) orc1 c2 (out @ msgs) orc' out' \<Longrightarrow> P i orc c out orc' out'"
  shows "P i orc c out orc' out'"
  using assms(1-3)
proof (induction w\<equiv>w key\<equiv>key d\<equiv>d ts\<equiv>ts envs\<equiv>envs i orc out arbitrary: c rule: drain_records.induct)
  case (1 i orc out)
  note wf = 1(3)
  note rr = tcp.read_record_content [OF wf]
  show ?case
  proof (cases "split_record (contig_bytes (reassembler_for d c))")
    case None
    then have "orc' = orc \<and> out' = out" using 1(2,4) rr by (auto simp: drain_records.simps)
    then show ?thesis using stop [OF 1(2) wf None] by simp
  next
    case sp: (Some x)
    obtain ct body rest where x: "x = (ct, body, rest)" by (cases x)
    obtain r where r: "read_record contiguous_len peek take_bytes (reassembler_for d c) = Inr (Some (ct, body, r))"
        "contig_bytes r = rest" "wf_reassembler r"
      using rr sp x by auto
    let ?c1 = "set_reassembler d r c"
    have g1: "get_conn key (put_conn key ?c1 orc) = Some ?c1" by simp
    obtain orc1 msgs where hr: "handle_record w key d ts (envs i) ct body ?c1 (put_conn key ?c1 orc) = Inr (orc1, msgs)"
        "drain_records w key d ts envs (Suc i) orc1 (out @ msgs) = Inr (orc', out')"
      using 1(2,4) r(1) by (subst (asm) drain_records.simps) (auto simp: Let_def split: sum.splits prod.splits)
    from handle_record_step [OF g1 hr(1)]
    obtain c2 where c2: "get_conn key orc1 = Some c2" "record_step (oc_config orc) ?c1 c2" by auto
    have "wf_reassembler (reassembler_for d c2)" using c2(2) r(3) by (simp add: record_step_def)
    then have "P (Suc i) orc1 c2 (out @ msgs) orc' out'"
      using 1(1) [OF 1(2) r(1) refl refl refl refl hr(1) refl c2(1)] hr(2) by simp
    then show ?thesis using step [OF 1(2) wf _ r(3) hr(1) c2] sp x r(2) by simp
  qed
qed

end
