(* ===== verification/Orchestrator_Invariant.thy ===== *)
theory Orchestrator_Invariant
  imports Orchestrator_Correct
begin

text \<open>
  The invariant of the orchestrator over every sequence of frames, and the properties of \<open>process_frame\<close> that rest
  on it.
\<close>

subsection \<open>The invariant\<close>

definition stream_ok :: "pending_limits \<Rightarrow> bool \<Rightarrow> stream_reassembler \<Rightarrow> bool" where
  "stream_ok l desynced r \<longleftrightarrow>
     wf_reassembler r \<and> within_limits r \<and> limits r = l
     \<and> (desynced \<longrightarrow> contig_bytes r = [] \<and> pending r = [])"

definition conn_ok :: "pending_limits \<Rightarrow> nat \<Rightarrow> conn_key \<Rightarrow> connection \<Rightarrow> bool" where
  "conn_ok l cap k c \<longleftrightarrow>
     k = conn_key (client_endpoint c) (server_endpoint c)
     \<and> (\<forall>d. stream_ok l (is_desynced d c) (reassembler_for d c))
     \<and> (\<forall>d. length (tail_for d c) \<le> cap)"

text \<open>Between frames no complete record is left in a stream.\<close>

definition conn_at_rest :: "connection \<Rightarrow> bool" where
  "conn_at_rest c \<longleftrightarrow> (\<forall>d. split_record (contig_bytes (reassembler_for d c)) = None)"

text \<open>
  The key of a connection is that of its endpoints; both streams are well formed and within the configured limits, and
  a desynchronised one is empty; tails are within the cap; no complete record waits; no finished connection is
  kept; the records seen are those accounted for.
\<close>

definition orch_inv :: "'vm orchestrator \<Rightarrow> bool" where
  "orch_inv orc \<longleftrightarrow>
     distinct (map fst (connections orc))
     \<and> (\<forall>k c. get_conn k orc = Some c \<longrightarrow>
          conn_ok (orch_limits orc) (max_tail_bytes (oc_config orc)) k c \<and> conn_at_rest c \<and> \<not> is_closed (conn_meta c))
     \<and> fst (counters orc) = snd (counters orc)"

lemma orch_inv_conn:
  "orch_inv orc \<Longrightarrow> get_conn k orc = Some c \<Longrightarrow>
     conn_ok (orch_limits orc) (max_tail_bytes (oc_config orc)) k c \<and> conn_at_rest c \<and> \<not> is_closed (conn_meta c)"
  by (simp only: orch_inv_def) blast

inductive orch_reach :: "'vm world \<Rightarrow> 'vm orchestrator \<Rightarrow> bool" for w :: "'vm world" where
  orch_start: "orch_reach w (orchestrator_new kl lua cfg t1 t2)"
| orch_frame: "orch_reach w orc \<Longrightarrow> process_frame w frame i data ts env orc = Inr (evt, out, orc') \<Longrightarrow>
     orch_reach w orc'"

subsection \<open>Tracking\<close>

lemma conn_key_commute: "conn_key a b = conn_key b a"
  by (auto simp: conn_key_def)

lemma contig_set_isn [simp]: "contig_bytes (set_isn q r) = contig_bytes r"
  by (simp add: set_isn_def)

lemma stream_ok_set_isn [simp]: "stream_ok l d (set_isn q r) = stream_ok l d r"
  by (simp add: stream_ok_def)

lemma stream_ok_new [simp]: "stream_ok l d (with_pending_limits l)"
  by (simp add: stream_ok_def with_pending_limits_def [of l] contig_bytes_def
      wf_new [of l, unfolded with_pending_limits_def])

lemma conn_ok_new:
  "conn_ok l cap (conn_key a b) (connection_new a b l)"
  by (simp add: conn_ok_def connection_new_def reassembler_for_def is_desynced_def tail_for_def)

lemma conn_at_rest_new: "conn_at_rest (connection_new a b l)"
  by (simp add: conn_at_rest_def connection_new_def reassembler_for_def with_pending_limits_def contig_bytes_def
      split_record_def)

lemma conn_ok_set_reassembler:
  assumes "conn_ok l cap k c" and "stream_ok l (is_desynced d c) r"
  shows "conn_ok l cap k (set_reassembler d r c)"
proof -
  have "stream_ok l (is_desynced e c) (reassembler_for e (set_reassembler d r c))" for e
    using assms by (cases "e = d") (auto simp: conn_ok_def)
  then show ?thesis using assms(1) by (simp add: conn_ok_def)
qed

lemma conn_ok_meta [simp]: "conn_ok l cap k (c\<lparr>conn_meta := m\<rparr>) = conn_ok l cap k c"
  by (simp add: conn_ok_def is_desynced_def reassembler_for_def tail_for_def)

text \<open>The close flags a frame leaves, given the connection it found.\<close>

definition frame_closes :: "tcp_frame \<Rightarrow> connection option \<Rightarrow> bool" where
  "frame_closes frame prior \<longleftrightarrow>
     fl_rst (tf_flags frame) \<or>
     (case prior of
        None \<Rightarrow> False
      | Some c \<Rightarrow> fl_fin (tf_flags frame) \<and>
          (if (src_ip frame, src_port frame) = client_endpoint c
           then fin_seen_s2c (conn_meta c) else fin_seen_c2s (conn_meta c)))"

definition frame_key :: "tcp_frame \<Rightarrow> conn_key" where
  "frame_key frame = conn_key (src_ip frame, src_port frame) (dst_ip frame, dst_port frame)"

text \<open>The close flags a frame sets.\<close>

definition close_meta :: "tcp_frame \<Rightarrow> bool \<Rightarrow> connection_meta \<Rightarrow> connection_meta" where
  "close_meta frame c2s m =
     m\<lparr>fin_seen_c2s := fin_seen_c2s m \<or> fl_fin (tf_flags frame) \<and> c2s,
       fin_seen_s2c := fin_seen_s2c m \<or> fl_fin (tf_flags frame) \<and> \<not> c2s,
       rst_seen := rst_seen m \<or> fl_rst (tf_flags frame)\<rparr>"

lemma meta_same [simp]: "m\<lparr>rst_seen := rst_seen m\<rparr> = m" "m\<lparr>fin_seen_c2s := fin_seen_c2s m\<rparr> = m"
  "m\<lparr>fin_seen_s2c := fin_seen_s2c m\<rparr> = m" for m :: connection_meta
  by simp_all

text \<open>What tracking a frame amounts to, without the intermediate states.\<close>

lemma track_frame_eq:
  fixes frame orc
  defines "prior \<equiv> case get_conn (frame_key frame) orc of
      Some c \<Rightarrow> c
    | None \<Rightarrow> connection_new (src_ip frame, src_port frame) (dst_ip frame, dst_port frame) (orch_limits orc)"
    and "src \<equiv> (src_ip frame, src_port frame)"
  shows "track_frame frame env orc =
    (frame_key frame, src = client_endpoint prior,
     (if fl_syn (tf_flags frame)
      then set_reassembler (src = client_endpoint prior)
             (set_isn (tf_seq frame + 1) (reassembler_for (src = client_endpoint prior) prior)) prior
      else prior)
       \<lparr>conn_meta := (close_meta frame (src = client_endpoint prior) (conn_meta prior))
          \<lparr>last_activity := Some (fe_activity env)\<rparr>\<rparr>)"
proof -
  have same: "prior\<lparr>client_endpoint := src, server_endpoint := (dst_ip frame, dst_port frame)\<rparr> = prior"
    if "get_conn (frame_key frame) orc = None"
    using that by (simp add: prior_def src_def connection_new_def)
  have same': "(if get_conn (frame_key frame) orc = None \<and> s \<and> a
      then prior\<lparr>client_endpoint := src, server_endpoint := (dst_ip frame, dst_port frame)\<rparr> else prior) = prior" for s a
    using same by simp
  have meta: "(if fl_rst (tf_flags frame)
       then (if fl_fin (tf_flags frame) then if c2s then m\<lparr>fin_seen_c2s := True\<rparr> else m\<lparr>fin_seen_s2c := True\<rparr> else m)
              \<lparr>rst_seen := True\<rparr>
       else (if fl_fin (tf_flags frame) then if c2s then m\<lparr>fin_seen_c2s := True\<rparr> else m\<lparr>fin_seen_s2c := True\<rparr> else m))
     = close_meta frame c2s m" for c2s m
    by (cases "fl_rst (tf_flags frame)"; cases "fl_fin (tf_flags frame)"; cases c2s) (simp_all add: close_meta_def)
  have m: "conn_meta (if b then set_reassembler d r prior else prior) = conn_meta prior" for b d r by simp
  show ?thesis
    unfolding track_frame_def Let_def
    unfolding frame_key_def [symmetric]
    unfolding prior_def [symmetric]
    unfolding src_def [symmetric]
    unfolding same' m meta by (rule refl)
qed

lemma track_frame_ok:
  assumes inv: "orch_inv orc" and t: "track_frame frame env orc = (key, c2s, conn)"
  shows "key = frame_key frame \<and> conn_ok (orch_limits orc) (max_tail_bytes (oc_config orc)) key conn
    \<and> (is_closed (conn_meta conn) \<longleftrightarrow> frame_closes frame (get_conn key orc))
    \<and> c2s = ((src_ip frame, src_port frame) = client_endpoint conn) \<and> conn_at_rest conn
    \<and> (\<forall>c. get_conn key orc = Some c \<longrightarrow> client_endpoint conn = client_endpoint c
          \<and> (\<forall>d. is_desynced d conn = is_desynced d c) \<and> contig_bytes (reassembler_for c2s conn) = contig_bytes (reassembler_for c2s c))"
proof -
  let ?src = "(src_ip frame, src_port frame)"
  define prior where "prior = (case get_conn (frame_key frame) orc of
      Some c \<Rightarrow> c
    | None \<Rightarrow> connection_new ?src (dst_ip frame, dst_port frame) (orch_limits orc))"
  define d where "d = (?src = client_endpoint prior)"
  define q where "q = (if fl_syn (tf_flags frame)
      then set_reassembler d (set_isn (tf_seq frame + 1) (reassembler_for d prior)) prior else prior)"
  have eqs: "key = frame_key frame" "c2s = d"
      "conn = q\<lparr>conn_meta := (close_meta frame d (conn_meta prior))\<lparr>last_activity := Some (fe_activity env)\<rparr>\<rparr>"
    using t track_frame_eq [of frame env orc, folded prior_def, folded d_def, folded q_def] by auto
  have ok: "conn_ok (orch_limits orc) (max_tail_bytes (oc_config orc)) (frame_key frame) prior"
    using orch_inv_conn [OF inv, of "frame_key frame"] conn_ok_new
    by (cases "get_conn (frame_key frame) orc") (simp_all add: prior_def frame_key_def)
  then have "stream_ok (orch_limits orc) (is_desynced d prior) (reassembler_for d prior)"
    by (simp add: conn_ok_def)
  with ok have okq: "conn_ok (orch_limits orc) (max_tail_bytes (oc_config orc)) (frame_key frame) q"
    by (simp add: q_def conn_ok_set_reassembler)
  have q: "client_endpoint q = client_endpoint prior" "is_desynced e q = is_desynced e prior"
      "contig_bytes (reassembler_for d q) = contig_bytes (reassembler_for d prior)" for e
    by (simp_all add: q_def)
  have rest: "conn_at_rest prior"
    using orch_inv_conn [OF inv, of "frame_key frame"]
    by (cases "get_conn (frame_key frame) orc") (simp_all add: prior_def conn_at_rest_new)
  have "contig_bytes (reassembler_for e q) = contig_bytes (reassembler_for e prior)" for e
    by (cases "e = d") (simp_all add: q_def)
  with rest have rest': "conn_at_rest q" by (simp add: conn_at_rest_def)
  have open': "\<not> is_closed (conn_meta prior)"
    using orch_inv_conn [OF inv, of "frame_key frame"]
    by (cases "get_conn (frame_key frame) orc")
      (simp_all add: prior_def connection_new_def default_meta_def is_closed_def)
  have closes: "is_closed (close_meta frame d (conn_meta prior)) \<longleftrightarrow> frame_closes frame (get_conn (frame_key frame) orc)"
    using open' d_def
    by (cases "get_conn (frame_key frame) orc")
      (auto simp: prior_def frame_closes_def close_meta_def is_closed_def connection_new_def default_meta_def)
  have m: "is_desynced e (q\<lparr>conn_meta := mm\<rparr>) = is_desynced e q" "reassembler_for e (q\<lparr>conn_meta := mm\<rparr>) = reassembler_for e q"
      "is_closed (mm\<lparr>last_activity := la\<rparr>) = is_closed mm" for e mm la
    by (simp_all add: is_desynced_def reassembler_for_def is_closed_def)
  show ?thesis
    unfolding eqs using okq q closes rest' by (auto simp: m d_def prior_def conn_at_rest_def)
qed

subsection \<open>Feeding\<close>

lemma feed_payload_frame:
  "oc_config (feed_payload frame i p env key d conn orc) = oc_config orc"
  "last_sweep (feed_payload frame i p env key d conn orc) = last_sweep orc"
  "counters (feed_payload frame i p env key d conn orc) = counters orc"
  "evicted_connections (feed_payload frame i p env key d conn orc) = evicted_connections orc"
  "k \<noteq> key \<Longrightarrow> get_conn k (feed_payload frame i p env key d conn orc) = get_conn k orc"
  "distinct (map fst (connections orc)) \<Longrightarrow>
     distinct (map fst (connections (feed_payload frame i p env key d conn orc)))"
proof -
  have c: "counters (orc\<lparr>gap_abandoned_bytes := a, connections_desynced := b\<rparr>) = counters orc"
    "get_conn k (orc\<lparr>gap_abandoned_bytes := a, connections_desynced := b\<rparr>) = get_conn k orc" for a b k
    by (simp_all add: counters_def get_conn_def)
  obtain res r where p: "push (fe_push_t0 env) (fe_push_t1 env) i (tf_seq frame) (payload_range frame) p
      (reassembler_for d conn) = (res, r)" by (rule prod.exhaust)
  show "oc_config (feed_payload frame i p env key d conn orc) = oc_config orc"
    "last_sweep (feed_payload frame i p env key d conn orc) = last_sweep orc"
    "counters (feed_payload frame i p env key d conn orc) = counters orc"
    "evicted_connections (feed_payload frame i p env key d conn orc) = evicted_connections orc"
    "k \<noteq> key \<Longrightarrow> get_conn k (feed_payload frame i p env key d conn orc) = get_conn k orc"
    "distinct (map fst (connections orc)) \<Longrightarrow>
       distinct (map fst (connections (feed_payload frame i p env key d conn orc)))"
    by (cases res; simp add: feed_payload_def p Let_def c)+
qed

lemma mark_desynced_simps [simp]:
  "client_endpoint (mark_desynced d l c) = client_endpoint c"
  "server_endpoint (mark_desynced d l c) = server_endpoint c"
  "conn_meta (mark_desynced d l c) = conn_meta c" "tail_for e (mark_desynced d l c) = tail_for e c"
  "is_desynced e (mark_desynced d l c) = (e = d \<or> is_desynced e c)"
  "reassembler_for e (mark_desynced d l c) = (if e = d then with_pending_limits l else reassembler_for e c)"
  by (auto simp: mark_desynced_def is_desynced_def tail_for_def reassembler_for_def)

lemma conn_ok_mark_desynced: "conn_ok l cap k c \<Longrightarrow> conn_ok l cap k (mark_desynced d l c)"
  by (simp add: conn_ok_def)

lemma feed_payload_ok:
  assumes "conn_ok (orch_limits orc) cap key conn"
  shows "\<exists>c'. get_conn key (feed_payload frame i p env key d conn orc) = Some c'
    \<and> conn_ok (orch_limits orc) cap key c' \<and> conn_meta c' = conn_meta conn
    \<and> client_endpoint c' = client_endpoint conn
    \<and> (is_desynced d conn \<longrightarrow> c' = conn) \<and> (\<forall>e. e \<noteq> d \<longrightarrow> reassembler_for e c' = reassembler_for e conn)"
proof (cases "p \<noteq> [] \<and> \<not> is_desynced d conn")
  case False
  then show ?thesis using assms by (auto simp: feed_payload_def)
next
  case True
  obtain res r where p: "push (fe_push_t0 env) (fe_push_t1 env) i (tf_seq frame) (payload_range frame) p
      (reassembler_for d conn) = (res, r)" by (rule prod.exhaust)
  have s: "wf_reassembler (reassembler_for d conn)" "within_limits (reassembler_for d conn)"
      "limits (reassembler_for d conn) = orch_limits orc"
    using assms by (auto simp: conn_ok_def stream_ok_def)
  have "stream_ok (orch_limits orc) (is_desynced d conn) r"
    using push_wf [OF s(1) p] push_within_limits [OF s(1,2) p] s(3) True by (simp add: stream_ok_def)
  with assms have ok: "conn_ok (orch_limits orc) cap key (set_reassembler d r conn)"
    by (rule conn_ok_set_reassembler)
  show ?thesis
    using True ok conn_ok_mark_desynced [OF ok, of d]
    by (cases res) (auto simp: feed_payload_def p Let_def)
qed

lemma split_records_rest: "split_record (snd (split_records bs)) = None"
proof (induction bs rule: split_records.induct)
  case (1 bs)
  show ?case
  proof (cases "split_record bs")
    case None
    then show ?thesis by (subst split_records.simps) simp
  next
    case (Some x)
    obtain ct body rest where x: "x = (ct, body, rest)" by (rule prod_cases3)
    show ?thesis
      using 1 [OF Some, of ct "(body, rest)" body rest] Some x
      by (subst split_records.simps) (auto split: prod.splits)
  qed
qed

lemma drain_step_at_rest:
  assumes "drain_step cfg d c c'" and "\<forall>e. e \<noteq> d \<longrightarrow> split_record (contig_bytes (reassembler_for e c)) = None"
  shows "conn_at_rest c'"
proof -
  have "split_record (contig_bytes (reassembler_for e c')) = None" for e
    using assms split_records_rest by (cases "e = d") (auto simp: drain_step_def)
  then show ?thesis by (simp add: conn_at_rest_def)
qed

lemma drain_step_conn_ok:
  assumes "conn_ok l cap k c" and "drain_step cfg d c c'" and "max_tail_bytes cfg = cap"
  shows "conn_ok l cap k c'"
proof -
  have "stream_ok l (is_desynced e c') (reassembler_for e c')" for e
  proof (cases "e = d")
    case True
    have "split_records [] = ([], [])" by (simp add: split_records.simps split_record_def)
    then show ?thesis using True assms(1,2) by (auto simp: conn_ok_def drain_step_def stream_ok_def)
  next
    case False
    then show ?thesis using assms(1,2) by (auto simp: conn_ok_def drain_step_def)
  qed
  moreover have "length (tail_for e c') \<le> cap" for e
  proof -
    have "length (tail_for e c') \<le> max (length (tail_for e c)) (max_tail_bytes cfg)"
      and "length (tail_for e c) \<le> cap"
      using assms by (auto simp: conn_ok_def drain_step_def)
    then show ?thesis using assms(3) by simp
  qed
  ultimately show ?thesis using assms(1,2) by (simp add: conn_ok_def drain_step_def)
qed

subsection \<open>Eviction, sweeping, collecting\<close>

lemma map_of_filter_distinct:
  "distinct (map fst xs) \<Longrightarrow>
     map_of (filter P xs) k = (case map_of xs k of Some c \<Rightarrow> if P (k, c) then Some c else None | None \<Rightarrow> None)"
proof (induction xs)
  case (Cons x xs)
  have "map_of (filter P xs) (fst x) = None"
    using Cons.prems by (auto simp: map_of_eq_None_iff)
  then show ?case using Cons by (cases x) (auto split: option.splits)
qed simp

lemma evict_closed_fields [simp]:
  "oc_config (evict_closed key orc) = oc_config orc" "last_sweep (evict_closed key orc) = last_sweep orc" "counters (evict_closed key orc) = counters orc"
  "evicted_connections (evict_closed key orc) = evicted_connections orc
     + (case get_conn key orc of None \<Rightarrow> 0 | Some c \<Rightarrow> if is_closed (conn_meta c) then 1 else 0)"
  "get_conn k (evict_closed key orc)
     = (case get_conn k orc of None \<Rightarrow> None
        | Some c \<Rightarrow> if k = key \<and> is_closed (conn_meta c) then None else Some c)"
  "distinct (map fst (connections orc)) \<Longrightarrow> distinct (map fst (connections (evict_closed key orc)))"
  by (auto simp: evict_closed_def Let_def remove_conn_def counters_def get_conn_def delete_conv'
      distinct_delete split: option.splits)

lemma maybe_sweep_idle_fields [simp]:
  "oc_config (maybe_sweep_idle env orc) = oc_config orc" "counters (maybe_sweep_idle env orc) = counters orc"
  "distinct (map fst (connections orc)) \<Longrightarrow> distinct (map fst (connections (maybe_sweep_idle env orc)))"
  by (auto simp: maybe_sweep_idle_def Let_def counters_def distinct_map_filter split: option.splits)

lemma maybe_sweep_idle_get:
  assumes "distinct (map fst (connections orc))" and "get_conn k (maybe_sweep_idle env orc) = Some c"
  shows "get_conn k orc = Some c"
  using assms
  by (auto simp: maybe_sweep_idle_def Let_def get_conn_def map_of_filter_distinct split: option.splits if_splits)

lemma maybe_sweep_idle_off [simp]: "idle_timeout (oc_config orc) = None \<Longrightarrow> maybe_sweep_idle env orc = orc"
  by (simp add: maybe_sweep_idle_def)

lemma maybe_gc_lua_fields [simp]:
  "oc_config (maybe_gc_lua w env orc) = oc_config orc" "counters (maybe_gc_lua w env orc) = counters orc"
  "connections (maybe_gc_lua w env orc) = connections orc" "get_conn k (maybe_gc_lua w env orc) = get_conn k orc"
  "evicted_connections (maybe_gc_lua w env orc) = evicted_connections orc"
  by (simp_all add: maybe_gc_lua_def counters_def get_conn_def)

subsection \<open>One frame\<close>

text \<open>A call that returned, taken apart, and one that panicked.\<close>

lemma process_frame_feeds:
  assumes inv: "orch_inv orc" and t: "track_frame frame env orc = (key, d, conn)"
  obtains c0 where "get_conn key (feed_payload frame i p env key d conn orc) = Some c0"
    "conn_ok (orch_limits orc) (max_tail_bytes (oc_config orc)) key c0" "conn_meta c0 = conn_meta conn"
    "client_endpoint c0 = client_endpoint conn" "is_desynced d conn \<longrightarrow> c0 = conn"
    "\<forall>e. e \<noteq> d \<longrightarrow> reassembler_for e c0 = reassembler_for e conn"
    "\<forall>c. get_conn key (feed_payload frame i p env key d conn orc) = Some c \<longrightarrow> wf_reassembler (reassembler_for d c)"
proof -
  have ok: "conn_ok (orch_limits orc) (max_tail_bytes (oc_config orc)) key conn"
    using track_frame_ok [OF inv t] by blast
  then obtain c0 where c0: "get_conn key (feed_payload frame i p env key d conn orc) = Some c0"
      "conn_ok (orch_limits orc) (max_tail_bytes (oc_config orc)) key c0"
      "conn_meta c0 = conn_meta conn" "client_endpoint c0 = client_endpoint conn" "is_desynced d conn \<longrightarrow> c0 = conn"
      "\<forall>e. e \<noteq> d \<longrightarrow> reassembler_for e c0 = reassembler_for e conn"
    using feed_payload_ok [OF ok] by blast
  then show thesis using that by (simp add: conn_ok_def stream_ok_def)
qed

lemma process_frame_panic:
  assumes inv: "orch_inv orc" and p: "index_range (payload_range frame) data = Inr p"
    and pf: "process_frame w frame i data ts env orc = Inl e"
  shows "script_panics (w_host w) e"
proof -
  obtain key d conn where t: "track_frame frame env orc = (key, d, conn)" by (rule prod_cases3)
  obtain c0 where "\<forall>c. get_conn key (feed_payload frame i p env key d conn orc) = Some c \<longrightarrow> wf_reassembler (reassembler_for d c)"
    by (rule process_frame_feeds [OF inv t, of i p])
  from drain_records_ok [OF this, of w ts "fe_records env" 0 "[]"] show ?thesis
    using t p pf by (auto simp: process_frame_def split: sum.splits prod.splits)
qed

lemma process_frame_drained:
  assumes inv: "orch_inv orc" and p: "index_range (payload_range frame) data = Inr p"
    and t: "track_frame frame env orc = (key, d, conn)"
    and pf: "process_frame w frame i data ts env orc = Inr (evt, out, orc')"
  obtains orc1 n c0 c1 where
    "evt = packet_event_of frame ts"
    "orc' = maybe_gc_lua w env (maybe_sweep_idle env (evict_closed key orc1))"
    "drain_records w key d ts (fe_records env) 0 (feed_payload frame i p env key d conn orc) [] = Inr (orc1, out)"
    "oc_config orc1 = oc_config orc" "last_sweep orc1 = last_sweep orc" "evicted_connections orc1 = evicted_connections orc"
    "counters orc1 = (fst (counters orc) + of_nat n, snd (counters orc) + of_nat n)"
    "\<And>k. k \<noteq> key \<Longrightarrow> get_conn k orc1 = get_conn k orc" "distinct (map fst (connections orc1))"
    "get_conn key (feed_payload frame i p env key d conn orc) = Some c0"
    "n = length (fst (split_records (contig_bytes (reassembler_for d c0))))" "length out \<le> n"
    "get_conn key orc1 = Some c1" "drain_step (oc_config orc) d c0 c1"
    "conn_ok (orch_limits orc) (max_tail_bytes (oc_config orc)) key c1" "conn_meta c1 = conn_meta conn"
    "client_endpoint c0 = client_endpoint conn" "is_desynced d conn \<Longrightarrow> c0 = conn" "conn_at_rest c1"
    "conn_ok (orch_limits orc) (max_tail_bytes (oc_config orc)) key c0"
proof -
  let ?f = "feed_payload frame i p env key d conn orc"
  have rest: "conn_at_rest conn" using track_frame_ok [OF inv t] by blast
  obtain c0 where c0: "get_conn key ?f = Some c0" "conn_ok (orch_limits orc) (max_tail_bytes (oc_config orc)) key c0"
      "conn_meta c0 = conn_meta conn" "client_endpoint c0 = client_endpoint conn" "is_desynced d conn \<longrightarrow> c0 = conn"
      "\<forall>e. e \<noteq> d \<longrightarrow> reassembler_for e c0 = reassembler_for e conn"
    and wf: "\<forall>c. get_conn key ?f = Some c \<longrightarrow> wf_reassembler (reassembler_for d c)"
    by (rule process_frame_feeds [OF inv t, of i p])
  obtain orc1 where dr: "drain_records w key d ts (fe_records env) 0 ?f [] = Inr (orc1, out)"
      "evt = packet_event_of frame ts" "orc' = maybe_gc_lua w env (maybe_sweep_idle env (evict_closed key orc1))"
    using pf t p by (auto simp: process_frame_def split: sum.splits prod.splits)
  from drain_records_ok [OF wf, of w ts "fe_records env" 0 "[]"] c0(1) dr(1)
  obtain n c1 where d: "oc_config orc1 = oc_config ?f" "last_sweep orc1 = last_sweep ?f" "evicted_connections orc1 = evicted_connections ?f"
      "counters orc1 = (fst (counters ?f) + of_nat n, snd (counters ?f) + of_nat n)"
      "\<forall>k. k \<noteq> key \<longrightarrow> get_conn k orc1 = get_conn k ?f"
      "distinct (map fst (connections ?f)) \<longrightarrow> distinct (map fst (connections orc1))"
      "n = length (fst (split_records (contig_bytes (reassembler_for d c0))))" "length out \<le> n"
      "get_conn key orc1 = Some c1" "drain_step (oc_config ?f) d c0 c1"
    by auto
  have c1: "conn_ok (orch_limits orc) (max_tail_bytes (oc_config orc)) key c1"
    using drain_step_conn_ok [OF c0(2) d(10)] by (simp add: feed_payload_frame)
  show thesis
  proof (rule that [OF dr(2,3,1), of n c0 c1])
    show "get_conn k orc1 = get_conn k orc" if "k \<noteq> key" for k
      using d(5) [rule_format, OF that] feed_payload_frame(5) [OF that] by simp
    show "conn_at_rest c1"
      using drain_step_at_rest [OF d(10)] c0(6) rest by (simp add: conn_at_rest_def)
    show "distinct (map fst (connections orc1))"
      using d(6) inv by (simp add: feed_payload_frame orch_inv_def)
    show "conn_meta c1 = conn_meta conn" using d(10) c0(3) by (simp add: drain_step_def)
  qed (use d c0 c1 in \<open>simp_all add: feed_payload_frame\<close>)
qed

lemma orch_limits_cong: "oc_config a = oc_config b \<Longrightarrow> orch_limits a = orch_limits b"
  by (simp add: orch_limits_def)

lemma process_frame_ok_range:
  assumes "process_frame w frame i data ts env orc = Inr r"
  shows "\<exists>p. index_range (payload_range frame) data = Inr p"
proof (cases "index_range (payload_range frame) data")
  case (Inl e)
  obtain key d conn where "track_frame frame env orc = (key, d, conn)" by (rule prod_cases3)
  then show ?thesis using assms Inl by (simp add: process_frame_def)
qed simp

lemma process_frame_inv:
  assumes inv: "orch_inv orc" and pf: "process_frame w frame i data ts env orc = Inr (evt, out, orc')"
  shows "evt = packet_event_of frame ts \<and> orch_inv orc' \<and> oc_config orc' = oc_config orc"
proof -
  obtain p where p: "index_range (payload_range frame) data = Inr p" using process_frame_ok_range [OF pf] by blast
  obtain key d conn where t: "track_frame frame env orc = (key, d, conn)" by (rule prod_cases3)
  obtain orc1 n c1 where f:
    "evt = packet_event_of frame ts"
    "orc' = maybe_gc_lua w env (maybe_sweep_idle env (evict_closed key orc1))"
    "oc_config orc1 = oc_config orc"
    "counters orc1 = (fst (counters orc) + of_nat n, snd (counters orc) + of_nat n)"
    "\<And>k. k \<noteq> key \<Longrightarrow> get_conn k orc1 = get_conn k orc" "distinct (map fst (connections orc1))"
    "get_conn key orc1 = Some c1" "conn_ok (orch_limits orc) (max_tail_bytes (oc_config orc)) key c1"
    "conn_at_rest c1"
    by (rule process_frame_drained [OF inv p t pf]) (rule that, assumption+)
  let ?e = "evict_closed key orc1"
  let ?r = "maybe_gc_lua w env (maybe_sweep_idle env ?e)"
  have lim: "orch_limits ?r = orch_limits orc" by (rule orch_limits_cong) (simp add: f(3))
  have "conn_ok (orch_limits orc) (max_tail_bytes (oc_config orc)) k c \<and> conn_at_rest c \<and> \<not> is_closed (conn_meta c)"
    if "get_conn k ?r = Some c" for k c
  proof -
    from that have "get_conn k ?e = Some c" using maybe_sweep_idle_get [of ?e] f(6) by simp
    then show ?thesis
      using f(5) [of k] f(7-9) orch_inv_conn [OF inv, of k c]
      by (cases "k = key") (auto split: option.splits if_splits)
  qed
  moreover have "distinct (map fst (connections ?r))" using f(6) by simp
  moreover have "fst (counters ?r) = snd (counters ?r)" using f(4) inv by (simp add: orch_inv_def)
  ultimately have "orch_inv ?r" using lim f(3) by (simp add: orch_inv_def)
  then show ?thesis using f(1-3) by simp
qed

text \<open>Scripts that do not panic leave no other panic.\<close>

lemma process_frame_calm:
  assumes "orch_inv orc" and "index_range (payload_range frame) data = Inr p" and "calm (w_host w)"
  obtains out orc' where "process_frame w frame i data ts env orc = Inr (packet_event_of frame ts, out, orc')"
    "orch_inv orc'" "oc_config orc' = oc_config orc"
proof (cases "process_frame w frame i data ts env orc")
  case (Inl e)
  then show ?thesis using process_frame_panic [OF assms(1,2) Inl] assms(3) by (simp add: calm_def)
next
  case (Inr r)
  obtain evt out orc' where r: "r = (evt, out, orc')" by (rule prod_cases3)
  from process_frame_inv [OF assms(1) Inr [unfolded r]] show ?thesis using that Inr r by simp
qed

lemma orch_inv_new: "orch_inv (orchestrator_new kl lua cfg t1 t2)"
  by (simp add: orch_inv_def orchestrator_new_def get_conn_def counters_def)

lemma orch_reach_inv: "orch_reach w orc \<Longrightarrow> orch_inv orc"
proof (induction rule: orch_reach.induct)
  case (orch_start kl lua cfg t1 t2)
  show ?case by (rule orch_inv_new)
next
  case (orch_frame orc frame i data ts env evt out orc')
  show ?case using process_frame_inv [OF orch_frame.IH orch_frame.hyps(2)] by blast
qed

end
