(* ===== verification/Orchestrator_Props.thy ===== *)
theory Orchestrator_Props
  imports Orchestrator_Invariant
begin

text \<open>
  What \<open>process_frame\<close> guarantees in every state reachable from \<open>Orchestrator::new\<close>: only a plugin can make it panic, it accounts
  for every record, it touches one connection only, it evicts exactly the finished and the idle ones, it buffers a bounded
  amount, and each message it emits carries the plaintext of one record and the endpoints of the frame.
\<close>

subsection \<open>Messages and their endpoints\<close>

lemma message_of_cong:
  "endpoints d c = endpoints d c' \<Longrightarrow> message_of d c pt ff ts = message_of d c' pt ff ts"
  by (simp add: message_of_def)

lemma message_of_state [simp]: "message_of d (c\<lparr>conn_state := x\<rparr>) pt ff ts = message_of d c pt ff ts"
  by (rule message_of_cong) (simp add: endpoints_def)

lemma endpoints_of_step:
  "record_step cfg c c' \<Longrightarrow> endpoints d c' = endpoints d c" "drain_step cfg d c c' \<Longrightarrow> endpoints e c' = endpoints e c"
  by (simp_all add: record_step_def drain_step_def endpoints_def)

lemma dissect_and_emit_message:
  assumes "get_conn key orc = Some c" and "dissect_and_emit w key d pt ts orc = Inr (orc', out)"
  shows "\<exists>ff. out = [message_of d c pt ff ts]"
  using assms by (cases rule: dissect_and_emit_cases [of key orc c w d pt ts]) auto

lemma handle_record_message:
  assumes "handle_record w key d ts envs ct body conn orc = Inr (orc', out)" and "m \<in> set out"
  shows "\<exists>pt ff. m = message_of d conn pt ff ts"
proof (cases rule: handle_record_cases [of ct w key d ts envs body conn orc])
  case (decrypted st st' kl rc orc1)
  let ?o = "orc1\<lparr>tls_records_decrypted := tls_records_decrypted orc1 + 1\<rparr>"
  have "get_conn key ?o = Some (conn\<lparr>conn_state := Some st'\<rparr>)" using decrypted(5) by simp
  note e = dissect_and_emit_message [OF this, of w d "dr_plaintext rc" ts orc' out]
  show ?thesis
  proof (cases "dr_content_type rc = 0x17")
    case True
    then obtain ff where "out = [message_of d conn (dr_plaintext rc) ff ts]" using e assms(1) decrypted(6) by auto
    then show ?thesis using assms(2) by auto
  qed (use assms decrypted(6) in simp)
qed (use assms in simp_all)

lemma drain_records_messages:
  assumes "get_conn key orc = Some c" and "wf_reassembler (reassembler_for d c)"
    and "drain_records w key d ts envs i orc out = Inr (orc', out')"
  shows "m \<in> set out' \<Longrightarrow> m \<in> set out \<or> (\<exists>pt ff. m = message_of d c pt ff ts)"
  using assms
proof (induction rule: drain_records_rule)
  case (step i orc out c ct body r orc1 msgs c2 orc' out')
  have e: "endpoints d c2 = endpoints d c" "endpoints d (set_reassembler d r c) = endpoints d c"
    using endpoints_of_step(1) [OF step(7)] by (simp_all add: endpoints_def)
  from step(8) [OF step(9)] show ?case
    using handle_record_message [OF step(5), of m] message_of_cong [OF e(1)] message_of_cong [OF e(2)]
    by auto
qed simp

lemma conn_key_eq_iff: "conn_key a b = conn_key c d \<longleftrightarrow> (a = c \<and> b = d) \<or> (a = d \<and> b = c)"
  by (auto simp: conn_key_def)

text \<open>A call that returned, taken apart.\<close>

lemma process_frame_parts:
  assumes inv: "orch_inv orc" and pf: "process_frame w frame i data ts env orc = Inr (evt, out, orc')"
  obtains p d conn orc1 n c0 c1 where
    "index_range (payload_range frame) data = Inr p"
    "track_frame frame env orc = (frame_key frame, d, conn)" "evt = packet_event_of frame ts"
    "orc' = maybe_gc_lua w env (maybe_sweep_idle env (evict_closed (frame_key frame) orc1))"
    "drain_records w (frame_key frame) d ts (fe_records env) 0
       (feed_payload frame i p env (frame_key frame) d conn orc) [] = Inr (orc1, out)"
    "oc_config orc1 = oc_config orc" "evicted_connections orc1 = evicted_connections orc"
    "counters orc1 = (fst (counters orc) + of_nat n, snd (counters orc) + of_nat n)"
    "\<And>k. k \<noteq> frame_key frame \<Longrightarrow> get_conn k orc1 = get_conn k orc" "distinct (map fst (connections orc1))"
    "get_conn (frame_key frame) (feed_payload frame i p env (frame_key frame) d conn orc) = Some c0"
    "n = length (fst (split_records (contig_bytes (reassembler_for d c0))))" "length out \<le> n"
    "get_conn (frame_key frame) orc1 = Some c1" "drain_step (oc_config orc) d c0 c1"
    "conn_ok (orch_limits orc) (max_tail_bytes (oc_config orc)) (frame_key frame) c1"
    "conn_meta c1 = conn_meta conn" "client_endpoint c0 = client_endpoint conn"
    "is_desynced d conn \<Longrightarrow> c0 = conn" "conn_at_rest c1"
    "conn_ok (orch_limits orc) (max_tail_bytes (oc_config orc)) (frame_key frame) c0"
    "last_sweep orc1 = last_sweep orc"
proof -
  obtain p where p: "index_range (payload_range frame) data = Inr p"
    using process_frame_ok_range [OF pf] by blast
  obtain key d conn where t0: "track_frame frame env orc = (key, d, conn)" by (rule prod_cases3)
  have key: "key = frame_key frame" using track_frame_ok [OF inv t0] by blast
  note t = t0 [unfolded key]
  show thesis
    by (rule process_frame_drained [OF inv p t pf]) (rule that [OF p t], assumption+)
qed

subsection \<open>Properties\<close>

text \<open>
  C36 (panics and the invariant). In every reachable state, a frame whose payload range lies in the packet data
  either is processed, with its packet event emitted and a next state that satisfies the invariant again:
  well-formed streams within their limits under the right key, no complete record left waiting, no finished
  connection kept, every record accounted for. Or a plugin panicked, by reading a byte range outside its buffer where nothing
  catches the panic, and that cannot be a plugin that only cuts ranges with offsets and lengths that are not negative.
\<close>

theorem process_frame_panics_by_script_only:
  assumes "orch_reach w orc" and "index_range (payload_range frame) data = Inr payload"
  shows "case process_frame w frame i data ts env orc of
      Inl p \<Rightarrow> p = SliceOutOfRange \<and> script_panics (w_host w) p \<and> \<not> careful (w_host w)
    | Inr (evt, out, orc') \<Rightarrow> evt = packet_event_of frame ts \<and> orch_reach w orc' \<and> orch_inv orc'"
proof (cases "process_frame w frame i data ts env orc")
  case (Inl p)
  note sp = process_frame_panic [OF orch_reach_inv [OF assms(1)] assms(2) Inl]
  then show ?thesis using Inl script_panic [OF sp] careful_calm [of "w_host w"] by (auto simp: calm_def)
next
  case (Inr r)
  obtain evt out orc' where r: "r = (evt, out, orc')" by (rule prod_cases3)
  show ?thesis
    using process_frame_inv [OF orch_reach_inv [OF assms(1)] Inr [unfolded r]] orch_frame [OF assms(1) Inr [unfolded r]]
    by (simp add: Inr r)
qed

text \<open>
  Record accounting. In every reachable state the records seen are those decrypted, failed to authenticate,
  without a key, without a client hello, and in the clear, together (as 64-bit counters).
\<close>

lemma records_accounted_for:
  assumes "orch_reach w orc"
  shows "tls_records_seen orc = tls_records_decrypted orc + tls_records_authfailed orc + tls_records_nokey orc
    + tls_records_no_client_hello orc + tls_records_plaintext_handshake orc"
  using orch_reach_inv [OF assms] by (simp add: orch_inv_def counters_def)

text \<open>
  Isolation. Without an idle timeout a frame leaves every connection but its own as it was.
\<close>

lemma other_connections_untouched:
  assumes "orch_reach w orc" and "process_frame w frame i data ts env orc = Inr (evt, out, orc')"
    and "idle_timeout (oc_config orc) = None" and "k \<noteq> frame_key frame"
  shows "get_conn k orc' = get_conn k orc"
  using orch_reach_inv [OF assms(1)] assms(2)
proof (cases rule: process_frame_parts)
  case (1 p d conn orc1 n c0 c1)
  then show ?thesis using assms(3,4) by (simp split: option.splits)
qed

text \<open>When the sweep at the end of a frame is due, and finds a connection idle.\<close>

definition sweeps :: "frame_env \<Rightarrow> 'vm orchestrator \<Rightarrow> duration option \<Rightarrow> bool" where
  "sweeps env orc activity \<longleftrightarrow>
     (case (idle_timeout (oc_config orc), activity) of
        (Some timeout, Some t) \<Rightarrow>
          elapsed (last_sweep orc) (fe_sweep_elapsed env) \<ge> sweep_interval (oc_config orc)
          \<and> elapsed t (fe_sweep_now env) \<ge> timeout
      | _ \<Rightarrow> False)"

lemma get_conn_swept:
  assumes "distinct (map fst (connections orc))"
  shows "get_conn k (maybe_sweep_idle env orc) =
    (case get_conn k orc of None \<Rightarrow> None
     | Some c \<Rightarrow> if sweeps env orc (last_activity (conn_meta c)) then None else Some c)"
  using assms
  by (auto simp: maybe_sweep_idle_def sweeps_def Let_def get_conn_def map_of_filter_distinct not_less
      split: option.splits)

lemma track_frame_activity: "track_frame frame env orc = (key, d, conn) \<Longrightarrow> last_activity (conn_meta conn) = Some (fe_activity env)"
  by (auto simp: track_frame_def Let_def)

lemma sweeps_cong:
  "oc_config orc' = oc_config orc \<Longrightarrow> last_sweep orc' = last_sweep orc \<Longrightarrow> sweeps env orc' t = sweeps env orc t"
  by (simp add: sweeps_def split: option.splits)

text \<open>A frame's end counts every connection it removes.\<close>

lemma evicted_count_swept:
  "evicted_connections (maybe_sweep_idle env orc)
     = evicted_connections orc + of_nat (active_connections orc - active_connections (maybe_sweep_idle env orc))"
  by (auto simp: maybe_sweep_idle_def Let_def active_connections_def split: option.splits)

lemma active_connections_card:
  "distinct (map fst (connections orc)) \<Longrightarrow> active_connections orc = card {k. get_conn k orc \<noteq> None}"
proof -
  assume "distinct (map fst (connections orc))"
  then have "card (fst ` set (connections orc)) = length (connections orc)"
    using distinct_card [of "map fst (connections orc)"] by simp
  moreover have "{k. get_conn k orc \<noteq> None} = fst ` set (connections orc)"
    by (simp add: get_conn_def map_of_eq_None_iff del: not_None_eq)
  ultimately show ?thesis by (simp add: active_connections_def)
qed

lemma evict_closed_count:
  assumes "distinct (map fst (connections orc))"
  shows "evicted_connections (evict_closed key orc)
    = evicted_connections orc + of_nat (active_connections orc - active_connections (evict_closed key orc))
    \<and> active_connections (evict_closed key orc) \<le> active_connections orc"
proof (cases "get_conn key orc")
  case None
  then show ?thesis by (simp add: evict_closed_def)
next
  case (Some c)
  have fin: "finite {k. get_conn k orc \<noteq> None}"
    by (simp add: get_conn_def finite_dom_map_of [unfolded dom_def] del: not_None_eq)
  show ?thesis
  proof (cases "is_closed (conn_meta c)")
    case False
    then show ?thesis using Some by (simp add: evict_closed_def)
  next
    case True
    have "get_conn k (evict_closed key orc) \<noteq> None \<longleftrightarrow> get_conn k orc \<noteq> None \<and> k \<noteq> key" for k
      using Some True by (cases "k = key") (simp_all split: option.split)
    then have eq: "{k. get_conn k (evict_closed key orc) \<noteq> None} = {k. get_conn k orc \<noteq> None} - {key}" by blast
    have mem: "key \<in> {k. get_conn k orc \<noteq> None}" using Some by simp
    have "distinct (map fst (connections (evict_closed key orc)))" using assms by simp
    from active_connections_card [OF this] active_connections_card [OF assms]
    have n: "active_connections (evict_closed key orc) = card ({k. get_conn k orc \<noteq> None} - {key})"
      "active_connections orc = card {k. get_conn k orc \<noteq> None}"
      unfolding eq by simp_all
    have "card {k. get_conn k orc \<noteq> None} > 0" using fin mem by (simp only: card_gt_0_iff) blast
    then have "active_connections (evict_closed key orc) = active_connections orc - 1" "active_connections orc > 0"
      using n card_Diff_singleton [OF mem] by simp_all
    then show ?thesis using Some True by simp
  qed
qed

lemma active_swept: "active_connections (maybe_sweep_idle env orc) \<le> active_connections orc"
  by (simp add: maybe_sweep_idle_def active_connections_def Let_def split: option.splits)

text \<open>
  C37 (eviction). After a frame its own connection is gone exactly when the frame has RST, or has FIN and the
  other direction's FIN was seen before, or when a sweep is due and this very frame is already idle for the timeout by then; any
  other connection is gone exactly when it did not exist before, or when a sweep is due and it is idle. The eviction counter goes up
  by the number of connections removed. Without an idle timeout no sweep is ever due.
\<close>

theorem evicted_exactly_when_closed_or_idle:
  assumes "orch_reach w orc" and "process_frame w frame i data ts env orc = Inr (evt, out, orc')"
  shows "(get_conn k orc' = None \<longleftrightarrow>
      (if k = frame_key frame then frame_closes frame (get_conn k orc) \<or> sweeps env orc (Some (fe_activity env))
       else case get_conn k orc of None \<Rightarrow> True | Some c \<Rightarrow> sweeps env orc (last_activity (conn_meta c))))
    \<and> evicted_connections orc' = evicted_connections orc
        + of_nat (card (insert (frame_key frame) {k. get_conn k orc \<noteq> None}) - active_connections orc')"
  using orch_reach_inv [OF assms(1)] assms(2)
proof (cases rule: process_frame_parts)
  case (1 p d conn orc1 n c0 c1)
  note inv = orch_reach_inv [OF assms(1)]
  let ?e = "evict_closed (frame_key frame) orc1"
  let ?s = "maybe_sweep_idle env ?e"
  have closed: "is_closed (conn_meta c1) \<longleftrightarrow> frame_closes frame (get_conn (frame_key frame) orc)"
    using track_frame_ok [OF inv 1(2)] 1(17) by simp
  have activity: "last_activity (conn_meta c1) = Some (fe_activity env)"
    using track_frame_activity [OF 1(2)] 1(17) by simp
  have sw: "sweeps env ?e t = sweeps env orc t" for t by (rule sweeps_cong) (simp_all add: 1(6,22))
  have de: "distinct (map fst (connections ?e))" using 1(10) by simp
  have get: "get_conn k orc' = get_conn k ?s" using 1(4) by simp
  have "get_conn k orc' = None \<longleftrightarrow>
      (if k = frame_key frame then frame_closes frame (get_conn k orc) \<or> sweeps env orc (Some (fe_activity env))
       else case get_conn k orc of None \<Rightarrow> True | Some c \<Rightarrow> sweeps env orc (last_activity (conn_meta c)))"
    unfolding get get_conn_swept [OF de]
    using closed activity sw 1(9) [of k] 1(14) by (auto split: option.splits if_splits)
  moreover have "{k. get_conn k orc1 \<noteq> None} = insert (frame_key frame) {k. get_conn k orc \<noteq> None}"
    using 1(9,14) by (auto simp del: split_paired_All split_paired_Ex) (metis)+
  then have "active_connections orc1 = card (insert (frame_key frame) {k. get_conn k orc \<noteq> None})"
    using active_connections_card [OF 1(10)] by simp
  moreover have "evicted_connections orc' = evicted_connections orc + of_nat (active_connections orc1 - active_connections orc')"
  proof -
    have a: "active_connections orc' = active_connections ?s" "evicted_connections orc' = evicted_connections ?s"
      using 1(4) by (simp_all add: active_connections_def)
    have le: "active_connections ?s \<le> active_connections ?e" "active_connections ?e \<le> active_connections orc1"
      using active_swept evict_closed_count [OF 1(10)] by blast+
    then have split: "active_connections orc1 - active_connections ?s
        = (active_connections orc1 - active_connections ?e) + (active_connections ?e - active_connections ?s)" by simp
    have "evicted_connections ?e = evicted_connections orc1 + of_nat (active_connections orc1 - active_connections ?e)"
      using evict_closed_count [OF 1(10)] by blast
    then show ?thesis
      unfolding a split of_nat_add using evicted_count_swept [of env ?e] 1(7) by (simp only: add.assoc)
  qed
  ultimately show ?thesis by simp
qed

text \<open>
  C39 (a closed connection comes back). Without an idle timeout, any frame without RST for endpoints that have no
  connection, such as the last ACK after both FINs, creates one, even when it carries no payload: the number of
  active connections grows by one.
\<close>

theorem late_frame_revives_connection:
  assumes "orch_reach w orc" and "process_frame w frame i data ts env orc = Inr (evt, out, orc')"
    and "idle_timeout (oc_config orc) = None" and "get_conn (frame_key frame) orc = None"
    and "\<not> fl_rst (tf_flags frame)"
  shows "active_connections orc' = active_connections orc + 1 \<and> get_conn (frame_key frame) orc' \<noteq> None"
  using orch_reach_inv [OF assms(1)] assms(2)
proof (cases rule: process_frame_parts)
  case (1 p d conn orc1 n c0 c1)
  have "\<not> is_closed (conn_meta c1)"
    using track_frame_ok [OF orch_reach_inv [OF assms(1)] 1(2)] 1(17) assms(4,5) by (simp add: frame_closes_def)
  then have same: "get_conn k orc' = get_conn k orc1" for k
    using 1(4,6,14) assms(3) by (cases "get_conn k orc1") auto
  have "distinct (map fst (connections orc'))" using 1(4,10) by simp
  moreover have "distinct (map fst (connections orc))"
    using orch_reach_inv [OF assms(1)] by (simp add: orch_inv_def)
  moreover have "{k. get_conn k orc' \<noteq> None} = insert (frame_key frame) {k. get_conn k orc \<noteq> None}"
    using 1(9,14) same by (auto simp del: split_paired_All split_paired_Ex) (metis)+
  moreover have "finite {k. get_conn k orc \<noteq> None}"
    by (simp add: get_conn_def finite_dom_map_of [unfolded dom_def] del: not_None_eq)
  ultimately show ?thesis using assms(4) same 1(14) by (simp add: active_connections_card)
qed

text \<open>
  Attribution. Every message a frame produces has the frame's own source and destination and its timestamp.
\<close>

lemma messages_carry_frame_endpoints:
  assumes "orch_reach w orc" and "process_frame w frame i data ts env orc = Inr (evt, out, orc')" and "m \<in> set out"
  shows "dm_src_ip m = src_ip frame \<and> dm_src_port m = src_port frame
    \<and> dm_dst_ip m = dst_ip frame \<and> dm_dst_port m = dst_port frame \<and> dm_timestamp m = ts"
  using orch_reach_inv [OF assms(1)] assms(2)
proof (cases rule: process_frame_parts)
  case (1 p d conn orc1 n c0 c1)
  let ?src = "(src_ip frame, src_port frame)" and ?dst = "(dst_ip frame, dst_port frame)"
  have "d = (?src = client_endpoint c0)"
    using track_frame_ok [OF orch_reach_inv [OF assms(1)] 1(2)] 1(18) by simp
  moreover have "conn_key ?src ?dst = conn_key (client_endpoint c0) (server_endpoint c0)"
    using 1(15,16) by (simp add: conn_ok_def drain_step_def frame_key_def)
  ultimately have "endpoints d c0 = (?src, ?dst)"
    by (auto simp: endpoints_def conn_key_eq_iff)
  moreover obtain pt ff where "m = message_of d c0 pt ff ts"
    using drain_records_messages [OF 1(11) _ 1(5) assms(3)] 1(21) by (auto simp: conn_ok_def stream_ok_def)
  ultimately show ?thesis by (simp add: message_of_def)
qed

text \<open>
  Desynchronised directions. Once a direction has lost bytes, its frames produce no message and change no record
  counter, and the direction stays desynchronised until the connection is evicted.
\<close>

lemma desynced_direction_is_ignored:
  assumes "orch_reach w orc" and "process_frame w frame i data ts env orc = Inr (evt, out, orc')"
    and "get_conn (frame_key frame) orc = Some c"
    and "is_desynced ((src_ip frame, src_port frame) = client_endpoint c) c"
  shows "out = [] \<and> counters orc' = counters orc
    \<and> (\<forall>c'. get_conn (frame_key frame) orc' = Some c' \<longrightarrow>
         is_desynced ((src_ip frame, src_port frame) = client_endpoint c') c')"
  using orch_reach_inv [OF assms(1)] assms(2)
proof (cases rule: process_frame_parts)
  case (1 p d conn orc1 n c0 c1)
  have t: "d = ((src_ip frame, src_port frame) = client_endpoint conn)" "client_endpoint conn = client_endpoint c"
      "is_desynced d conn = is_desynced d c" "conn_ok (orch_limits orc) (max_tail_bytes (oc_config orc)) (frame_key frame) conn"
    using track_frame_ok [OF orch_reach_inv [OF assms(1)] 1(2)] assms(3) by auto
  then have ds: "is_desynced d conn" using assms(4) by simp
  then have "contig_bytes (reassembler_for d c0) = []"
    using 1(19) t(4) by (simp add: conn_ok_def stream_ok_def)
  then have n: "n = 0" using 1(12) by (simp add: split_records.simps split_record_def)
  have "c' = c1" if "get_conn (frame_key frame) orc' = Some c'" for c'
    using that 1(4,10,14) maybe_sweep_idle_get [of "evict_closed (frame_key frame) orc1" "frame_key frame" env c']
    by (auto split: if_splits)
  moreover have "is_desynced d c1" "client_endpoint c1 = client_endpoint conn"
    using 1(15,19) ds by (simp_all add: drain_step_def)
  ultimately show ?thesis using n 1(4,8,13) t(1) by auto
qed

lemma split_record_None_length: "split_record bs = None \<Longrightarrow> length bs < 65540"
proof -
  assume "split_record bs = None"
  then have "length bs < 5 + unat (u16_of_be (bs ! 3) (bs ! 4)) \<or> length bs < 5"
    by (auto simp: split_record_def Let_def split: if_splits)
  moreover have "unat (u16_of_be (bs ! 3) (bs ! 4)) < 65536"
    by (rule order_less_le_trans [OF unsigned_less]) simp
  ultimately show ?thesis by linarith
qed

lemma conn_buffered:
  assumes "conn_ok l cap k c" and "conn_at_rest c"
  shows "contiguous_len (reassembler_for d c) + pending_len (reassembler_for d c) \<le> 65539 + max_bytes l"
proof -
  have w: "wf_reassembler (reassembler_for d c)" "within_limits (reassembler_for d c)"
      "limits (reassembler_for d c) = l"
    using assms(1) by (auto simp: conn_ok_def stream_ok_def)
  have "length (contig_bytes (reassembler_for d c)) < 65540"
    using assms(2) split_record_None_length by (simp add: conn_at_rest_def)
  moreover have "contiguous_len (reassembler_for d c) = length (contig_bytes (reassembler_for d c))"
    using tcp.ready_content [OF w(1)] by simp
  ultimately show ?thesis using w(2,3) by (simp add: within_limits_def)
qed

text \<open>
  C38 (bounded memory). In every reachable state each direction of each connection holds less than one maximal record
  of contiguous bytes and at most the configured pending bytes and packets, and each carried-over tail is within its cap, so
  the bytes buffered are bounded by the number of connections.
\<close>

theorem buffered_bytes_bounded:
  assumes "orch_reach w orc"
  shows "buffered_bytes orc \<le> active_connections orc * (2 * (65539 + max_pending_bytes (oc_config orc)))
    \<and> (\<forall>(k, c) \<in> set (connections orc). length (tail_c2s c) \<le> max_tail_bytes (oc_config orc)
         \<and> length (tail_s2c c) \<le> max_tail_bytes (oc_config orc)
         \<and> length (pending (reassembler_c2s c)) \<le> max_pending_packets (oc_config orc)
         \<and> length (pending (reassembler_s2c c)) \<le> max_pending_packets (oc_config orc))"
proof -
  note inv = orch_reach_inv [OF assms]
  have ok: "conn_ok (orch_limits orc) (max_tail_bytes (oc_config orc)) k c" "conn_at_rest c"
    if "(k, c) \<in> set (connections orc)" for k c
  proof -
    have "get_conn k orc = Some c" using that inv by (simp add: get_conn_def orch_inv_def)
    then show "conn_ok (orch_limits orc) (max_tail_bytes (oc_config orc)) k c" "conn_at_rest c"
      using orch_inv_conn [OF inv] by blast+
  qed
  have lim: "max_bytes (orch_limits orc) = max_pending_bytes (oc_config orc)"
      "max_packets (orch_limits orc) = max_pending_packets (oc_config orc)"
    by (simp_all add: orch_limits_def)
  let ?b = "2 * (65539 + max_pending_bytes (oc_config orc))"
  let ?f = "\<lambda>e. case e of (_, c) \<Rightarrow> contiguous_len (reassembler_c2s c) + pending_len (reassembler_c2s c)
        + contiguous_len (reassembler_s2c c) + pending_len (reassembler_s2c c)"
  have each: "?f e \<le> ?b" if "e \<in> set (connections orc)" for e
  proof (cases e)
    case (Pair k c)
    with that have "(k, c) \<in> set (connections orc)" by simp
    note o = ok [OF this]
    show ?thesis using conn_buffered [OF o, of True] conn_buffered [OF o, of False] Pair lim
      by (simp add: reassembler_for_def)
  qed
  have "sum_list (map ?f (connections orc)) \<le> length (connections orc) * ?b"
    using sum_list_mono [of "connections orc" ?f "\<lambda>_. ?b"] each by (simp add: sum_list_triv)
  moreover have "length (tail_c2s c) \<le> max_tail_bytes (oc_config orc)
      \<and> length (tail_s2c c) \<le> max_tail_bytes (oc_config orc)
      \<and> length (pending (reassembler_c2s c)) \<le> max_pending_packets (oc_config orc)
      \<and> length (pending (reassembler_s2c c)) \<le> max_pending_packets (oc_config orc)"
    if "(k, c) \<in> set (connections orc)" for k c
    using ok(1) [OF that] lim
    by (auto simp: conn_ok_def stream_ok_def within_limits_def tail_for_def reassembler_for_def all_bool_eq)
  ultimately show ?thesis by (auto simp: buffered_bytes_def active_connections_def)
qed

text \<open>
  Only decrypted application data is emitted. A message comes only from a record, no change cipher spec, of a
  connection whose client hello was seen, that decrypted to application data; it carries the plaintext and the
  endpoints of its direction.
\<close>

lemma only_decrypted_records_are_emitted:
  assumes "handle_record w key c2s ts envs ct body conn orc = Inr (orc', out)" and "m \<in> set out"
  shows "ct \<noteq> 0x14 \<and> (\<exists>st st' rc ff. conn_state conn = Some st
    \<and> decrypt (w_crypto w) (ks_current (poll (w_hex w) (fst envs) (oc_keylog orc))) c2s ct body st = (Inr rc, st')
    \<and> dr_content_type rc = 0x17 \<and> m = message_of c2s conn (dr_plaintext rc) ff ts)"
proof (cases rule: handle_record_cases [of ct w key c2s ts envs body conn orc])
  case (decrypted st st' kl rc orc1)
  let ?o = "orc1\<lparr>tls_records_decrypted := tls_records_decrypted orc1 + 1\<rparr>"
  have "get_conn key ?o = Some (conn\<lparr>conn_state := Some st'\<rparr>)" using decrypted(5) by simp
  note e = dissect_and_emit_message [OF this, of w c2s "dr_plaintext rc" ts orc' out]
  show ?thesis using e decrypted assms by (auto split: if_splits)
qed (use assms in auto)

text \<open>
  On a connection without a client hello, any client record except a change cipher spec whose body
  parses as one starts decryption with its random, whatever the record's content type, and gives no message.
\<close>

lemma client_hello_starts_connection:
  assumes "ct \<noteq> 0x14" and "conn_state conn = None" and "client_random_from_client_hello body = Some random"
  shows "\<exists>orc'. handle_record w key True ts envs ct body conn orc = Inr (orc', [])
    \<and> get_conn key orc' = Some (conn\<lparr>conn_state := Some (new_connection random)\<rparr>)"
  using assms by (simp add: handle_record_def Let_def)

lemma set_tail_capped_discarded:
  "tail_bytes_discarded (set_tail_capped key d bs orc)
     = tail_bytes_discarded orc + of_nat (length bs - max_tail_bytes (oc_config orc))"
  by (auto simp: set_tail_capped_def Let_def put_conn_def split: option.splits)

text \<open>
  Carried-over plaintext. After a record's plaintext is dissected, the direction's tail is what the dissector left
  unconsumed of the old tail and the plaintext, all of it after a dissector error, and empty when no
  dissector is registered; beyond the cap only its end is kept and the bytes dropped are counted.
\<close>

lemma tail_after_dissection:
  assumes "get_conn key orc = Some c"
    and "dissect (w_host w) (snd (server_endpoint c)) (tail_for d c @ pt) (oc_lua orc) = Inr (res, lua')"
  shows "\<exists>orc' out c'. dissect_and_emit w key d pt ts orc = Inr (orc', out) \<and> get_conn key orc' = Some c'
    \<and> (let left = (case res of Inr (Some (ff, n)) \<Rightarrow> drop n (tail_for d c @ pt)
                    | Inr None \<Rightarrow> [] | Inl _ \<Rightarrow> tail_for d c @ pt);
           dropped = length left - max_tail_bytes (oc_config orc) in
       tail_for d c' = drop dropped left
       \<and> tail_bytes_discarded orc' = tail_bytes_discarded orc + of_nat dropped)
    \<and> tail_for (\<not> d) c' = tail_for (\<not> d) c"
  using assms(1)
proof (cases rule: dissect_and_emit_cases [of key orc c w d pt ts])
  case (panicked p)
  then show ?thesis using assms(2) by simp
next
  case (dissected ff consumed lua1)
  let ?o = "(put_conn key (set_tail d [] c) orc)\<lparr>oc_lua := lua1\<rparr>"
  have "get_conn key ?o = Some (set_tail d [] c)" by simp
  from set_tail_capped_eq [OF this] dissected assms(2) show ?thesis
    by (auto simp: set_tail_capped_discarded put_conn_def Let_def)
next
  case (undissected lua1)
  then show ?thesis using assms(2) by (auto simp: Let_def put_conn_def get_conn_def update_conv')
next
  case (failed err lua1)
  let ?o = "(put_conn key (set_tail d [] c) orc)\<lparr>oc_lua := lua1\<rparr>"
  have "get_conn key ?o = Some (set_tail d [] c)" by simp
  from set_tail_capped_eq [OF this] failed assms(2) show ?thesis
    by (auto simp: set_tail_capped_discarded put_conn_def Let_def)
qed

subsection \<open>A concrete run\<close>

text \<open>A dissector on port 443 that consumes one byte of what it is given.\<close>

definition demo_host :: "unit lua_host" where
  "demo_host =
     \<lparr>get_dissector = (\<lambda>vm r. \<lparr>le_result = Inr r, le_adds = [], le_vm = (), lr_calls = []\<rparr>),
      call_dissector = (\<lambda>vm r bs. \<lparr>le_result = Inr (LInteger 1), le_adds = [], le_vm = (), lr_calls = []\<rparr>),
      exec_chunk = (\<lambda>vm s n. \<lparr>le_result = Inr (), le_adds = [], le_vm = ()\<rparr>),
      host_gc_collect = (\<lambda>vm. vm), host_used_memory = (\<lambda>vm. 0)\<rparr>"

lemma calm_demo_host: "calm demo_host"
  by (simp add: calm_def script_panics_def demo_host_def run_trace_def)

definition demo_world :: "unit world" where
  "demo_world = \<lparr>w_crypto = toy_crypto, w_hex = hex_decode_lower, w_host = demo_host\<rparr>"

lemma calm_demo_world: "calm (w_host demo_world)"
  using calm_demo_host by (simp add: demo_world_def)

definition demo_config :: orchestrator_config where
  "demo_config = \<lparr>idle_timeout = None, sweep_interval = 1, max_pending_bytes = 4, max_pending_packets = 2,
     max_pending_age = 50, max_tail_bytes = 8, lua_gc_interval = 50\<rparr>"

definition demo_source :: keylog_source where
  "demo_source = \<lparr>ks_path = None, reload_interval = 50, last_reload_attempt = 0, last_seen_mtime = None,
     last_seen_len = None, ks_current = demo_keylog\<rparr>"

definition demo_engine :: "unit lua_engine" where
  "demo_engine = \<lparr>lua_vm = (), tls_port_registry = [443 \<mapsto> 0]\<rparr>"

definition demo_start :: "unit orchestrator" where
  "demo_start = orchestrator_new demo_source demo_engine demo_config 0 0"

definition demo_kl_env :: keylog_env where
  "demo_kl_env = \<lparr>elapsed_at = 1, attempt_at = 1, miss_metadata = None, read_result = Inl NotFound, read_metadata = None\<rparr>"

definition demo_env :: frame_env where
  "demo_env = \<lparr>fe_activity = 1, fe_push_t0 = 1, fe_push_t1 = 1, fe_records = (\<lambda>_. (demo_kl_env, demo_kl_env)),
     fe_sweep_elapsed = 1, fe_sweep_at = 1, fe_sweep_now = 1, fe_gc_elapsed = 1, fe_gc_at = 1\<rparr>"

definition run_frame :: "u32 \<Rightarrow> bool \<Rightarrow> bool \<Rightarrow> nat \<Rightarrow> tcp_frame" where
  "run_frame s syn rst n = \<lparr>src_ip = V4 1, dst_ip = V4 2, src_port = 5000, dst_port = 443, tf_seq = s,
     ack_number = 0, tf_flags = \<lparr>fl_syn = syn, fl_fin = False, fl_rst = rst, fl_ack = \<not> syn, fl_psh = False\<rparr>,
     payload_range = (0, n)\<rparr>"

definition demo_step :: "tcp_frame \<Rightarrow> bytes \<Rightarrow> unit orchestrator \<Rightarrow> decoded_message list \<times> unit orchestrator" where
  "demo_step frame data orc =
     (case process_frame demo_world frame 0 data 7 demo_env orc of
        Inr (_, out, orc') \<Rightarrow> (out, orc') | Inl _ \<Rightarrow> ([], orc))"

lemma demo_step_eq:
  assumes "orch_reach demo_world orc" and "snd (payload_range frame) \<le> length data"
    and "fst (payload_range frame) \<le> snd (payload_range frame)"
  shows "process_frame demo_world frame 0 data 7 demo_env orc
      = Inr (packet_event_of frame 7, fst (demo_step frame data orc), snd (demo_step frame data orc))"
proof -
  have "index_range (payload_range frame) data = Inr (sub_range (payload_range frame) data)"
    using assms(2,3) by (simp add: index_range_def)
  moreover note calm_demo_world
  ultimately obtain out orc' where "process_frame demo_world frame 0 data 7 demo_env orc = Inr (packet_event_of frame 7, out, orc')"
    by (rule process_frame_calm [OF orch_reach_inv [OF assms(1)]])
  then show ?thesis by (simp add: demo_step_def)
qed

lemma demo_start_reach: "orch_reach demo_world demo_start"
  unfolding demo_start_def by (rule orch_start)

lemma demo_step_reach:
  "orch_reach demo_world orc \<Longrightarrow> snd (payload_range frame) \<le> length data \<Longrightarrow>
     fst (payload_range frame) \<le> snd (payload_range frame) \<Longrightarrow> orch_reach demo_world (snd (demo_step frame data orc))"
  by (rule orch_frame [OF _ demo_step_eq])

lemma run_frame_simps [simp]:
  "payload_range (run_frame s syn rst n) = (0, n)" "fl_rst (tf_flags (run_frame s syn rst n)) = rst"
  "src_ip (run_frame s syn rst n) = V4 1" "src_port (run_frame s syn rst n) = 5000"
  "dst_ip (run_frame s syn rst n) = V4 2" "dst_port (run_frame s syn rst n) = 443"
  "frame_key (run_frame s syn rst n) = ((V4 1, 5000), (V4 2, 443))"
proof -
  have "V4 1 < V4 2" by code_simp
  then have "(V4 1, 5000 :: u16) \<le> (V4 2, 443)" by (simp add: less_eq_prod_def)
  then show "frame_key (run_frame s syn rst n) = ((V4 1, 5000), (V4 2, 443))"
    by (simp add: run_frame_def frame_key_def conn_key_def)
qed (simp_all add: run_frame_def)

text \<open>A client hello and a TLS 1.3 application data record of it.\<close>

definition demo_hello :: bytes where
  "demo_hello = [22, 3, 1, 0, 38, 1, 0, 0, 34, 3, 3] @ demo_random"

definition demo_appdata :: bytes where
  "demo_appdata = [23, 3, 3, 0, 19] @ encrypt_record13 toy_crypto demo_keys 0 (record_aad 19) [104, 105] 23 0"

definition demo_orc1 :: "unit orchestrator" where
  "demo_orc1 = snd (demo_step (run_frame 99 True False 0) [] demo_start)"

definition demo_orc2 :: "unit orchestrator" where
  "demo_orc2 = snd (demo_step (run_frame 100 False False 43) demo_hello demo_orc1)"

definition demo_orc3 :: "unit orchestrator" where
  "demo_orc3 = snd (demo_step (run_frame 150 False False 5) [1, 2, 3, 4, 5] demo_orc1)"

lemma demo_hello_len: "length demo_hello = 43" "length demo_appdata = 24"
  by (code_simp, code_simp)

lemma demo_out: "map dm_tls_app_data (fst (demo_step (run_frame 143 False False 24) demo_appdata demo_orc2)) = [[104, 105]]"
  by code_simp

lemma demo_desync:
  "map_option (\<lambda>c. (desynced_c2s c, client_endpoint c)) (get_conn ((V4 1, 5000), (V4 2, 443)) demo_orc3)
     = Some (True, (V4 1, 5000))"
  by code_simp

lemma demo_orc_reach: "orch_reach demo_world demo_orc1" "orch_reach demo_world demo_orc2" "orch_reach demo_world demo_orc3"
proof -
  show r1: "orch_reach demo_world demo_orc1"
    unfolding demo_orc1_def by (rule demo_step_reach [OF demo_start_reach]) simp_all
  show "orch_reach demo_world demo_orc2" "orch_reach demo_world demo_orc3"
    unfolding demo_orc2_def demo_orc3_def
    by (rule demo_step_reach [OF r1]; simp add: demo_hello_len)+
qed

lemma demo_reach_config: "oc_config demo_start = demo_config"
  by (simp add: demo_start_def orchestrator_new_def)

lemma demo_first_frame:
  "process_frame demo_world (run_frame 99 True rst 0) 0 [] 7 demo_env demo_start
     = Inr (packet_event_of (run_frame 99 True rst 0) 7, fst (demo_step (run_frame 99 True rst 0) [] demo_start),
            snd (demo_step (run_frame 99 True rst 0) [] demo_start))"
  by (rule demo_step_eq [OF demo_start_reach]) simp_all

subsection \<open>Witnesses\<close>

theorem process_frame_panics_by_script_only_witness:
  "\<exists>out orc'. process_frame demo_world (run_frame 143 False False 24) 0 demo_appdata 7 demo_env demo_orc2
       = Inr (packet_event_of (run_frame 143 False False 24) 7, out, orc')
     \<and> map dm_tls_app_data out = [[104, 105]] \<and> orch_inv orc'"
proof -
  let ?f = "run_frame 143 False False 24"
  have "index_range (payload_range ?f) demo_appdata = Inr demo_appdata"
    by (simp add: index_range_def demo_hello_len sub_range_def)
  note p = process_frame_panics_by_script_only [OF demo_orc_reach(2) this, where i = 0 and ts = 7 and env = demo_env]
  have "process_frame demo_world ?f 0 demo_appdata 7 demo_env demo_orc2
      = Inr (packet_event_of ?f 7, fst (demo_step ?f demo_appdata demo_orc2), snd (demo_step ?f demo_appdata demo_orc2))"
    by (rule demo_step_eq [OF demo_orc_reach(2)]) (simp_all add: demo_hello_len)
  then show ?thesis using p demo_out by (cases "demo_step ?f demo_appdata demo_orc2") simp
qed

theorem late_frame_revives_connection_witness: "active_connections demo_orc1 = 1"
  using late_frame_revives_connection [OF demo_start_reach demo_first_frame [of False]]
  by (simp add: demo_reach_config demo_config_def demo_orc1_def demo_start_def orchestrator_new_def
      get_conn_def active_connections_def)

theorem buffered_bytes_bounded_witness:
  "buffered_bytes demo_orc2 \<le> active_connections demo_orc2 * (2 * (65539 + max_pending_bytes (oc_config demo_orc2)))"
  using buffered_bytes_bounded [OF demo_orc_reach(2)] by simp

text \<open>With an idle timeout of 30: a first frame at 1, and a frame of another connection at 40, when a sweep is due.\<close>

definition demo_idle_start :: "unit orchestrator" where
  "demo_idle_start = orchestrator_new demo_source demo_engine (demo_config\<lparr>idle_timeout := Some 30\<rparr>) 0 0"

definition demo_idle :: "unit orchestrator" where
  "demo_idle = snd (demo_step (run_frame 99 True False 0) [] demo_idle_start)"

definition demo_late_env :: frame_env where
  "demo_late_env = demo_env\<lparr>fe_activity := 40, fe_sweep_elapsed := 40, fe_sweep_at := 40, fe_sweep_now := 40\<rparr>"

definition other_frame :: tcp_frame where
  "other_frame = (run_frame 99 True False 0)\<lparr>src_port := 5001\<rparr>"

lemma demo_idle_facts:
  "map_option (\<lambda>c. last_activity (conn_meta c)) (get_conn ((V4 1, 5000), (V4 2, 443)) demo_idle) = Some (Some 1)"
  "evicted_connections demo_idle = 0" "frame_key other_frame = ((V4 1, 5001), (V4 2, 443))"
  "sweeps demo_late_env demo_idle (Some 1)" "\<not> sweeps demo_late_env demo_idle (Some 40)"
  "map_option fst (List.find (\<lambda>_. True) (connections demo_idle)) = Some ((V4 1, 5000), (V4 2, 443))"
  "length (connections demo_idle) = 1"
  by code_simp+

theorem evicted_exactly_when_closed_or_idle_witness:
  "\<exists>evt out orc'. process_frame demo_world other_frame 0 [] 7 demo_late_env demo_idle = Inr (evt, out, orc')
     \<and> get_conn ((V4 1, 5000), (V4 2, 443)) orc' = None \<and> get_conn ((V4 1, 5001), (V4 2, 443)) orc' \<noteq> None"
proof -
  have r: "orch_reach demo_world demo_idle"
    unfolding demo_idle_def demo_idle_start_def by (rule demo_step_reach [OF orch_start]) simp_all
  have "index_range (payload_range other_frame) ([] :: bytes) = Inr []"
    by (simp add: other_frame_def run_frame_def index_range_def sub_range_def)
  moreover note calm_demo_world
  ultimately obtain out orc' where p: "process_frame demo_world other_frame 0 [] 7 demo_late_env demo_idle
      = Inr (packet_event_of other_frame 7, out, orc')"
    by (rule process_frame_calm [OF orch_reach_inv [OF r]])
  obtain c where c: "get_conn ((V4 1, 5000), (V4 2, 443)) demo_idle = Some c" "last_activity (conn_meta c) = Some 1"
    using demo_idle_facts(1) by auto
  have a: "fe_activity demo_late_env = 40" by (simp add: demo_late_env_def)
  have n: "get_conn ((V4 1, 5001), (V4 2, 443)) demo_idle = None" by code_simp
  have "\<not> frame_closes other_frame None" by (simp add: frame_closes_def other_frame_def)
  then show ?thesis
    using evicted_exactly_when_closed_or_idle [OF r p, of "((V4 1, 5000), (V4 2, 443))"]
      evicted_exactly_when_closed_or_idle [OF r p, of "((V4 1, 5001), (V4 2, 443))"] c a n demo_idle_facts(3-5) p
    by simp
qed

end
