(* ===== verification/Delivery.thy ===== *)
theory Delivery
  imports Orchestrator_Props
begin

text \<open>
  Delivery, end to end: runs of \<open>process_frame\<close> over the frames of a capture, the stream a TLS 1.3 or TLS 1.2 sender puts on
  the wire, and that the messages emitted for that sender are the application data of exactly the records the capture covers, in
  order and each once, whatever other traffic is interleaved. The theory joins the losslessness of the
  reassembler, the framing, the decryption state and the record round trip.
\<close>

subsection \<open>Runs\<close>

text \<open>One call of \<open>process_frame\<close>: its arguments besides the state.\<close>

record capture_frame =
  cf_frame :: tcp_frame
  cf_index :: nat
  cf_data :: bytes
  cf_timestamp :: duration
  cf_env :: frame_env

fun process_frames ::
  "'vm world \<Rightarrow> capture_frame list \<Rightarrow> 'vm orchestrator \<Rightarrow> panic + (decoded_message list \<times> 'vm orchestrator)"
where
  "process_frames w [] orc = Inr ([], orc)"
| "process_frames w (cf # cfs) orc =
     (case process_frame w (cf_frame cf) (cf_index cf) (cf_data cf) (cf_timestamp cf) (cf_env cf) orc of
        Inl e \<Rightarrow> Inl e
      | Inr (_, out, orc1) \<Rightarrow>
          (case process_frames w cfs orc1 of
             Inl e \<Rightarrow> Inl e
           | Inr (out', orc') \<Rightarrow> Inr (out @ out', orc')))"

definition frame_src :: "tcp_frame \<Rightarrow> endpoint" where
  "frame_src frame = (src_ip frame, src_port frame)"

definition frame_dst :: "tcp_frame \<Rightarrow> endpoint" where
  "frame_dst frame = (dst_ip frame, dst_port frame)"

subsection \<open>The sender's side\<close>

text \<open>
  A record as it is sent: a hello, a change of cipher spec or another message in the clear; a TLS 1.3 message, sealed under the keys
  of a generation with its content type, plaintext and amount of zero padding; or a TLS 1.2 message, sealed with its content
  type, plaintext and explicit nonce. A sender has the keys of both versions, though a session uses those of one.
\<close>

datatype sent =
    Client_Hello bytes
  | Server_Hello bytes
  | SentCipherSpec
  | Clear u8 bytes
  | Sealed generation u8 bytes nat
  | Sealed12 u8 bytes bytes

type_synonym seqs = "counter \<Rightarrow> u64"

record sender_keys =
  sk_traffic :: "generation \<Rightarrow> record_keys13"
  sk_master :: record_keys12

fun body_len :: "sent \<Rightarrow> nat" where
  "body_len (Client_Hello hello) = length hello"
| "body_len (Server_Hello hello) = length hello"
| "body_len SentCipherSpec = 1"
| "body_len (Clear ct body) = length body"
| "body_len (Sealed g ct pt pad) = length pt + 1 + pad + 16"
| "body_len (Sealed12 ct pt nonce) = 8 + length pt + 16"

fun sealed_body :: "crypto \<Rightarrow> sender_keys \<Rightarrow> seqs \<Rightarrow> sent \<Rightarrow> bytes" where
  "sealed_body cr ks q (Client_Hello hello) = hello"
| "sealed_body cr ks q (Server_Hello hello) = hello"
| "sealed_body cr ks q SentCipherSpec = [1]"
| "sealed_body cr ks q (Clear ct body) = body"
| "sealed_body cr ks q (Sealed g ct pt pad) =
     encrypt_record13 cr (sk_traffic ks g) (q (Counter13 g)) (record_aad (body_len (Sealed g ct pt pad))) pt ct pad"
| "sealed_body cr ks q (Sealed12 ct pt nonce) =
     nonce @ (case encrypt_record12 cr (sk_master ks) (q Counter12) ct nonce pt of None \<Rightarrow> [] | Some c \<Rightarrow> c)"

fun outer_type :: "sent \<Rightarrow> u8" where
  "outer_type (Client_Hello hello) = 0x16"
| "outer_type (Server_Hello hello) = 0x16"
| "outer_type SentCipherSpec = 0x14"
| "outer_type (Clear ct body) = ct"
| "outer_type (Sealed g ct pt pad) = 0x17"
| "outer_type (Sealed12 ct pt nonce) = ct"

text \<open>The record header's legacy version, which a client hello has as TLS 1.0.\<close>

fun legacy_minor :: "sent \<Rightarrow> u8" where
  "legacy_minor (Client_Hello hello) = 1"
| "legacy_minor m = 3"

definition sealed_record :: "crypto \<Rightarrow> sender_keys \<Rightarrow> seqs \<Rightarrow> sent \<Rightarrow> bytes" where
  "sealed_record cr ks q m = [outer_type m, 3, legacy_minor m] @ be_u16 (of_nat (body_len m)) @ sealed_body cr ks q m"

text \<open>The sequence number a record is sealed under moves on.\<close>

fun bump :: "sent \<Rightarrow> seqs \<Rightarrow> seqs" where
  "bump (Client_Hello hello) q = q"
| "bump (Server_Hello hello) q = q"
| "bump SentCipherSpec q = q"
| "bump (Clear ct body) q = q"
| "bump (Sealed g ct pt pad) q = q(Counter13 g := q (Counter13 g) + 1)"
| "bump (Sealed12 ct pt nonce) q = q(Counter12 := q Counter12 + 1)"

fun sealed_stream :: "crypto \<Rightarrow> sender_keys \<Rightarrow> seqs \<Rightarrow> sent list \<Rightarrow> bytes" where
  "sealed_stream cr ks q [] = []"
| "sealed_stream cr ks q (m # ms) = sealed_record cr ks q m @ sealed_stream cr ks (bump m q) ms"

text \<open>What of the records is application data.\<close>

fun app_data :: "sent \<Rightarrow> bytes list" where
  "app_data (Client_Hello hello) = []"
| "app_data (Server_Hello hello) = []"
| "app_data SentCipherSpec = []"
| "app_data (Clear ct body) = []"
| "app_data (Sealed g ct pt pad) = (if ct = 0x17 then [pt] else [])"
| "app_data (Sealed12 ct pt nonce) = (if ct = 0x17 then [pt] else [])"

definition plaintexts :: "sent list \<Rightarrow> bytes list" where
  "plaintexts ms = concat (map app_data ms)"

lemma plaintexts_simps [simp]:
  "plaintexts [] = []" "plaintexts (m # ms) = app_data m @ plaintexts ms"
  "plaintexts (ms @ ms') = plaintexts ms @ plaintexts ms'"
  by (simp_all add: plaintexts_def)

text \<open>The records that lie wholly in the first \<open>n\<close> bytes of the stream.\<close>

fun whole :: "nat \<Rightarrow> sent list \<Rightarrow> sent list" where
  "whole n [] = []"
| "whole n (m # ms) = (if 5 + body_len m \<le> n then m # whole (n - (5 + body_len m)) ms else [])"

definition wire_len :: "sent list \<Rightarrow> nat" where
  "wire_len ms = sum_list (map (\<lambda>m. 5 + body_len m) ms)"

lemma wire_len_simps [simp]:
  "wire_len [] = 0" "wire_len (m # ms) = 5 + body_len m + wire_len ms" "wire_len (ms @ ms') = wire_len ms + wire_len ms'"
  by (simp_all add: wire_len_def)

lemma whole_all [simp]: "wire_len ms \<le> n \<Longrightarrow> whole n ms = ms"
  by (induction ms arbitrary: n) auto

lemma whole_prefix: "whole n ms = take (length (whole n ms)) ms"
  by (induction n ms rule: whole.induct) auto

lemma wire_len_whole: "wire_len (whole n ms) \<le> n"
  by (induction n ms rule: whole.induct) auto

text \<open>Reading on from where an earlier read stopped.\<close>

lemma whole_split:
  "n \<le> n' \<Longrightarrow> whole n' ms =
     whole n ms @ whole (n' - wire_len (whole n ms)) (drop (length (whole n ms)) ms)"
proof (induction n ms arbitrary: n' rule: whole.induct)
  case (2 n m ms)
  show ?case
  proof (cases "5 + body_len m \<le> n")
    case True
    with 2 have "whole (n' - (5 + body_len m)) ms = whole (n - (5 + body_len m)) ms
        @ whole (n' - (5 + body_len m) - wire_len (whole (n - (5 + body_len m)) ms))
            (drop (length (whole (n - (5 + body_len m)) ms)) ms)"
      by (intro "2.IH") simp_all
    then show ?thesis using True 2(2) by simp
  qed simp
qed simp

subsection \<open>A session\<close>

text \<open>
  One direction of a TLS 1.3 or TLS 1.2 connection as its sender sees it: the endpoints, which of them is the client, the randoms of
  the handshake, the traffic secret of each generation and the master secret as far as the key log has them, the algorithm and the
  keys in use with the next sequence numbers, the TCP sequence number of the stream's first byte, what has been sent so far, and
  the records to come, a hello first among them when they are all of one end's.
\<close>

record session =
  ses_sender :: endpoint
  ses_receiver :: endpoint
  ses_client :: bool
  ses_random :: bytes
  ses_server_random :: "bytes option"
  ses_secret :: "generation \<Rightarrow> bytes option"
  ses_master :: "bytes option"
  ses_algorithm :: aead_algorithm
  ses_keys :: sender_keys
  ses_seq :: seqs
  ses_base :: u32
  ses_past :: bytes
  ses_records :: "sent list"

definition session_key :: "session \<Rightarrow> conn_key" where
  "session_key ses = conn_key (ses_sender ses) (ses_receiver ses)"

text \<open>The sequence numbers, and the body, of the session's record number \<open>j\<close>.\<close>

definition seq_at :: "session \<Rightarrow> nat \<Rightarrow> seqs" where
  "seq_at ses j = fold bump (take j (ses_records ses)) (ses_seq ses)"

definition nth_body :: "crypto \<Rightarrow> session \<Rightarrow> nat \<Rightarrow> bytes" where
  "nth_body cr ses j = sealed_body cr (ses_keys ses) (seq_at ses j) (ses_records ses ! j)"

definition session_stream :: "crypto \<Rightarrow> session \<Rightarrow> bytes" where
  "session_stream cr ses = ses_past ses @ sealed_stream cr (ses_keys ses) (ses_seq ses) (ses_records ses)"

text \<open>A key log has the session's secrets, and no others for it.\<close>

definition secrets_known :: "session \<Rightarrow> bool \<Rightarrow> keylog \<Rightarrow> bool" where
  "secrets_known ses d kl \<longleftrightarrow>
     (\<forall>g. secret_for kl (ses_random ses) (secret_label_for g d) = ses_secret ses g)
     \<and> secret_for kl (ses_random ses) ClientRandom = ses_master ses"

text \<open>No key that \<open>decrypt\<close> may try opens a record, but the one given.\<close>

definition no_key13 :: "crypto \<Rightarrow> session \<Rightarrow> bytes \<Rightarrow> (generation \<times> aead_algorithm) option \<Rightarrow> bool" where
  "no_key13 cr ses body except \<longleftrightarrow>
     (\<forall>g secret alg keys n. ses_secret ses g = Some secret \<longrightarrow> derive13 cr secret alg = Some keys \<longrightarrow> Some (g, alg) \<noteq> except \<longrightarrow>
        aead_open cr alg (rk_key keys) (nonce_for13 keys n) (record_aad (length body)) body = None)"

definition no_key12 :: "crypto \<Rightarrow> session \<Rightarrow> u8 \<Rightarrow> bytes \<Rightarrow> aead_algorithm option \<Rightarrow> bool" where
  "no_key12 cr ses ct body except \<longleftrightarrow>
     (\<forall>ms sr alg q. ses_master ses = Some ms \<longrightarrow> ses_server_random ses \<in> {None, Some sr} \<longrightarrow>
        alg \<in> set TLS12_ALGORITHMS \<longrightarrow> Some alg \<noteq> except \<longrightarrow> 24 \<le> length body \<longrightarrow>
        isl (decrypt_record12 cr (derive12 cr ms (ses_random ses) sr alg (ses_client ses)) q ct (take 8 body) (drop 8 body)))"

fun others_fail_on :: "crypto \<Rightarrow> session \<Rightarrow> bytes \<Rightarrow> sent \<Rightarrow> bool" where
  "others_fail_on cr ses body (Clear ct b) \<longleftrightarrow> no_key13 cr ses body None \<and> no_key12 cr ses ct body None"
| "others_fail_on cr ses body (Sealed g ct pt pad) \<longleftrightarrow> no_key13 cr ses body (Some (g, ses_algorithm ses))"
| "others_fail_on cr ses body (Sealed12 ct pt nonce) \<longleftrightarrow>
     no_key13 cr ses body None \<and> no_key12 cr ses ct body (Some (ses_algorithm ses))"
| "others_fail_on cr ses body m \<longleftrightarrow> True"

definition other_keys_fail :: "crypto \<Rightarrow> session \<Rightarrow> bool" where
  "other_keys_fail cr ses \<longleftrightarrow>
     (\<forall>j < length (ses_records ses). others_fail_on cr ses (nth_body cr ses j) (ses_records ses ! j))"

text \<open>
  A record fits the length field, has a content type, and is sealed under keys the key log has the secret of; a client
  hello has the client random, with nothing sealed before it, and a server hello has the server random. A TLS 1.2 record needs the
  server random known from the start or from the server's hello.
\<close>

fun sent_ok :: "crypto \<Rightarrow> session \<Rightarrow> sent \<Rightarrow> bool" where
  "sent_ok cr ses (Client_Hello hello) \<longleftrightarrow>
     length hello < 65536 \<and> client_random_from_client_hello hello = Some (ses_random ses) \<and> (\<forall>k. ses_seq ses k = 0)
     \<and> ses_client ses \<and> ses_server_random ses = None"
| "sent_ok cr ses (Server_Hello hello) \<longleftrightarrow>
     length hello < 65536 \<and> (case server_random_from_server_hello hello of
        None \<Rightarrow> False | Some r \<Rightarrow> ses_server_random ses \<in> {None, Some r})"
| "sent_ok cr ses SentCipherSpec \<longleftrightarrow> True"
| "sent_ok cr ses (Clear ct body) \<longleftrightarrow> length body < 65536 \<and> ct \<noteq> 0x14"
| "sent_ok cr ses (Sealed g ct pt pad) \<longleftrightarrow>
     length pt + 1 + pad + 16 < 65536 \<and> ct \<noteq> 0 \<and>
     (case ses_secret ses g of
        None \<Rightarrow> False | Some secret \<Rightarrow> derive13 cr secret (ses_algorithm ses) = Some (sk_traffic (ses_keys ses) g))"
| "sent_ok cr ses (Sealed12 ct pt nonce) \<longleftrightarrow>
     8 + length pt + 16 < 65536 \<and> ct \<noteq> 0x14 \<and> length nonce = 8 \<and> length (ses_random ses) = 32
     \<and> ses_algorithm ses \<noteq> ChaCha20Poly1305 \<and>
     (case (ses_master ses, ses_server_random ses) of
        (Some ms, Some sr) \<Rightarrow> sk_master (ses_keys ses) = derive12 cr ms (ses_random ses) sr (ses_algorithm ses) (ses_client ses)
      | _ \<Rightarrow> False)"

fun is_hello :: "sent \<Rightarrow> bool" where
  "is_hello (Client_Hello hello) = True"
| "is_hello (Server_Hello hello) = True"
| "is_hello m = False"

definition opens_with_hello :: "session \<Rightarrow> bool" where
  "opens_with_hello ses \<longleftrightarrow> list_ex is_hello (take 1 (ses_records ses))"

text \<open>What the hypotheses on the sender come to; a hello can only be the first record.\<close>

definition session_ok :: "crypto \<Rightarrow> session \<Rightarrow> bool" where
  "session_ok cr ses \<longleftrightarrow>
     aead_inverts cr \<and> (\<forall>m \<in> set (ses_records ses). sent_ok cr ses m)
     \<and> (\<forall>m \<in> set (drop 1 (ses_records ses)). \<not> is_hello m) \<and> other_keys_fail cr ses"

lemma sent_ok_length:
  assumes "aead_inverts cr" and "sent_ok cr ses m"
  shows "length (sealed_body cr (ses_keys ses) q m) = body_len m" "body_len m < 65536"
proof -
  have "length (sealed_body cr (ses_keys ses) q m) = body_len m \<and> body_len m < 65536"
  proof (cases m)
    case (Sealed g ct pt pad)
    then obtain secret where "derive13 cr secret (ses_algorithm ses) = Some (sk_traffic (ses_keys ses) g)"
        "length pt + 1 + pad + 16 < 65536"
      using assms(2) by (auto split: option.splits)
    moreover from this have k: "keys13_ok (sk_traffic (ses_keys ses) g)" using derive13_ok by blast
    ultimately show ?thesis
      using assms(1) length_nonce_for13 [OF k, of "q (Counter13 g)"]
      by (simp add: Sealed encrypt_record13_def aead_inverts_def keys13_ok_def)
  next
    case (Sealed12 ct pt nonce)
    then obtain ms sr where k: "sk_master (ses_keys ses) = derive12 cr ms (ses_random ses) sr (ses_algorithm ses) (ses_client ses)"
        "ses_algorithm ses \<noteq> ChaCha20Poly1305" "length nonce = 8" "8 + length pt + 16 < 65536"
      using assms(2) by (auto split: option.splits)
    from tls12_opens [OF assms(1) k(2,3), of ms "ses_random ses" sr "ses_client ses" "q Counter12" ct pt]
    show ?thesis using k by (auto simp: Sealed12)
  qed (use assms(2) in simp_all)
  then show "length (sealed_body cr (ses_keys ses) q m) = body_len m" "body_len m < 65536" by simp_all
qed

lemma length_sealed_record:
  "aead_inverts cr \<Longrightarrow> sent_ok cr ses m \<Longrightarrow> length (sealed_record cr (ses_keys ses) q m) = 5 + body_len m"
  using sent_ok_length(1) by (simp add: sealed_record_def)

lemma length_sealed_stream:
  "aead_inverts cr \<Longrightarrow> \<forall>m \<in> set ms. sent_ok cr ses m \<Longrightarrow> length (sealed_stream cr (ses_keys ses) q ms) = wire_len ms"
  by (induction ms arbitrary: q) (simp_all add: length_sealed_record)

lemma sealed_stream_drop:
  "aead_inverts cr \<Longrightarrow> \<forall>m \<in> set ms. sent_ok cr ses m \<Longrightarrow>
     drop (wire_len (take j ms)) (sealed_stream cr (ses_keys ses) q ms)
       = sealed_stream cr (ses_keys ses) (fold bump (take j ms) q) (drop j ms)"
proof (induction ms arbitrary: q j)
  case (Cons m ms)
  then show ?case by (cases j) (simp_all add: length_sealed_record)
qed simp

text \<open>The front of a stream of such records, as \<open>split_record\<close> sees it.\<close>

lemma split_record_header:
  "split_record ([t, a, b, h, l] @ bs) =
     (if length bs < unat (u16_of_be h l) then None
      else Some (t, take (unat (u16_of_be h l)) bs, drop (unat (u16_of_be h l)) bs))"
  by (simp add: split_record_def Let_def take_Cons' drop_Cons')

lemma split_record_short: "length bs < 5 \<Longrightarrow> split_record bs = None"
  by (simp add: split_record_def)

lemma split_record_length: "split_record bs = Some (ct, body, rest) \<Longrightarrow> length bs = 5 + length body + length rest"
  by (auto simp: split_record_def Let_def split: if_splits)

lemma split_sealed:
  assumes "aead_inverts cr" and "sent_ok cr ses m"
  shows "split_record (take n (sealed_stream cr (ses_keys ses) q (m # ms))) =
    (if 5 + body_len m \<le> n
     then Some (outer_type m, sealed_body cr (ses_keys ses) q m,
            take (n - (5 + body_len m)) (sealed_stream cr (ses_keys ses) (bump m q) ms))
     else None)"
proof (cases "n < 5")
  case True
  then have "length (take n (sealed_stream cr (ses_keys ses) q (m # ms))) < 5" by (simp del: sealed_stream.simps)
  then show ?thesis using True by (simp add: split_record_short del: sealed_stream.simps)
next
  case False
  let ?b = "sealed_body cr (ses_keys ses) q m" and ?rest = "sealed_stream cr (ses_keys ses) (bump m q) ms"
  obtain h l where hl: "be_u16 (of_nat (body_len m)) = [h, l]"
    using length_be(1) [of "of_nat (body_len m)"]
    by (metis (no_types, lifting) length_0_conv length_Suc_conv numeral_2_eq_2)
  have len: "unat (u16_of_be h l) = body_len m"
    using u16_of_be_be [of "of_nat (body_len m)"] sent_ok_length(2) [OF assms] by (simp add: hl unat_of_nat)
  have b: "length ?b = body_len m" by (rule sent_ok_length(1) [OF assms])
  obtain k where n: "n = 5 + k" using False by (metis le_Suc_ex not_less)
  have s: "sealed_stream cr (ses_keys ses) q (m # ms) = [outer_type m, 3, legacy_minor m, h, l] @ ?b @ ?rest"
    by (simp add: sealed_record_def hl)
  have t: "take n (sealed_stream cr (ses_keys ses) q (m # ms)) = [outer_type m, 3, legacy_minor m, h, l] @ take k (?b @ ?rest)"
    unfolding s n by (subst take_append) simp
  show ?thesis
    unfolding t split_record_header len using b n by (cases "body_len m \<le> k") auto
qed

subsection \<open>The decryption state\<close>

text \<open>The decryption state is ready for the session's record number \<open>j\<close>.\<close>

definition keys_ready :: "crypto \<Rightarrow> session \<Rightarrow> bool \<Rightarrow> nat \<Rightarrow> connection_state \<Rightarrow> bool" where
  "keys_ready cr ses d j st \<longleftrightarrow>
     ses_client ses = d \<and> client_random st = ses_random ses
     \<and> (\<forall>k. seq_counter st d k = seq_at ses j k)
     \<and> (\<forall>g alg keys. key_cache g (direction13 d st) alg = Some keys \<longrightarrow>
          (\<exists>secret. ses_secret ses g = Some secret \<and> derive13 cr secret alg = Some keys))
     \<and> (\<forall>alg keys. keys12 (direction12 d st) alg = Some keys \<longrightarrow>
          (\<exists>ms sr. ses_master ses = Some ms \<and> server_random st = Some sr \<and> keys = derive12 cr ms (ses_random ses) sr alg d))"

definition state_ready :: "crypto \<Rightarrow> session \<Rightarrow> bool \<Rightarrow> nat \<Rightarrow> connection_state \<Rightarrow> bool" where
  "state_ready cr ses d j st \<longleftrightarrow>
     keys_ready cr ses d j st \<and> (d \<or> server_random st \<noteq> None)
     \<and> (ses_server_random ses = None \<or> server_random st = ses_server_random ses)"

text \<open>
  The same of the state a connection has or lacks. Before the client's hello there is none; before the server's, the server random
  is not known.
\<close>

fun awaits :: "crypto \<Rightarrow> session \<Rightarrow> bool \<Rightarrow> connection_state option \<Rightarrow> sent \<Rightarrow> bool" where
  "awaits cr ses d cs (Client_Hello hello) \<longleftrightarrow> d \<and> cs = None"
| "awaits cr ses d cs (Server_Hello hello) \<longleftrightarrow>
     \<not> d \<and> (case cs of None \<Rightarrow> False | Some st \<Rightarrow> keys_ready cr ses d 0 st \<and> server_random st = None)"
| "awaits cr ses d cs m \<longleftrightarrow> False"

definition conn_ready :: "crypto \<Rightarrow> session \<Rightarrow> bool \<Rightarrow> nat \<Rightarrow> connection_state option \<Rightarrow> bool" where
  "conn_ready cr ses d j cs \<longleftrightarrow>
     (if j = 0 \<and> opens_with_hello ses then awaits cr ses d cs (ses_records ses ! 0)
      else (case cs of None \<Rightarrow> False | Some st \<Rightarrow> state_ready cr ses d j st))"

lemma seq_counter_simps [simp]:
  "seq_counter cs d (Counter13 g) = seq_of g (direction13 d cs)" "seq_counter cs d Counter12 = seq12 (direction12 d cs)"
  by (simp_all add: seq_counter_def)

lemma keys_ready_coherent:
  assumes "secrets_known ses d kl"
  shows "keys_ready cr ses d j st \<longleftrightarrow>
     ses_client ses = d \<and> client_random st = ses_random ses
     \<and> (\<forall>g. seq_of g (direction13 d st) = seq_at ses j (Counter13 g)) \<and> seq12 (direction12 d st) = seq_at ses j Counter12
     \<and> coherent13 cr kl (ses_random ses) d (direction13 d st)
     \<and> coherent12 cr kl (ses_random ses) (server_random st) d (direction12 d st)"
proof -
  have "(\<forall>k. seq_counter st d k = seq_at ses j k) \<longleftrightarrow>
      (\<forall>g. seq_of g (direction13 d st) = seq_at ses j (Counter13 g)) \<and> seq12 (direction12 d st) = seq_at ses j Counter12"
    by (metis counter.exhaust seq_counter_simps)
  then show ?thesis using assms by (simp add: keys_ready_def coherent13_def coherent12_def secrets_known_def)
qed

lemma first_success_only:
  assumes "x \<in> set xs" and "f x = Some y" and "\<And>z. z \<in> set xs \<Longrightarrow> z \<noteq> x \<Longrightarrow> f z = None"
  shows "first_success f xs = Some y"
  using assms
proof (induction xs)
  case (Cons z zs)
  show ?case
  proof (cases "z = x")
    case False
    then have "f z = None" using Cons.prems(3) by simp
    then show ?thesis using Cons False by simp
  qed (use Cons.prems(2) in simp)
qed simp

lemma first_success_none: "(\<And>z. z \<in> set xs \<Longrightarrow> f z = None) \<Longrightarrow> first_success f xs = None"
  by (induction xs) simp_all

text \<open>The attempts that fail, and the one that does not.\<close>

lemma attempt13_fails:
  assumes kl: "secrets_known ses d kl" and no: "no_key13 cr ses body except" and ne: "Some (g, alg) \<noteq> except"
  shows "attempt13 cr kl (ses_random ses) d seqs body (g, alg) = None"
proof (cases "ses_secret ses g")
  case None
  then show ?thesis using kl by (simp add: attempt13_def secrets_known_def)
next
  case sec: (Some secret)
  show ?thesis
  proof (cases "derive13 cr secret alg")
    case None
    then show ?thesis using kl sec by (simp add: attempt13_def secrets_known_def)
  next
    case keys: (Some keys)
    have "aead_open cr alg (rk_key keys) (nonce_for13 keys (seqs g)) (record_aad (length body)) body = None"
      using no ne sec keys unfolding no_key13_def by blast
    moreover have "rk_algorithm keys = alg" using derive13_ok [OF keys] by simp
    ultimately show ?thesis using kl sec keys by (simp add: attempt13_def secrets_known_def decrypt_record13_def)
  qed
qed

lemma attempt12_fails:
  assumes "no_key12 cr ses ct body except" and "alg \<in> set TLS12_ALGORITHMS" and "Some alg \<noteq> except"
    and "ses_master ses = Some ms" and "ses_server_random ses \<in> {None, Some sr}" and "d = ses_client ses" and "24 \<le> length body"
  shows "attempt12 cr ms (ses_random ses) sr d q ct body alg = None"
proof -
  have "isl (decrypt_record12 cr (derive12 cr ms (ses_random ses) sr alg d) q ct (take 8 body) (drop 8 body))"
    using assms unfolding no_key12_def by blast
  then show ?thesis by (auto simp: attempt12_def isl_def)
qed

lemma session_record:
  assumes "session_ok cr ses" and "j < length (ses_records ses)"
  shows "sent_ok cr ses (ses_records ses ! j)" "aead_inverts cr"
    "others_fail_on cr ses (nth_body cr ses j) (ses_records ses ! j)"
  using assms nth_mem [OF assms(2)] by (auto simp: session_ok_def other_keys_fail_def)

lemma seq_at_Suc: "j < length (ses_records ses) \<Longrightarrow> seq_at ses (Suc j) = bump (ses_records ses ! j) (seq_at ses j)"
  by (simp add: seq_at_def take_Suc_conv_app_nth)

subsection \<open>Decrypting a record of the session\<close>

lemma decrypt_sealed:
  assumes ok: "session_ok cr ses" and kl: "secrets_known ses d kl" and j: "j < length (ses_records ses)"
    and m: "ses_records ses ! j = Sealed g ct pt pad" and st: "state_ready cr ses d j st"
  obtains rc st' where "decrypt cr kl d oct (nth_body cr ses j) st = (Inr rc, st')"
    "dr_plaintext rc = pt" "dr_content_type rc = ct" "state_ready cr ses d (Suc j) st'"
proof -
  let ?dir = "direction13 d st" and ?body = "nth_body cr ses j" and ?rnd = "ses_random ses"
  let ?qs = "\<lambda>g. seq_at ses j (Counter13 g)"
  have s: "keys_ready cr ses d j st" using st by (simp add: state_ready_def)
  note s = s [unfolded keys_ready_coherent [OF kl]]
  note rec = session_record [OF ok j, unfolded m others_fail_on.simps]
  obtain secret where k: "ses_secret ses g = Some secret"
      "derive13 cr secret (ses_algorithm ses) = Some (sk_traffic (ses_keys ses) g)" and ct: "ct \<noteq> 0"
    using rec(1) by (auto split: option.splits)
  obtain res dir where t: "try_generations13 cr kl ?rnd d (record_aad (length ?body)) ?body
      [Handshake, Application] ?dir = (res, dir)" by (rule prod.exhaust)
  let ?rc = "\<lparr>dr_plaintext = pt, dr_content_type = ct, dr_algorithm = ses_algorithm ses, dr_version = Tls13Version g\<rparr>"
  have "decrypt_record13 cr (sk_traffic (ses_keys ses) g) (?qs g) (record_aad (length ?body)) ?body = Inr (pt, ct)"
    unfolding nth_body_def m sent_ok_length(1) [OF rec(2,1)]
    unfolding sealed_body.simps by (rule tls13_record_round_trip [OF rec(2) k(2) ct])
  then have a: "attempt13 cr kl ?rnd d ?qs ?body (g, ses_algorithm ses) = Some ?rc"
    using k kl by (simp add: attempt13_def secrets_known_def)
  have "(g, ses_algorithm ses) \<in> set (List.product [Handshake, Application] ALL_ALGORITHMS)"
    by (cases g; cases "ses_algorithm ses") (simp_all add: ALL_ALGORITHMS_def)
  then have f: "first_success (attempt13 cr kl ?rnd d ?qs ?body) (List.product [Handshake, Application] ALL_ALGORITHMS) = Some ?rc"
  proof (rule first_success_only [of _ _ _ ?rc])
    show "attempt13 cr kl ?rnd d ?qs ?body z = None" if "z \<noteq> (g, ses_algorithm ses)" for z
      using attempt13_fails [OF kl rec(3)] that by (cases z) auto
  qed (rule a)
  have r: "coherent13 cr kl ?rnd d dir \<and> res = Inr ?rc"
    using try_generations13_reference [OF _ _ t, of ?qs] s f by (auto split: sum.splits)
  have "seq_of g' dir = seq_at ses (Suc j) (Counter13 g')" for g'
    using try_generations13_seq [OF t] r s seq_at_Suc [OF j] m by auto
  then have "keys_ready cr ses d (Suc j) (set_direction13 d dir st)"
    using s r seq_at_Suc [OF j] m unfolding keys_ready_coherent [OF kl] by auto
  then have "state_ready cr ses d (Suc j) (set_direction13 d dir st)" using st by (simp add: state_ready_def)
  moreover have "decrypt cr kl d oct ?body st = (Inr ?rc, set_direction13 d dir st)"
    using t s r by (simp add: decrypt_def decrypt_tls13_def)
  ultimately show thesis using that [of ?rc] by simp
qed

text \<open>What no TLS 1.3 key opens is left to TLS 1.2, with the state as ready as before.\<close>

lemma decrypt_past_tls13:
  assumes kl: "secrets_known ses d kl" and no: "no_key13 cr ses body None" and st: "state_ready cr ses d j st"
  obtains st1 where "decrypt cr kl d ct body st = decrypt_tls12 cr kl d ct body st1" "state_ready cr ses d j st1"
proof -
  let ?rnd = "ses_random ses" and ?qs = "\<lambda>g. seq_at ses j (Counter13 g)"
  have s: "keys_ready cr ses d j st" using st by (simp add: state_ready_def)
  note s = s [unfolded keys_ready_coherent [OF kl]]
  obtain res dir where t: "try_generations13 cr kl ?rnd d (record_aad (length body)) body
      [Handshake, Application] (direction13 d st) = (res, dir)" by (rule prod.exhaust)
  have "first_success (attempt13 cr kl ?rnd d ?qs body) (List.product [Handshake, Application] ALL_ALGORITHMS) = None"
    using attempt13_fails [OF kl no] by (intro first_success_none) auto
  then obtain e where r: "coherent13 cr kl ?rnd d dir" "res = Inl e"
    using try_generations13_reference [OF _ _ t, of ?qs] s by (auto split: sum.splits)
  have "seq_of g dir = ?qs g" for g using try_generations13_seq [OF t] r s by auto
  then have "keys_ready cr ses d j (set_direction13 d dir st)"
    using s r(1) unfolding keys_ready_coherent [OF kl] by auto
  then have "state_ready cr ses d j (set_direction13 d dir st)" using st by (simp add: state_ready_def)
  moreover have "decrypt cr kl d ct body st = decrypt_tls12 cr kl d ct body (set_direction13 d dir st)"
    using t s r(2) by (simp add: decrypt_def decrypt_tls13_def)
  ultimately show thesis using that by blast
qed

lemma state_ready_direction12:
  assumes kl: "secrets_known ses d kl" and st: "state_ready cr ses d j st"
    and dir: "coherent12 cr kl (ses_random ses) (server_random st) d dir"
    and seq: "seq12 dir = seq_at ses i Counter12" "\<And>g. seq_at ses i (Counter13 g) = seq_at ses j (Counter13 g)"
  shows "state_ready cr ses d i (set_direction12 d dir st)"
proof -
  have "direction12 d (set_direction12 d dir st) = dir" "direction13 d (set_direction12 d dir st) = direction13 d st" by simp_all
  then show ?thesis
    using st dir seq unfolding state_ready_def keys_ready_coherent [OF kl] by auto
qed

lemma decrypt_clear:
  assumes ok: "session_ok cr ses" and kl: "secrets_known ses d kl" and j: "j < length (ses_records ses)"
    and m: "ses_records ses ! j = Clear ct b" and st: "state_ready cr ses d j st"
  obtains e st' where "decrypt cr kl d ct (nth_body cr ses j) st = (Inl e, st')" "state_ready cr ses d (Suc j) st'"
proof -
  let ?body = "nth_body cr ses j"
  note rec = session_record [OF ok j, unfolded m others_fail_on.simps]
  have same: "seq_at ses (Suc j) = seq_at ses j" using seq_at_Suc [OF j] m by simp
  obtain st1 where st1: "decrypt cr kl d ct ?body st = decrypt_tls12 cr kl d ct ?body st1" "state_ready cr ses d j st1"
    using decrypt_past_tls13 [OF kl _ st] rec(3) by blast
  have s: "keys_ready cr ses d j st1" using st1(2) by (simp add: state_ready_def)
  note s = s [unfolded keys_ready_coherent [OF kl]]
  have ready: "state_ready cr ses d (Suc j) st1"
    using st1(2) unfolding state_ready_def keys_ready_def same .
  show thesis
  proof (cases rule: decrypt_tls12_cases [of cr kl d ct ?body st1])
    case (attempt sr ms res dir)
    have ms: "ses_master ses = Some ms" "ses_server_random ses \<in> {None, Some sr}"
      using attempt(3,5) kl s st1(2) by (auto simp: secrets_known_def state_ready_def)
    have "first_success (attempt12 cr ms (ses_random ses) sr d (seq12 (direction12 d st1)) ct ?body) TLS12_ALGORITHMS = None"
    proof (rule first_success_none)
      have d: "d = ses_client ses" and no: "no_key12 cr ses ct ?body None" using s rec(3) by blast+
      show "attempt12 cr ms (ses_random ses) sr d (seq12 (direction12 d st1)) ct ?body z = None" if "z \<in> set TLS12_ALGORITHMS" for z
        using attempt12_fails [OF no that _ ms d attempt(6)] by simp
    qed
    moreover have "coherent12 cr kl (ses_random ses) (Some sr) d (direction12 d st1)" using s attempt(3) by metis
    ultimately have "coherent12 cr kl (ses_random ses) (Some sr) d dir" "\<exists>e. res = Inl e"
      using try_algorithms12_reference [of cr kl "ses_random ses" sr d "direction12 d st1" ms] attempt(2,5) s
      by (auto split: sum.splits)
    moreover from this(2) have "seq12 dir = seq_at ses j Counter12"
      using try_algorithms12_seq [OF attempt(2)] s by auto
    ultimately have "state_ready cr ses d (Suc j) (set_direction12 d dir st1)"
      using state_ready_direction12 [OF kl st1(2), of dir "Suc j"] attempt(3) by (simp add: same)
    then show thesis using that attempt(1) st1(1) \<open>\<exists>e. res = Inl e\<close> by auto
  qed (use that st1(1) ready in auto)
qed

lemma decrypt_sealed12:
  assumes ok: "session_ok cr ses" and kl: "secrets_known ses d kl" and j: "j < length (ses_records ses)"
    and m: "ses_records ses ! j = Sealed12 ct pt nonce" and st: "state_ready cr ses d j st"
  obtains rc st' where "decrypt cr kl d ct (nth_body cr ses j) st = (Inr rc, st')"
    "dr_plaintext rc = pt" "dr_content_type rc = ct" "state_ready cr ses d (Suc j) st'"
proof -
  let ?body = "nth_body cr ses j" and ?alg = "ses_algorithm ses"
  note rec = session_record [OF ok j, unfolded m others_fail_on.simps]
  obtain ms sr where k: "ses_master ses = Some ms" "ses_server_random ses = Some sr"
      "sk_master (ses_keys ses) = derive12 cr ms (ses_random ses) sr ?alg (ses_client ses)"
    and len: "length nonce = 8" "length (ses_random ses) = 32" and alg: "?alg \<noteq> ChaCha20Poly1305"
    using rec(1) by (auto split: option.splits)
  obtain st1 where st1: "decrypt cr kl d ct ?body st = decrypt_tls12 cr kl d ct ?body st1" "state_ready cr ses d j st1"
    using decrypt_past_tls13 [OF kl _ st] rec(3) by blast
  have s: "keys_ready cr ses d j st1" using st1(2) by (simp add: state_ready_def)
  note s = s [unfolded keys_ready_coherent [OF kl]]
  let ?q = "seq_at ses j Counter12"
  let ?rc = "\<lparr>dr_plaintext = pt, dr_content_type = ct, dr_algorithm = ?alg, dr_version = Tls12Version nonce\<rparr>"
  obtain c where c: "encrypt_record12 cr (derive12 cr ms (ses_random ses) sr ?alg (ses_client ses)) ?q ct nonce pt = Some c"
      "decrypt_record12 cr (derive12 cr ms (ses_random ses) sr ?alg (ses_client ses)) ?q ct nonce c = Inr pt"
      "length c = length pt + 16"
    using tls12_opens [OF rec(2) alg len(1)] by blast
  have body: "?body = nonce @ c" by (simp add: nth_body_def m k(3) c(1))
  have "?alg \<in> set TLS12_ALGORITHMS" using alg by (cases ?alg) (simp_all add: TLS12_ALGORITHMS_def)
  then have f: "first_success (attempt12 cr ms (ses_random ses) sr d ?q ct ?body) TLS12_ALGORITHMS = Some ?rc"
  proof (rule first_success_only [of _ _ _ ?rc])
    show "attempt12 cr ms (ses_random ses) sr d ?q ct ?body ?alg = Some ?rc"
      using c(2) len(1) s by (simp add: attempt12_def body)
    show "attempt12 cr ms (ses_random ses) sr d ?q ct ?body z = None" if "z \<in> set TLS12_ALGORITHMS" "z \<noteq> ?alg" for z
      using attempt12_fails [of cr ses ct ?body "Some ?alg" z ms sr d] rec(3) that k(1,2) s body len(1) c(3) by auto
  qed
  have srv: "server_random st1 = Some sr" using st1(2) k(2) by (simp add: state_ready_def)
  show thesis
  proof (cases rule: decrypt_tls12_cases [of cr kl d ct ?body st1])
    case no_keys
    then show thesis using srv s len(2) k(1) kl by (auto simp: secrets_known_def)
  next
    case short
    then show thesis using body len(1) c(3) by simp
  next
    case (attempt sr' ms' res dir)
    have eq: "sr' = sr" "ms' = ms" using attempt(3,5) srv s k(1) kl by (auto simp: secrets_known_def)
    have "coherent12 cr kl (ses_random ses) (Some sr) d (direction12 d st1)" using s srv by metis
    then have r: "coherent12 cr kl (ses_random ses) (Some sr) d dir" "res = Inr ?rc"
      using try_algorithms12_reference [of cr kl "ses_random ses" sr d "direction12 d st1" ms] attempt(2,5) s f
      unfolding eq by (auto split: sum.splits)
    have next_seq: "seq_at ses (Suc j) = (seq_at ses j)(Counter12 := ?q + 1)" using seq_at_Suc [OF j] m by simp
    have "seq12 dir = ?q + 1" using try_algorithms12_seq [OF attempt(2)] r(2) s by auto
    then have "state_ready cr ses d (Suc j) (set_direction12 d dir st1)"
      using state_ready_direction12 [OF kl st1(2), of dir "Suc j"] r(1) srv by (simp add: next_seq)
    then show thesis using that [of ?rc] attempt(1) st1(1) r(2) by simp
  qed
qed

end
