(* ===== verification/Delivery_Correct.thy ===== *)
theory Delivery_Correct
  imports Delivery
begin

text \<open>
  The steps of a run, for one direction of one connection: key log reads keep the secrets known, traffic of the other
  direction and of other connections leaves the direction's state, and draining the direction emits the plaintexts of
  the complete records at its front.
\<close>

subsection \<open>The key log\<close>

text \<open>Every version of the key log file that a call reads gives the session's secrets.\<close>

definition reads_known :: "hex_decoder \<Rightarrow> session \<Rightarrow> bool \<Rightarrow> keylog_env \<times> keylog_env \<Rightarrow> bool" where
  "reads_known hx ses d envs \<longleftrightarrow>
     (\<forall>env \<in> {fst envs, snd envs}. case read_result env of
        Inl _ \<Rightarrow> True | Inr t \<Rightarrow> secrets_known ses d (keylog_parse hx t))"

lemma poll_known:
  assumes "secrets_known ses d (ks_current ks)" and "reads_known hx ses d envs"
  shows "secrets_known ses d (ks_current (poll hx (fst envs) ks))"
    "secrets_known ses d (ks_current (poll_after_miss hx (snd envs) ks))"
proof -
  have "secrets_known ses d (ks_current (ks_apply hx (op, env) ks))" if "env \<in> {fst envs, snd envs}" for op env
    using ks_apply_current [of hx op env ks] assms that by (auto simp: reads_known_def split: sum.splits)
  from this [of "fst envs" Poll] this [of "snd envs" PollAfterMiss]
  show "secrets_known ses d (ks_current (poll hx (fst envs) ks))"
    "secrets_known ses d (ks_current (poll_after_miss hx (snd envs) ks))" by simp_all
qed

lemma set_tail_capped_keylog [simp]: "oc_keylog (set_tail_capped key d bs orc) = oc_keylog orc"
  by (auto simp: set_tail_capped_def Let_def split: option.splits)

lemma dissect_and_emit_keylog:
  "dissect_and_emit w key d pt ts orc = Inr (orc', out) \<Longrightarrow> oc_keylog orc' = oc_keylog orc"
proof (cases "get_conn key orc")
  case (Some c)
  assume e: "dissect_and_emit w key d pt ts orc = Inr (orc', out)"
  show ?thesis using Some e by (cases rule: dissect_and_emit_cases [of key orc c w d pt ts]) auto
qed (simp add: dissect_and_emit_def)

lemma dissect_and_emit_state:
  assumes "get_conn key orc = Some c" and "dissect_and_emit w key d pt ts orc = Inr (orc', out)"
  shows "\<exists>c'. get_conn key orc' = Some c' \<and> conn_state c' = conn_state c"
proof -
  have capped: "\<exists>c'. get_conn key (set_tail_capped key d bs x) = Some c' \<and> conn_state c' = conn_state c"
    if "get_conn key x = Some (set_tail d [] c)" for x :: "'a orchestrator" and bs
    using set_tail_capped_eq [OF that] by simp
  show ?thesis
    using assms by (cases rule: dissect_and_emit_cases [of key orc c w d pt ts]) (auto simp: capped)
qed

lemma handle_record_known:
  assumes "secrets_known ses d (ks_current (oc_keylog orc))" and "reads_known (w_hex w) ses d envs"
    and hr: "handle_record w key e ts envs ct body conn orc = Inr (orc', out)"
  shows "secrets_known ses d (ks_current (oc_keylog orc'))"
proof (cases rule: handle_record_cases [of ct w key e ts envs body conn orc])
  case (nokey st st' kl orc1)
  then show ?thesis using hr poll_known(1) [OF assms(1,2)] poll_known(2) [OF poll_known(1) [OF assms(1,2)] assms(2)] by auto
next
  case (decrypted st st' kl rc orc1)
  let ?o = "orc1\<lparr>tls_records_decrypted := tls_records_decrypted orc1 + 1\<rparr>"
  have "oc_keylog orc' = kl"
    using hr decrypted(5,6) dissect_and_emit_keylog [of w key e "dr_plaintext rc" ts ?o orc' out] by (auto split: if_splits)
  then show ?thesis using poll_known(1) [OF assms(1,2)] decrypted(3) by simp
qed (use assms poll_known(1) [OF assms(1,2)] in auto)

subsection \<open>The other direction\<close>

text \<open>What a record of the other direction leaves of the decryption state.\<close>

lemma decrypt_other_direction:
  assumes "decrypt cr kl e ct body st = (res, st')" and "e \<noteq> d"
  shows "direction13 d st' = direction13 d st \<and> direction12 d st' = direction12 d st
    \<and> client_random st' = client_random st \<and> server_random st' = server_random st"
proof -
  obtain res1 st1 where d13: "decrypt_tls13 cr kl e body st = (res1, st1)" by (rule prod.exhaust)
  then have s1: "direction13 d st1 = direction13 d st \<and> direction12 d st1 = direction12 d st
      \<and> client_random st1 = client_random st \<and> server_random st1 = server_random st"
    using assms(2) by (auto simp: decrypt_tls13_def split: prod.splits)
  show ?thesis
  proof (cases res1)
    case (Inl err)
    then have "decrypt_tls12 cr kl e ct body st1 = (res, st')" using assms(1) d13 by (simp add: decrypt_def)
    then show ?thesis using s1 assms(2)
      by (cases rule: decrypt_tls12_cases [of cr kl e ct body st1]) auto
  qed (use assms(1) d13 s1 in \<open>simp add: decrypt_def\<close>)
qed

lemma handle_record_server_stateless:
  "conn_state conn = None \<Longrightarrow> handle_record w key False ts envs ct body conn orc = Inr (orc', out) \<Longrightarrow>
     get_conn k orc' = get_conn k orc"
  by (auto simp: handle_record_def Let_def get_conn_def split: if_splits)

definition same_direction :: "bool \<Rightarrow> connection_state \<Rightarrow> connection_state \<Rightarrow> bool" where
  "same_direction d st st' \<longleftrightarrow>
     direction13 d st' = direction13 d st \<and> direction12 d st' = direction12 d st \<and> client_random st' = client_random st
     \<and> (server_random st' = server_random st \<or> d \<and> server_random st = None)"

lemma same_direction_keys_ready:
  assumes "same_direction d st st'" and "keys_ready cr ses d j st"
  shows "keys_ready cr ses d j st'"
proof -
  have "seq_counter st' d k = seq_counter st d k" for k
    using assms(1) by (cases k) (simp_all add: same_direction_def)
  then show ?thesis using assms by (fastforce simp: same_direction_def keys_ready_def)
qed

lemma same_direction_ready:
  assumes "same_direction d st st'" and "state_ready cr ses d j st"
  shows "state_ready cr ses d j st'"
  using assms same_direction_keys_ready [OF assms(1)] by (auto simp: same_direction_def state_ready_def)

lemma same_direction_conn_ready:
  "same_direction d st st' \<Longrightarrow> conn_ready cr ses d j (Some st) \<Longrightarrow> conn_ready cr ses d j (Some st')"
  using same_direction_ready [of d st st' cr ses j] same_direction_keys_ready [of d st st' cr ses 0]
  by (cases "ses_records ses ! 0") (auto simp: conn_ready_def same_direction_def split: if_splits)

lemma handle_record_other_state:
  assumes g: "get_conn key orc = Some conn" and st: "conn_state conn = Some st"
    and ne: "e \<noteq> d" and hr: "handle_record w key e ts envs ct body conn orc = Inr (orc', out)"
  shows "\<exists>c' st'. get_conn key orc' = Some c' \<and> conn_state c' = Some st' \<and> same_direction d st st'"
proof -
  have keep: "same_direction d st st'" if "decrypt (w_crypto w) kl e ct body st = (res, st')" for kl res st'
    using decrypt_other_direction [OF that ne] by (simp add: same_direction_def)
  have refl: "same_direction d st st" by (simp add: same_direction_def)
  show ?thesis
  proof (cases rule: handle_record_cases [of ct w key e ts envs body conn orc])
    case (hello st1 orc1)
    then obtain rnd where "st1 = st\<lparr>server_random := Some rnd\<rparr>" "\<not> e" "server_random st = None" using st by auto
    then have "same_direction d st st1" using ne by (simp add: same_direction_def direction13_def direction12_def)
    then show ?thesis using hello hr by auto
  next
    case (decrypted st1 st1' kl rc orc1)
    let ?o = "orc1\<lparr>tls_records_decrypted := tls_records_decrypted orc1 + 1\<rparr>"
    have "get_conn key ?o = Some (conn\<lparr>conn_state := Some st1'\<rparr>)" using decrypted(5) by simp
    note em = dissect_and_emit_state [OF this, of w e "dr_plaintext rc" ts orc' out]
    have "\<exists>c'. get_conn key orc' = Some c' \<and> conn_state c' = Some st1'"
      using decrypted(5,6) hr em by (auto split: if_splits)
    then show ?thesis using keep [of "ks_current kl" "Inr rc" st1'] decrypted(2,4) st by auto
  qed (use g st hr keep refl in auto)
qed

lemma handle_record_other_direction:
  assumes g: "get_conn key orc = Some conn" and ready: "conn_ready cr ses d j (conn_state conn)"
    and ne: "e \<noteq> d" and hr: "handle_record w key e ts envs ct body conn orc = Inr (orc', out)"
  shows "\<exists>c'. get_conn key orc' = Some c' \<and> conn_ready cr ses d j (conn_state c')"
proof (cases "conn_state conn")
  case None
  then have d
    using ready by (cases "ses_records ses ! 0") (simp_all add: conn_ready_def split: if_splits)
  then have "e = False" using ne by simp
  then show ?thesis using g ready handle_record_server_stateless [OF None hr [unfolded \<open>e = False\<close>], of key] by simp
next
  case (Some st)
  then show ?thesis
    using handle_record_other_state [OF g Some ne hr] same_direction_conn_ready ready by fastforce
qed

text \<open>Draining keeps the secrets known; draining the other direction keeps this one ready.\<close>

lemma drain_known:
  assumes "get_conn key orc = Some c" and "wf_reassembler (reassembler_for e c)"
    and "drain_records w key e ts envs i orc out = Inr (orc', out')"
    and reads: "\<And>i. reads_known (w_hex w) ses d (envs i)"
  shows "secrets_known ses d (ks_current (oc_keylog orc)) \<Longrightarrow> secrets_known ses d (ks_current (oc_keylog orc'))"
  using assms(1-3)
proof (induction rule: drain_records_rule)
  case (step i orc out c ct body r orc1 msgs c2 orc' out')
  then show ?case using handle_record_known [OF _ reads step(5)] by simp
qed simp

lemma drain_other_direction:
  assumes "get_conn key orc = Some c" and "wf_reassembler (reassembler_for e c)"
    and "drain_records w key e ts envs i orc out = Inr (orc', out')" and "e \<noteq> d"
  shows "conn_ready cr ses d j (conn_state c) \<Longrightarrow>
    \<exists>c'. get_conn key orc' = Some c' \<and> conn_ready cr ses d j (conn_state c')"
  using assms(1-3)
proof (induction rule: drain_records_rule)
  case (step i orc out c ct body r orc1 msgs c2 orc' out')
  have g: "get_conn key (put_conn key (set_reassembler e r c) orc) = Some (set_reassembler e r c)" by simp
  have "conn_ready cr ses d j (conn_state c2)"
    using handle_record_other_direction [OF g _ assms(4) step(5)] step(6,9) by auto
  from step(8) [OF this] show ?case .
qed auto

subsection \<open>The session's direction\<close>

lemma session_ok_records:
  assumes "session_ok cr ses"
  shows "aead_inverts cr" "\<forall>m \<in> set (ses_records ses). sent_ok cr ses m"
    "\<forall>m \<in> set (take j (ses_records ses)). sent_ok cr ses m"
  using assms by (auto simp: session_ok_def dest: in_set_takeD)

lemma hello_first_iff:
  assumes "session_ok cr ses" and "j < length (ses_records ses)"
  shows "is_hello (ses_records ses ! j) \<longleftrightarrow> j = 0 \<and> opens_with_hello ses"
proof (cases j)
  case 0
  then show ?thesis using assms(2) by (cases "ses_records ses") (simp_all add: opens_with_hello_def)
next
  case (Suc k)
  then have "drop 1 (ses_records ses) ! k = ses_records ses ! j" "k < length (drop 1 (ses_records ses))"
    using assms(2) by simp_all
  then have "ses_records ses ! j \<in> set (drop 1 (ses_records ses))" using nth_mem by metis
  then show ?thesis using assms(1) Suc by (auto simp: session_ok_def)
qed

text \<open>The client's hello creates the state, and the server's completes it.\<close>

lemma handle_hello:
  assumes "client_random_from_client_hello body = Some random" and "conn_state conn = None"
    and "handle_record w key True ts envs 0x16 body conn orc = Inr (orc', out)"
  shows "get_conn key orc' = Some (conn\<lparr>conn_state := Some (new_connection random)\<rparr>) \<and> out = []"
  using assms by (auto simp: handle_record_def Let_def)

lemma handle_server_hello:
  assumes "server_random_from_server_hello body = Some random" and "conn_state conn = Some st" and "server_random st = None"
    and "handle_record w key False ts envs 0x16 body conn orc = Inr (orc', out)"
  shows "get_conn key orc' = Some (conn\<lparr>conn_state := Some (st\<lparr>server_random := Some random\<rparr>)\<rparr>) \<and> out = []"
  using assms by (auto simp: handle_record_def Let_def set_server_random_def)

text \<open>A record in the clear moves no sequence number.\<close>

lemma keys_ready_clear:
  assumes "keys_ready cr ses d j st" and "j < length (ses_records ses)"
    and "\<And>q. bump (ses_records ses ! j) q = q"
  shows "keys_ready cr ses d (Suc j) st"
  using assms by (simp add: keys_ready_def seq_at_Suc)

lemma new_connection_ready:
  assumes "\<forall>k. ses_seq ses k = 0" and "ses_client ses" and "ses_server_random ses = None" and "ses_records ses = Client_Hello hello # ms"
  shows "conn_ready cr ses True (Suc 0) (Some (new_connection (ses_random ses)))"
proof -
  let ?st = "new_connection (ses_random ses)"
  have "seq_of g (client_to_server ?st) = 0" "key_cache g (client_to_server ?st) alg = None" for g alg
    by (cases g; simp add: new_connection_def default_direction_def)+
  moreover have "seq12 (tls12_client_to_server ?st) = 0" "keys12 (tls12_client_to_server ?st) alg = None" for alg
    by (simp_all add: new_connection_def default_direction12_def)
  moreover have "seq_counter ?st True k = 0" for k
    using calculation by (cases k) (simp_all add: direction13_def direction12_def)
  ultimately show ?thesis
    using assms by (simp add: conn_ready_def state_ready_def keys_ready_def direction13_def direction12_def seq_at_def)
      (simp add: new_connection_def)
qed

lemma server_hello_ready:
  assumes "keys_ready cr ses d j st" and "server_random st = None"
  shows "keys_ready cr ses d j (st\<lparr>server_random := Some rnd\<rparr>)"
proof -
  have dirs: "direction13 d (st\<lparr>server_random := Some rnd\<rparr>) = direction13 d st"
    "direction12 d (st\<lparr>server_random := Some rnd\<rparr>) = direction12 d st"
    by (simp_all add: direction13_def direction12_def)
  have "seq_counter (st\<lparr>server_random := Some rnd\<rparr>) d k = seq_counter st d k" for k
    by (cases k) (simp_all add: dirs)
  then show ?thesis using assms by (simp add: keys_ready_def dirs)
qed

text \<open>With the randoms known, a record goes to \<open>decrypt\<close>, and what that says is what the direction keeps and emits.\<close>

lemma handle_decrypt:
  assumes st: "conn_state conn = Some st" and srv: "d \<or> server_random st \<noteq> None" and ct: "ct \<noteq> 0x14"
    and dec: "decrypt (w_crypto w) (ks_current (poll (w_hex w) (fst envs) (oc_keylog orc))) d ct body st = (res, st')"
    and hr: "handle_record w key d ts envs ct body conn orc = Inr (orc', out)"
  shows "\<exists>c'. get_conn key orc' = Some c' \<and> conn_state c' = Some st'
    \<and> map dm_tls_app_data out =
        (case res of Inl _ \<Rightarrow> [] | Inr rc \<Rightarrow> if dr_content_type rc = 0x17 then [dr_plaintext rc] else [])"
proof (cases rule: handle_record_cases [of ct w key d ts envs body conn orc])
  case (hello st1 orc1)
  then show ?thesis using st srv by auto
next
  case (decrypted st1 st1' kl' rc orc1)
  let ?o = "orc1\<lparr>tls_records_decrypted := tls_records_decrypted orc1 + 1\<rparr>"
  have same: "st1' = st'" "res = Inr rc" using decrypted(2-4) st(1) dec(1) by auto
  have g: "get_conn key ?o = Some (conn\<lparr>conn_state := Some st'\<rparr>)" using decrypted(5) same by simp
  have hr': "(if dr_content_type rc = 0x17 then dissect_and_emit w key d (dr_plaintext rc) ts ?o else Inr (?o, []))
      = Inr (orc', out)"
    using decrypted(6) hr by simp
  show ?thesis
  proof (cases "dr_content_type rc = 0x17")
    case True
    note em = hr' [unfolded if_P [OF True]]
    obtain c' where "get_conn key orc' = Some c'" "conn_state c' = Some st'"
      using dissect_and_emit_state [OF g em] by auto
    moreover obtain ff where "out = [message_of d (conn\<lparr>conn_state := Some st'\<rparr>) (dr_plaintext rc) ff ts]"
      using dissect_and_emit_message [OF g em] by blast
    ultimately show ?thesis using True same(2) by (simp add: message_of_def)
  qed (use hr' g same(2) in auto)
qed (use st ct dec hr in auto)

text \<open>Each record the sender sent moves the state on, and its application data is emitted.\<close>

lemma conn_ready_state:
  assumes "session_ok cr ses" and "j < length (ses_records ses)" and "conn_ready cr ses d j cs" and "\<not> is_hello (ses_records ses ! j)"
  obtains st where "cs = Some st" "state_ready cr ses d j st" "d \<or> server_random st \<noteq> None"
proof -
  have "\<not> (j = 0 \<and> opens_with_hello ses)" using hello_first_iff [OF assms(1,2)] assms(4) by simp
  then obtain st where "cs = Some st" "state_ready cr ses d j st"
    using assms(3) by (auto simp: conn_ready_def split: option.splits if_splits)
  then show thesis using that by (simp add: state_ready_def)
qed

lemma handle_sealed:
  assumes ok: "session_ok (w_crypto w) ses" and j: "j < length (ses_records ses)"
    and kl: "secrets_known ses d (ks_current (oc_keylog orc))" "reads_known (w_hex w) ses d envs"
    and ready: "conn_ready (w_crypto w) ses d j (conn_state conn)" and c: "get_conn key orc = Some conn"
    and hr: "handle_record w key d ts envs (outer_type (ses_records ses ! j)) (nth_body (w_crypto w) ses j) conn orc
      = Inr (orc', out)"
  shows "\<exists>c'. get_conn key orc' = Some c' \<and> conn_ready (w_crypto w) ses d (Suc j) (conn_state c')
    \<and> map dm_tls_app_data out = app_data (ses_records ses ! j)"
proof -
  note sent = session_record(1) [OF ok j]
  let ?kl = "poll (w_hex w) (fst envs) (oc_keylog orc)"
  have k: "secrets_known ses d (ks_current ?kl)" by (rule poll_known [OF kl])
  show ?thesis
  proof (cases "ses_records ses ! j")
    case (Client_Hello hello)
    then have front: "j = 0" "opens_with_hello ses" using hello_first_iff [OF ok j] by simp_all
    have none: "conn_state conn = None" and d: d
      using ready front Client_Hello by (simp_all add: conn_ready_def)
    obtain ms where ms: "ses_records ses = Client_Hello hello # ms"
      using Client_Hello j front(1) by (cases "ses_records ses") auto
    have "nth_body (w_crypto w) ses j = hello" using Client_Hello by (simp add: nth_body_def)
    then show ?thesis
      using handle_hello [OF _ none, of hello "ses_random ses" w key ts envs orc orc' out] new_connection_ready [OF _ _ _ ms]
        hr Client_Hello d front(1) sent by auto
  next
    case (Server_Hello hello)
    then have front: "j = 0" "opens_with_hello ses" using hello_first_iff [OF ok j] by simp_all
    obtain st where st: "conn_state conn = Some st" "keys_ready (w_crypto w) ses d j st" "server_random st = None" "\<not> d"
      using ready front Server_Hello by (auto simp: conn_ready_def split: option.splits)
    obtain rnd where rnd: "server_random_from_server_hello hello = Some rnd" "ses_server_random ses \<in> {None, Some rnd}"
      using sent Server_Hello by (auto split: option.splits)
    have "keys_ready (w_crypto w) ses d (Suc j) (st\<lparr>server_random := Some rnd\<rparr>)"
      using keys_ready_clear [OF server_hello_ready [OF st(2,3)] j] Server_Hello by simp
    then have "conn_ready (w_crypto w) ses d (Suc j) (Some (st\<lparr>server_random := Some rnd\<rparr>))"
      using rnd(2) by (auto simp: conn_ready_def state_ready_def)
    moreover have "nth_body (w_crypto w) ses j = hello" using Server_Hello by (simp add: nth_body_def)
    ultimately show ?thesis
      using handle_server_hello [OF rnd(1) st(1,3), of w key ts envs orc orc' out] hr Server_Hello st(4) by auto
  next
    case SentCipherSpec
    then obtain st where st: "conn_state conn = Some st" "state_ready (w_crypto w) ses d j st"
      using conn_ready_state [OF ok j ready] by auto
    then have "state_ready (w_crypto w) ses d (Suc j) st"
      using keys_ready_clear [of "w_crypto w" ses d j st] SentCipherSpec j by (simp add: state_ready_def)
    then show ?thesis
      using st(1) c hr SentCipherSpec
      by (cases rule: handle_record_cases [of "0x14" w key d ts envs "nth_body (w_crypto w) ses j" conn orc])
        (auto simp: conn_ready_def)
  next
    case (Clear ct b)
    obtain st where st: "conn_state conn = Some st" "state_ready (w_crypto w) ses d j st" "d \<or> server_random st \<noteq> None"
      using conn_ready_state [OF ok j ready] Clear by auto
    obtain e st' where "decrypt (w_crypto w) (ks_current ?kl) d ct (nth_body (w_crypto w) ses j) st = (Inl e, st')"
        "state_ready (w_crypto w) ses d (Suc j) st'" by (rule decrypt_clear [OF ok k j Clear st(2)])
    then show ?thesis
      using handle_decrypt [OF st(1,3) _ _ hr] Clear sent by (force simp: conn_ready_def)
  next
    case (Sealed g ct pt pad)
    obtain st where st: "conn_state conn = Some st" "state_ready (w_crypto w) ses d j st" "d \<or> server_random st \<noteq> None"
      using conn_ready_state [OF ok j ready] Sealed by auto
    obtain rc st' where "decrypt (w_crypto w) (ks_current ?kl) d 0x17 (nth_body (w_crypto w) ses j) st = (Inr rc, st')"
        "dr_plaintext rc = pt" "dr_content_type rc = ct" "state_ready (w_crypto w) ses d (Suc j) st'"
      by (rule decrypt_sealed [OF ok k j Sealed st(2)])
    then show ?thesis
      using handle_decrypt [OF st(1,3) _ _ hr] Sealed by (force simp: conn_ready_def)
  next
    case (Sealed12 ct pt nonce)
    obtain st where st: "conn_state conn = Some st" "state_ready (w_crypto w) ses d j st" "d \<or> server_random st \<noteq> None"
      using conn_ready_state [OF ok j ready] Sealed12 by auto
    obtain rc st' where "decrypt (w_crypto w) (ks_current ?kl) d ct (nth_body (w_crypto w) ses j) st = (Inr rc, st')"
        "dr_plaintext rc = pt" "dr_content_type rc = ct" "state_ready (w_crypto w) ses d (Suc j) st'"
      by (rule decrypt_sealed12 [OF ok k j Sealed12 st(2)])
    then show ?thesis
      using handle_decrypt [OF st(1,3) _ _ hr] Sealed12 sent by (force simp: conn_ready_def)
  qed
qed

lemma drop_eq_Cons: "drop j xs = x # ys \<Longrightarrow> j < length xs \<and> x = xs ! j \<and> ys = drop (Suc j) xs"
  by (cases "j < length xs") (auto simp: Cons_nth_drop_Suc [symmetric])

lemma split_next:
  assumes ok: "session_ok cr ses" and "drop j (ses_records ses) = m # ms"
  shows "split_record (take n (sealed_stream cr (ses_keys ses) (seq_at ses j) (drop j (ses_records ses)))) =
    (if 5 + body_len m \<le> n
     then Some (outer_type m, nth_body cr ses j,
            take (n - (5 + body_len m)) (sealed_stream cr (ses_keys ses) (seq_at ses (Suc j)) ms))
     else None)"
proof -
  have m: "j < length (ses_records ses)" "ses_records ses ! j = m" using drop_eq_Cons [OF assms(2)] by simp_all
  then have "sent_ok cr ses m" using session_ok_records(2) [OF ok] nth_mem [OF m(1)] by simp
  from split_sealed [OF session_ok_records(1) [OF ok] this, of n "seq_at ses j" ms] show ?thesis
    using seq_at_Suc [OF m(1)] m(2) unfolding assms(2) nth_body_def by simp
qed

text \<open>
  With the first \<open>n\<close> bytes of the remaining stream ready, the loop emits the application data of the records that lie
  wholly in them, in order, and the decryption state is ready for the one after.
\<close>

lemma drain_sealed:
  assumes "get_conn key orc = Some c" and "wf_reassembler (reassembler_for d c)"
    and "drain_records w key d ts envs i orc out = Inr (orc', out')"
    and ok: "session_ok (w_crypto w) ses" and reads: "\<And>i. reads_known (w_hex w) ses d (envs i)"
  shows "secrets_known ses d (ks_current (oc_keylog orc)) \<Longrightarrow>
    conn_ready (w_crypto w) ses d j (conn_state c) \<Longrightarrow>
    contig_bytes (reassembler_for d c) =
      take n (sealed_stream (w_crypto w) (ses_keys ses) (seq_at ses j) (drop j (ses_records ses))) \<Longrightarrow>
    \<exists>c'. get_conn key orc' = Some c'
      \<and> conn_ready (w_crypto w) ses d (j + length (whole n (drop j (ses_records ses)))) (conn_state c')
      \<and> map dm_tls_app_data out' = map dm_tls_app_data out @ plaintexts (whole n (drop j (ses_records ses)))
      \<and> length (contig_bytes (reassembler_for d c')) =
          length (contig_bytes (reassembler_for d c)) - wire_len (whole n (drop j (ses_records ses)))"
  using assms(1-3)
proof (induction arbitrary: j n rule: drain_records_rule)
  case (stop i orc out c)
  show ?case
  proof (cases "drop j (ses_records ses)")
    case Nil
    then show ?thesis using stop by auto
  next
    case (Cons m ms)
    then show ?thesis using stop split_next [OF ok, of j m ms n] by (auto split: if_splits)
  qed
next
  case (step i orc out c ct body r orc1 msgs c2 orc' out')
  show ?case
  proof (cases "drop j (ses_records ses)")
    case Nil
    then show ?thesis using step(3,11) by (simp add: split_record_def)
  next
    case (Cons m ms)
    have j: "j < length (ses_records ses)" "m = ses_records ses ! j" "ms = drop (Suc j) (ses_records ses)"
      using drop_eq_Cons [OF Cons] by simp_all
    have n: "5 + body_len m \<le> n" "ct = outer_type m" "body = nth_body (w_crypto w) ses j"
        "contig_bytes r = take (n - (5 + body_len m))
           (sealed_stream (w_crypto w) (ses_keys ses) (seq_at ses (Suc j)) (drop (Suc j) (ses_records ses)))"
      using step(3,11) split_next [OF ok Cons, of n] j by (auto simp: Cons split: if_splits)
    let ?put = "put_conn key (set_reassembler d r c) orc"
    have kl: "secrets_known ses d (ks_current (oc_keylog ?put))" using step(9) by simp
    have c: "get_conn key ?put = Some (set_reassembler d r c)" by simp
    have h: "conn_ready (w_crypto w) ses d (Suc j) (conn_state c2)" "map dm_tls_app_data msgs = app_data m"
      using handle_sealed [OF ok j(1) kl reads _ c step(5) [unfolded n j(2)]] step(6,10) j(2) by auto
    have k2: "secrets_known ses d (ks_current (oc_keylog orc1))"
      by (rule handle_record_known [OF kl reads step(5)])
    have "reassembler_for d c2 = r" using step(7) by (simp add: record_step_def)
    moreover have "length (nth_body (w_crypto w) ses j) = body_len m"
      using session_ok_records(1,2) [OF ok] nth_mem [OF j(1)] j(2) by (auto simp: nth_body_def intro: sent_ok_length(1))
    then have "length (contig_bytes r) = length (contig_bytes (reassembler_for d c)) - (5 + body_len m)"
      using split_record_length [OF step(3)] n(3) by simp
    ultimately show ?thesis
      using step(8) [OF k2 h(1), of "n - (5 + body_len m)"] n(4) Cons n(1) h(2) j(3) by simp
  qed
qed

end
