(* ===== verification/Delivery_Steps.thy ===== *)
theory Delivery_Steps
  imports Delivery_Correct
begin

text \<open>
  One direction of a session against the capture: the segments its frames carry, the state of the direction after some of
  them, what feeding, draining and tracking a frame do to that state, and when the pending limits have room for the rest.
\<close>

subsection \<open>What the capture holds of the session\<close>

definition from_sender :: "session \<Rightarrow> tcp_frame \<Rightarrow> bool" where
  "from_sender ses frame \<longleftrightarrow> frame_src frame = ses_sender ses \<and> frame_dst frame = ses_receiver ses"

definition session_message :: "session \<Rightarrow> decoded_message \<Rightarrow> bool" where
  "session_message ses m \<longleftrightarrow>
     (dm_src_ip m, dm_src_port m) = ses_sender ses \<and> (dm_dst_ip m, dm_dst_port m) = ses_receiver ses"

text \<open>The stream offset and payload of a frame; the segments of the sender's frames.\<close>

definition frame_segment :: "session \<Rightarrow> capture_frame \<Rightarrow> nat \<times> bytes" where
  "frame_segment ses cf =
     (unat (tf_seq (cf_frame cf) - ses_base ses), sub_range (payload_range (cf_frame cf)) (cf_data cf))"

definition session_frames :: "session \<Rightarrow> capture_frame list \<Rightarrow> capture_frame list" where
  "session_frames ses cfs = filter (\<lambda>cf. from_sender ses (cf_frame cf)) cfs"

definition session_segments :: "session \<Rightarrow> capture_frame list \<Rightarrow> (nat \<times> bytes) list" where
  "session_segments ses cfs = map (frame_segment ses) (session_frames ses cfs)"

text \<open>A segment carries bytes of the stream at their place.\<close>

definition carries :: "bytes \<Rightarrow> nat \<times> bytes \<Rightarrow> bool" where
  "carries stream e \<longleftrightarrow> take (length (snd e)) (drop (fst e) stream) = snd e"

text \<open>One end of the connection is never seen to finish, and no frame resets it.\<close>

definition fin_seen :: "bool \<Rightarrow> connection \<Rightarrow> bool" where
  "fin_seen e c = (if e then fin_seen_c2s (conn_meta c) else fin_seen_s2c (conn_meta c))"

definition keeps_open :: "session \<Rightarrow> bool \<Rightarrow> endpoint \<Rightarrow> tcp_frame \<Rightarrow> bool" where
  "keeps_open ses e client frame \<longleftrightarrow>
     (frame_key frame = session_key ses \<longrightarrow>
        \<not> fl_rst (tf_flags frame) \<and> (fl_fin (tf_flags frame) \<longrightarrow> (frame_src frame = client) \<noteq> e))"

text \<open>What the run has to meet, frame by frame: the sender's frames carry its stream, the connection stays open, payload
  ranges lie in the packet data, and the key log reads give the session's secrets.\<close>

definition frame_ok :: "'vm world \<Rightarrow> session \<Rightarrow> bool \<Rightarrow> bool \<Rightarrow> endpoint \<Rightarrow> capture_frame \<Rightarrow> bool" where
  "frame_ok w ses d e client cf \<longleftrightarrow>
     (from_sender ses (cf_frame cf) \<longrightarrow> carries (session_stream (w_crypto w) ses) (frame_segment ses cf))
     \<and> keeps_open ses e client (cf_frame cf)
     \<and> (\<exists>p. index_range (payload_range (cf_frame cf)) (cf_data cf) = Inr p)
     \<and> (\<forall>i. reads_known (w_hex w) ses d (fe_records (cf_env cf) i))"

text \<open>The direction after the segments \<open>segs\<close> have come in and \<open>j\<close> records have been taken off.\<close>

definition direction_at :: "crypto \<Rightarrow> session \<Rightarrow> bool \<Rightarrow> (nat \<times> bytes) list \<Rightarrow> nat \<Rightarrow> connection \<Rightarrow> bool" where
  "direction_at cr ses d segs j c \<longleftrightarrow>
     (let r = reassembler_for d c in
      anchored (ses_base ses) r \<and> held r = {n. covered segs n}
      \<and> contig_on_stream (nth (session_stream cr ses)) r \<and> pending_on_stream (nth (session_stream cr ses)) r
      \<and> next_expected_relative r - contiguous_len r = length (ses_past ses) + wire_len (take j (ses_records ses))
      \<and> j \<le> length (ses_records ses)
      \<and> conn_ready cr ses d j (conn_state c))"

lemma direction_at_cong:
  "reassembler_for d c' = reassembler_for d c \<Longrightarrow> conn_state c' = conn_state c \<Longrightarrow>
     direction_at cr ses d segs j c' = direction_at cr ses d segs j c"
  by (simp add: direction_at_def)

lemma carries_on_stream:
  "carries stream e \<Longrightarrow> on_stream (nth stream) (fst e) (snd e)"
  "carries stream e \<Longrightarrow> snd e \<noteq> [] \<Longrightarrow> fst e + length (snd e) \<le> length stream"
proof -
  assume c: "carries stream e"
  show "on_stream (nth stream) (fst e) (snd e)"
    unfolding on_stream_nth
  proof (intro allI impI)
    fix i assume i: "i < length (snd e)"
    have "snd e ! i = take (length (snd e)) (drop (fst e) stream) ! i" using c by (simp add: carries_def)
    moreover have "length (snd e) \<le> length stream - fst e"
      using arg_cong [OF c [unfolded carries_def], of length] by simp
    ultimately show "snd e ! i = stream ! (fst e + i)" using i by simp
  qed
  show "fst e + length (snd e) \<le> length stream" if "snd e \<noteq> []"
  proof -
    have "length (snd e) \<le> length stream - fst e"
      using arg_cong [OF c [unfolded carries_def], of length] by simp
    moreover have "0 < length (snd e)" using that by simp
    ultimately show ?thesis by linarith
  qed
qed

text \<open>Offsets of the stream up to which everything has come in.\<close>

definition segs_within :: "nat \<Rightarrow> (nat \<times> bytes) list \<Rightarrow> bool" where
  "segs_within n segs \<longleftrightarrow> (\<forall>k. covered segs k \<longrightarrow> k < n)"

lemma held_first_gap:
  assumes "wf_reassembler r" and "held r = {n. covered segs n}"
  shows "first_gap segs = next_expected_relative r"
proof (rule first_gap_eq)
  have "next_expected_relative r \<notin> held r"
    using assms(1) by (fastforce simp: held_def wf_reassembler_def)
  then show "\<not> covered segs (next_expected_relative r)" using assms(2) by simp
  show "covered segs k" if "k < next_expected_relative r" for k
  proof -
    have "k \<in> held r" using that by (simp add: held_def)
    then show ?thesis using assms(2) by simp
  qed
qed

lemma next_within:
  assumes "held r = {n. covered segs n}" and "segs_within n segs"
  shows "next_expected_relative r \<le> n"
proof (rule ccontr)
  assume "\<not> next_expected_relative r \<le> n"
  then have "n \<in> held r" by (simp add: held_def)
  then show False using assms by (auto simp: segs_within_def)
qed

text \<open>The bytes ready in the direction are the front of the session's remaining records.\<close>

lemma direction_contig:
  assumes ok: "session_ok cr ses" and at: "direction_at cr ses d segs j c"
    and wf: "wf_reassembler (reassembler_for d c)" and within: "segs_within (length (session_stream cr ses)) segs"
  shows "contig_bytes (reassembler_for d c) =
    take (contiguous_len (reassembler_for d c))
      (sealed_stream cr (ses_keys ses) (seq_at ses j) (drop j (ses_records ses)))"
proof -
  let ?r = "reassembler_for d c" and ?s = "session_stream cr ses"
  let ?a = "next_expected_relative ?r - contiguous_len ?r"
  have a: "?a = length (ses_past ses) + wire_len (take j (ses_records ses))"
    and h: "held ?r = {n. covered segs n}"
    and c: "contig_bytes ?r = map (nth ?s) [?a..<next_expected_relative ?r]"
    using at by (simp_all add: direction_at_def Let_def contig_on_stream_def)
  have le: "contiguous_len ?r \<le> next_expected_relative ?r" by (rule wf_contiguous_le [OF wf])
  have "next_expected_relative ?r \<le> length ?s" by (rule next_within [OF h within])
  then have "map (nth ?s) [?a..<next_expected_relative ?r] = take (contiguous_len ?r) (drop ?a ?s)"
    using le by (intro nth_equalityI) auto
  moreover have "drop ?a ?s = sealed_stream cr (ses_keys ses) (seq_at ses j) (drop j (ses_records ses))"
    using sealed_stream_drop [OF session_ok_records(1,2) [OF ok], of j "ses_seq ses"]
    by (simp add: a session_stream_def seq_at_def)
  ultimately show ?thesis using c by simp
qed

subsection \<open>Steps of one frame\<close>

lemma set_isn_anchored [simp]: "base_seq r \<noteq> None \<Longrightarrow> set_isn q r = r"
  by (simp add: set_isn_def)

lemma reassembler_meta [simp]:
  "reassembler_for y (c\<lparr>conn_meta := m\<rparr>) = reassembler_for y c" "is_desynced y (c\<lparr>conn_meta := m\<rparr>) = is_desynced y c"
  by (simp_all add: reassembler_for_def is_desynced_def)

text \<open>Tracking a frame of a known connection.\<close>

lemma track_known:
  assumes g: "get_conn (frame_key frame) orc = Some c" and t: "track_frame frame env orc = (key, x, conn)"
  shows "x = (frame_src frame = client_endpoint c) \<and> conn_state conn = conn_state c
    \<and> client_endpoint conn = client_endpoint c \<and> (\<forall>y. is_desynced y conn = is_desynced y c)
    \<and> (\<forall>y. y \<noteq> x \<longrightarrow> reassembler_for y conn = reassembler_for y c)
    \<and> (base_seq (reassembler_for x c) \<noteq> None \<longrightarrow> reassembler_for x conn = reassembler_for x c)
    \<and> (\<forall>e. fin_seen e conn \<longleftrightarrow> fin_seen e c \<or> fl_fin (tf_flags frame) \<and> x = e)"
proof -
  let ?m = "(close_meta frame x (conn_meta c))\<lparr>last_activity := Some (fe_activity env)\<rparr>"
  have x: "x = (frame_src frame = client_endpoint c)"
    and conn: "conn = (if fl_syn (tf_flags frame)
        then set_reassembler x (set_isn (tf_seq frame + 1) (reassembler_for x c)) c else c)\<lparr>conn_meta := ?m\<rparr>"
    using t track_frame_eq [of frame env orc] g by (auto simp: frame_src_def)
  have "fin_seen e conn \<longleftrightarrow> fin_seen e c \<or> fl_fin (tf_flags frame) \<and> x = e" for e
    by (auto simp: conn fin_seen_def close_meta_def)
  then show ?thesis using x by (auto simp: conn)
qed

text \<open>Feeding a frame's payload to a direction, the session's or the other.\<close>

lemma mark_desynced_state [simp]: "conn_state (mark_desynced y l c) = conn_state c"
  by (simp add: mark_desynced_def)

lemma put_conn_gap [simp]:
  "get_conn k (orc\<lparr>gap_abandoned_bytes := a, connections_desynced := b\<rparr>) = get_conn k orc"
  by (simp add: get_conn_def)

lemma feed_state:
  assumes "get_conn key (feed_payload frame i p env key x conn orc) = Some c0"
  shows "conn_state c0 = conn_state conn \<and> (\<forall>y. y \<noteq> x \<longrightarrow> is_desynced y c0 = is_desynced y conn)
    \<and> (is_desynced x conn \<longrightarrow> is_desynced x c0) \<and> (\<forall>y. y \<noteq> x \<longrightarrow> reassembler_for y c0 = reassembler_for y conn)"
proof (cases "push (fe_push_t0 env) (fe_push_t1 env) i (tf_seq frame) (payload_range frame) p (reassembler_for x conn)")
  case (Pair res r)
  then show ?thesis using assms by (cases res) (auto simp: feed_payload_def Let_def split: if_splits)
qed

lemma next_mono:
  assumes "wf_reassembler r'" and "held r \<subseteq> held r'"
  shows "next_expected_relative r \<le> next_expected_relative r'"
proof (rule ccontr)
  assume "\<not> next_expected_relative r \<le> next_expected_relative r'"
  then have "next_expected_relative r' \<in> held r" by (simp add: held_def)
  moreover have "next_expected_relative r' \<notin> held r'"
    using assms(1) by (fastforce simp: held_def wf_reassembler_def)
  ultimately show False using assms(2) by blast
qed

lemma direction_at_empty: "direction_at cr ses d (segs @ [(k, [])]) j c = direction_at cr ses d segs j c"
proof -
  have "covered (segs @ [(k, [])]) = covered segs" by (rule ext) simp
  then show ?thesis by (simp only: direction_at_def)
qed

lemma feed_own:
  assumes wf: "wf_reassembler (reassembler_for d conn)" and at: "direction_at cr ses d segs j conn"
    and carry: "carries (session_stream cr ses) (unat (tf_seq frame - ses_base ses), p)"
    and c0: "get_conn key (feed_payload frame i p env key d conn orc) = Some c0"
  shows "is_desynced d c0 \<or> direction_at cr ses d (segs @ [(unat (tf_seq frame - ses_base ses), p)]) j c0
    \<and> next_expected_relative (reassembler_for d conn) \<le> next_expected_relative (reassembler_for d c0)"
proof (cases "p = [] \<or> is_desynced d conn")
  case True
  then have "c0 = conn" using c0 by (auto simp: feed_payload_def)
  then show ?thesis using True at by (auto simp: direction_at_empty)
next
  case False
  let ?r = "reassembler_for d conn" and ?k = "unat (tf_seq frame - ses_base ses)" and ?s = "nth (session_stream cr ses)"
  obtain res r where p: "push (fe_push_t0 env) (fe_push_t1 env) i (tf_seq frame) (payload_range frame) p ?r = (res, r)"
    by (rule prod.exhaust)
  have anc: "anchored (ses_base ses) ?r" using at by (simp add: direction_at_def Let_def)
  have ne: "p \<noteq> []" and nd: "\<not> is_desynced d conn" using False by simp_all
  note rel = p [unfolded push_anchored [OF anc ne]]
  show ?thesis
  proof (cases "\<exists>n. res = GapAbandoned n")
    case True
    then show ?thesis using c0 ne nd p by (auto simp: feed_payload_def Let_def)
  next
    case no_gap: False
    have r: "reassembler_for d c0 = r" "conn_state c0 = conn_state conn"
      using c0 ne nd p no_gap by (cases res; simp add: feed_payload_def Let_def; fastforce)+
    have wf': "wf_reassembler r" using push_relative_wf [OF wf ne rel] .
    have h: "held r = held ?r \<union> {?k..<?k + length p}"
      using push_relative_held [OF wf ne rel] no_gap by blast
    have s: "contig_on_stream ?s r \<and> pending_on_stream ?s r"
      using push_relative_on_stream [OF wf ne _ _ _ rel, of ?s] carries_on_stream(1) [OF carry] at
      by (simp add: direction_at_def Let_def)
    have "next_expected_relative r - contiguous_len r = next_expected_relative ?r - contiguous_len ?r"
      using push_relative_consumed [OF wf ne rel] wf_contiguous_le [OF wf] wf_contiguous_le [OF wf'] by linarith
    moreover have "base_seq r = base_seq ?r" by (rule push_relative_base [OF wf ne rel])
    ultimately have "direction_at cr ses d (segs @ [(?k, p)]) j c0"
      using at s h r by (auto simp: direction_at_def Let_def anchored_def)
    then show ?thesis using next_mono [OF wf', of ?r] h r by auto
  qed
qed

text \<open>Draining the session's direction: the records taken off are those that have come in.\<close>

definition settled :: "session \<Rightarrow> nat \<Rightarrow> stream_reassembler \<Rightarrow> bool" where
  "settled ses j r \<longleftrightarrow>
     take j (ses_records ses) = whole (next_expected_relative r - length (ses_past ses)) (ses_records ses)"

lemma split_records_suffix: "\<exists>k. snd (split_records bs) = drop k bs"
proof (induction bs rule: split_records.induct)
  case (1 bs)
  show ?case
  proof (cases "split_record bs")
    case None
    then show ?thesis by (intro exI [of _ 0]) (simp add: split_records.simps)
  next
    case (Some x)
    obtain ct body rest where x: "x = (ct, body, rest)" by (rule prod_cases3)
    obtain k where k: "snd (split_records rest) = drop k rest" using 1 [OF Some, of ct "(body, rest)" body rest] x by auto
    obtain n where "rest = drop n bs" using Some x by (auto simp: split_record_def Let_def split: if_splits)
    then have "snd (split_records bs) = drop (k + n) bs"
      using Some x k by (subst split_records.simps) (auto split: prod.splits)
    then show ?thesis ..
  qed
qed

lemma contig_on_stream_drop:
  assumes "contig_on_stream s r" and "wf_reassembler r" and "wf_reassembler r'"
    and "next_expected_relative r' = next_expected_relative r" and "contig_bytes r' = drop k (contig_bytes r)"
  shows "contig_on_stream s r'"
proof -
  have l: "contiguous_len r = length (contig_bytes r)" "contiguous_len r' = length (contig_bytes r) - k"
    using tcp.ready_content [OF assms(2)] tcp.ready_content [OF assms(3)] assms(5) by simp_all
  have le: "contiguous_len r \<le> next_expected_relative r" by (rule wf_contiguous_le [OF assms(2)])
  have c: "contig_bytes r = map s [next_expected_relative r - contiguous_len r..<next_expected_relative r]"
    using assms(1) by (simp add: contig_on_stream_def)
  have "contig_bytes r' = map s [next_expected_relative r - contiguous_len r + k..<next_expected_relative r]"
    unfolding assms(5) c by (simp add: drop_map)
  moreover have "k \<le> contiguous_len r \<Longrightarrow>
      next_expected_relative r - contiguous_len r + k = next_expected_relative r - contiguous_len r'"
    using l le by simp
  moreover have "contiguous_len r < k \<Longrightarrow> contiguous_len r' = 0
      \<and> next_expected_relative r \<le> next_expected_relative r - contiguous_len r + k"
    using l by simp
  ultimately show ?thesis using assms(4) unfolding contig_on_stream_def
    by (cases "k \<le> contiguous_len r") auto
qed

lemma drain_own:
  assumes ok: "session_ok (w_crypto w) ses" and reads: "\<And>i. reads_known (w_hex w) ses d (envs i)"
    and within: "segs_within (length (session_stream (w_crypto w) ses)) segs"
    and at: "direction_at (w_crypto w) ses d segs j c0" and wf: "wf_reassembler (reassembler_for d c0)"
    and was: "take j (ses_records ses) = whole N (ses_records ses)"
      "N \<le> next_expected_relative (reassembler_for d c0) - length (ses_past ses)"
    and kl: "secrets_known ses d (ks_current (oc_keylog orc))"
    and g: "get_conn key orc = Some c0" and dr: "drain_records w key d ts envs i orc [] = Inr (orc1, out)"
    and c1: "get_conn key orc1 = Some c1" and ds: "drain_step cfg d c0 c1"
  shows "\<exists>j'. direction_at (w_crypto w) ses d segs j' c1 \<and> settled ses j' (reassembler_for d c1)
    \<and> plaintexts (take j' (ses_records ses)) = plaintexts (take j (ses_records ses)) @ map dm_tls_app_data out"
proof -
  let ?r0 = "reassembler_for d c0" and ?r1 = "reassembler_for d c1" and ?ms = "ses_records ses"
  let ?n = "contiguous_len ?r0" and ?W = "whole (contiguous_len ?r0) (drop j ?ms)"
  have ready: "conn_ready (w_crypto w) ses d j (conn_state c0)"
    and pos: "next_expected_relative ?r0 - ?n = length (ses_past ses) + wire_len (take j ?ms)" and j: "j \<le> length ?ms"
    and rest: "anchored (ses_base ses) ?r0" "held ?r0 = {n. covered segs n}"
      "contig_on_stream (nth (session_stream (w_crypto w) ses)) ?r0"
      "pending_on_stream (nth (session_stream (w_crypto w) ses)) ?r0"
    using at by (auto simp: direction_at_def Let_def)
  have st': "conn_ready (w_crypto w) ses d (j + length ?W) (conn_state c1)"
      "map dm_tls_app_data out = plaintexts ?W"
      "length (contig_bytes ?r1) = length (contig_bytes ?r0) - wire_len ?W"
    using drain_sealed [OF g wf dr ok reads kl ready direction_contig [OF ok at wf within]] c1 by auto
  have wf1: "wf_reassembler ?r1" and same: "pending ?r1 = pending ?r0" "base_seq ?r1 = base_seq ?r0"
      "next_expected_relative ?r1 = next_expected_relative ?r0"
    and suffix: "contig_bytes ?r1 = snd (split_records (contig_bytes ?r0))"
    using ds by (simp_all add: drain_step_def)
  have "contig_on_stream (nth (session_stream (w_crypto w) ses)) ?r1"
    using contig_on_stream_drop [OF rest(3) wf wf1 same(3)] split_records_suffix suffix by metis
  moreover have le: "?n \<le> next_expected_relative ?r0" by (rule wf_contiguous_le [OF wf])
  have W: "wire_len ?W \<le> ?n" by (rule wire_len_whole)
  have tk: "take (j + length ?W) ?ms = take j ?ms @ ?W"
    using whole_prefix [of ?n "drop j ?ms"] by (simp add: take_add)
  have "next_expected_relative ?r1 - contiguous_len ?r1 = length (ses_past ses) + wire_len (take (j + length ?W) ?ms)"
    using tcp.ready_content [OF wf] tcp.ready_content [OF wf1] st'(3) same(3) pos W le tk by simp
  moreover have "length ?W \<le> length (drop j ?ms)"
    using whole_prefix [of ?n "drop j ?ms"] by (metis length_take min.cobounded1 min.commute)
  ultimately have "direction_at (w_crypto w) ses d segs (j + length ?W) c1"
    using rest same st' j by (simp add: direction_at_def Let_def anchored_def held_def pending_on_stream_def)
  moreover have "length (whole N ?ms) = j" using arg_cong [OF was(1), of length] j by simp
  then have "whole (next_expected_relative ?r0 - length (ses_past ses)) ?ms = take j ?ms @ ?W"
  proof -
    assume l: "length (whole N ?ms) = j"
    have "next_expected_relative ?r0 - length (ses_past ses) - wire_len (whole N ?ms) = ?n"
      using pos le was(1) by simp
    then show ?thesis using whole_split [OF was(2), of ?ms] l was(1) by simp
  qed
  then have "settled ses (j + length ?W) ?r1" using tk same(3) by (simp add: settled_def)
  ultimately show ?thesis using st'(2) tk by (intro exI [of _ "j + length ?W"]) simp
qed

subsection \<open>Room for what is out of order\<close>

text \<open>A push that the pending limits have room for abandons no gap.\<close>

lemma push_relative_room:
  assumes wf: "wf_reassembler r" and ne: "p \<noteq> []"
    and room: "pending_len r + length p \<le> max_bytes (limits r)" "length (pending r) < max_packets (limits r)"
    and age: "\<And>t. pending_since r = Some t \<or> t = t0 \<Longrightarrow> elapsed t t1 \<le> max_age (limits r)"
    and res: "push_relative t0 t1 i rng p rel r = (res, r')"
  shows "(\<forall>n. res \<noteq> GapAbandoned n) \<and> pending_len r' \<le> pending_len r + length p
    \<and> length (pending r') \<le> Suc (length (pending r))
    \<and> (\<forall>t. pending_since r' = Some t \<longrightarrow> pending_since r = Some t \<or> t = t0) \<and> limits r' = limits r"
  using ne
proof (cases rule: push_relative_cases [of p t0 t1 i rng rel r])
  case (delivered seg)
  have core: "wf_core (deliver seg r)" using wf by (simp add: wf_reassembler_def deliver_wf_core)
  have "pending_since (drain_pending (deliver seg r)) \<in> {None, pending_since r}"
    using drain_loop_frame [OF core] by (simp add: drain_pending_def Let_def)
  then show ?thesis
    using drain_loop_shrinks [OF core] drain_loop_frame [OF core] delivered(1) res by auto
next
  case gap
  let ?seg = "seg_of i rng p"
  let ?r1 = "insert_pending t0 rel ?seg r"
  have b: "buffer_pending t0 t1 rel ?seg r = (res, r')" using gap(1) res by simp
  have len: "pending_len ?r1 \<le> pending_len r + length p"
    by (simp add: insert_pending_def Let_def)
  have n: "length (pending ?r1) \<le> Suc (length (pending r))" by (simp add: length_bt_insert_le)
  have since: "pending_since ?r1 \<in> {Some t0, pending_since r}" by simp
  have in_limits: "within_limits ?r1" using len n room by (simp add: within_limits_def)
  have young: "\<not> age_exceeded t1 ?r1"
    using since age by (auto simp: age_exceeded_def not_less split: option.splits)
  show ?thesis
    using wf by (cases rule: buffer_pending_cases [of r t0 t1 rel ?seg])
      (use b len n since in_limits young in auto)
qed (use res in auto)

text \<open>
  The rest of a capture fits the direction: all the payload still to come can be pending at once, and no two clock readings are
  further apart than the age limit.
\<close>

definition fits :: "session \<Rightarrow> capture_frame list \<Rightarrow> stream_reassembler \<Rightarrow> bool" where
  "fits ses cfs r \<longleftrightarrow>
     pending_len r + sum_list (map (\<lambda>e. length (snd e)) (session_segments ses cfs)) \<le> max_bytes (limits r)
     \<and> length (pending r) + length (session_segments ses cfs) \<le> max_packets (limits r)
     \<and> (\<forall>cf \<in> set (session_frames ses cfs). \<forall>t.
          pending_since r = Some t \<or> (\<exists>cf' \<in> set (session_frames ses cfs). t = fe_push_t0 (cf_env cf')) \<longrightarrow>
          elapsed t (fe_push_t1 (cf_env cf)) \<le> max_age (limits r))"

definition undisturbed :: "session \<Rightarrow> bool \<Rightarrow> capture_frame list \<Rightarrow> connection \<Rightarrow> bool" where
  "undisturbed ses d cfs c \<longleftrightarrow> \<not> is_desynced d c \<and> fits ses cfs (reassembler_for d c)"

lemma session_segments_Cons:
  "session_segments ses (cf # cfs) =
     (if from_sender ses (cf_frame cf) then [frame_segment ses cf] else []) @ session_segments ses cfs"
  by (simp add: session_segments_def session_frames_def)

lemma session_frames_Cons:
  "session_frames ses (cf # cfs) = (if from_sender ses (cf_frame cf) then [cf] else []) @ session_frames ses cfs"
  by (simp add: session_frames_def)

lemma fits_tail: "fits ses (cf # cfs) r \<Longrightarrow> fits ses cfs r"
  by (auto simp: fits_def session_segments_Cons session_frames_Cons split: if_splits)

lemma fits_cong:
  "pending r' = pending r \<Longrightarrow> pending_len r' = pending_len r \<Longrightarrow> pending_since r' = pending_since r \<Longrightarrow>
     limits r' = limits r \<Longrightarrow> fits ses cfs r' = fits ses cfs r"
  by (simp add: fits_def)

lemma feed_fits:
  assumes wf: "wf_reassembler (reassembler_for d conn)" and anc: "anchored (ses_base ses) (reassembler_for d conn)"
    and fit: "undisturbed ses d (cf # cfs) conn" and own: "from_sender ses (cf_frame cf)"
    and p: "p = snd (frame_segment ses cf)"
    and c0: "get_conn key (feed_payload (cf_frame cf) (cf_index cf) p (cf_env cf) key d conn orc) = Some c0"
  shows "undisturbed ses d cfs c0"
proof (cases "p = []")
  case True
  then show ?thesis using c0 fit fits_tail by (auto simp: feed_payload_def undisturbed_def)
next
  case False
  let ?r = "reassembler_for d conn" and ?f = "cf_frame cf" and ?e = "cf_env cf"
  obtain res r where push: "push (fe_push_t0 ?e) (fe_push_t1 ?e) (cf_index cf) (tf_seq ?f) (payload_range ?f) p ?r = (res, r)"
    by (rule prod.exhaust)
  note rel = push [unfolded push_anchored [OF anc False]]
  have f: "fits ses (cf # cfs) ?r" "\<not> is_desynced d conn" using fit by (simp_all add: undisturbed_def)
  then have "pending_len ?r + length p \<le> max_bytes (limits ?r)" "length (pending ?r) < max_packets (limits ?r)"
      "\<And>t. pending_since ?r = Some t \<or> t = fe_push_t0 ?e \<Longrightarrow> elapsed t (fe_push_t1 ?e) \<le> max_age (limits ?r)"
    using own p by (auto simp: fits_def session_segments_Cons session_frames_Cons)
  note room = push_relative_room [OF wf False this rel]
  have c0': "reassembler_for d c0 = r" "\<not> is_desynced d c0"
    using c0 False f(2) push room by (cases res; auto simp: feed_payload_def Let_def)+
  have "fits ses cfs r"
    using f(1) room own p unfolding fits_def by (fastforce simp: session_segments_Cons session_frames_Cons)
  then show ?thesis using c0' by (simp add: undisturbed_def)
qed

end
