(* ===== verification/Delivery_Run.thy ===== *)
theory Delivery_Run
  imports Delivery_Steps
begin

text \<open>
  Whole runs: the invariant of a session's direction over the frames of a capture, that \<open>process_frame\<close> keeps it for every frame,
  the session's own, the peer's or another connection's, and what a run leaves.
\<close>

subsection \<open>The invariant of a run\<close>

text \<open>
  The direction after a run: desynchronised, or settled with the application data of its records emitted. With \<open>fit\<close>, the
  frames \<open>cfs\<close> still to come fit, and it is not desynchronised.
\<close>

definition delivered :: "crypto \<Rightarrow> session \<Rightarrow> bool \<Rightarrow> (nat \<times> bytes) list \<Rightarrow> bytes list \<Rightarrow> connection \<Rightarrow> bool" where
  "delivered cr ses d segs plain c \<longleftrightarrow> is_desynced d c \<or>
     (\<exists>j. direction_at cr ses d segs j c \<and> settled ses j (reassembler_for d c)
        \<and> plain = plaintexts (take j (ses_records ses)))"

definition run_inv ::
  "'vm world \<Rightarrow> session \<Rightarrow> bool \<Rightarrow> bool \<Rightarrow> endpoint \<Rightarrow> bool \<Rightarrow> capture_frame list \<Rightarrow> (nat \<times> bytes) list \<Rightarrow> bytes list
     \<Rightarrow> 'vm orchestrator \<Rightarrow> bool"
where
  "run_inv w ses d e client fit cfs segs plain orc \<longleftrightarrow>
     orch_reach w orc \<and> idle_timeout (oc_config orc) = None \<and> secrets_known ses d (ks_current (oc_keylog orc))
     \<and> (\<exists>c. get_conn (session_key ses) orc = Some c \<and> client_endpoint c = client \<and> \<not> fin_seen e c
          \<and> delivered (w_crypto w) ses d segs plain c \<and> (fit \<longrightarrow> undisturbed ses d cfs c))"

text \<open>What a frame adds: its segment, and the plaintexts of its records, when they are the session's.\<close>

definition new_segments :: "session \<Rightarrow> capture_frame \<Rightarrow> (nat \<times> bytes) list" where
  "new_segments ses cf = (if from_sender ses (cf_frame cf) then [frame_segment ses cf] else [])"

definition session_plain :: "session \<Rightarrow> decoded_message list \<Rightarrow> bytes list" where
  "session_plain ses out = map dm_tls_app_data (filter (session_message ses) out)"

text \<open>Which direction a frame of the connection belongs to.\<close>

lemma from_sender_key: "from_sender ses frame \<Longrightarrow> frame_key frame = session_key ses"
  by (simp add: from_sender_def frame_key_def session_key_def frame_src_def frame_dst_def)

lemma from_sender_iff:
  assumes "frame_key frame = session_key ses" and "session_key ses = conn_key client server"
  shows "from_sender ses frame \<longleftrightarrow> (frame_src frame = client) = (ses_sender ses = client)"
  using assms conn_key_eq_iff [of "frame_src frame" "frame_dst frame" "ses_sender ses" "ses_receiver ses"]
    conn_key_eq_iff [of "ses_sender ses" "ses_receiver ses" client server]
  unfolding from_sender_def frame_key_def session_key_def frame_src_def frame_dst_def by metis

lemma session_plain_frame:
  assumes "orch_reach w orc" and "process_frame w frame i data ts env orc = Inr (evt, out, orc')"
  shows "session_plain ses out = (if from_sender ses frame then map dm_tls_app_data out else [])"
proof -
  have "session_message ses m \<longleftrightarrow> from_sender ses frame" if "m \<in> set out" for m
    using messages_carry_frame_endpoints [OF assms that]
    by (simp add: session_message_def from_sender_def frame_src_def frame_dst_def)
  then have "filter (session_message ses) out = (if from_sender ses frame then out else [])"
    by (simp add: filter_empty_conv filter_id_conv)
  then show ?thesis by (simp add: session_plain_def)
qed

text \<open>The end of a frame, once its connection stays.\<close>

lemma frame_end:
  assumes "orc' = maybe_gc_lua w env (maybe_sweep_idle env (evict_closed key orc1))"
    and "idle_timeout (oc_config orc1) = None"
  shows "oc_keylog orc' = oc_keylog orc1" "oc_config orc' = oc_config orc1"
    "get_conn k orc1 = Some c \<Longrightarrow> k \<noteq> key \<or> \<not> is_closed (conn_meta c) \<Longrightarrow> get_conn k orc' = Some c"
proof -
  have "idle_timeout (oc_config (evict_closed key orc1)) = None" using assms(2) by simp
  then have orc': "orc' = maybe_gc_lua w env (evict_closed key orc1)" using assms(1) by simp
  show "oc_keylog orc' = oc_keylog orc1"
    by (simp add: orc' maybe_gc_lua_def evict_closed_def Let_def remove_conn_def)
  show "oc_config orc' = oc_config orc1" by (simp add: orc')
  show "get_conn k orc' = Some c" if "get_conn k orc1 = Some c" "k \<noteq> key \<or> \<not> is_closed (conn_meta c)"
    using that by (auto simp: orc')
qed

lemma feed_payload_keylog [simp]: "oc_keylog (feed_payload frame i p env key d conn orc) = oc_keylog orc"
proof (cases "push (fe_push_t0 env) (fe_push_t1 env) i (tf_seq frame) (payload_range frame) p (reassembler_for d conn)")
  case (Pair res r)
  then show ?thesis by (cases res) (simp_all add: feed_payload_def Let_def)
qed

text \<open>A frame of another connection.\<close>

lemma run_other:
  assumes inv: "run_inv w ses d e client fit (cf # cfs) segs plain orc"
    and pf: "process_frame w (cf_frame cf) (cf_index cf) (cf_data cf) (cf_timestamp cf) (cf_env cf) orc = Inr (evt, out, orc')"
    and ok: "frame_ok w ses d e client cf" and other: "frame_key (cf_frame cf) \<noteq> session_key ses"
  shows "run_inv w ses d e client fit cfs segs plain orc'"
proof -
  have reach: "orch_reach w orc" and idle: "idle_timeout (oc_config orc) = None"
    and kl: "secrets_known ses d (ks_current (oc_keylog orc))" using inv by (simp_all add: run_inv_def)
  show ?thesis
    using orch_reach_inv [OF reach] pf
  proof (cases rule: process_frame_parts)
    case (1 p x conn orc1 n c0 c1)
    note fe = frame_end [OF 1(4) idle [folded 1(6)]]
    have wf: "wf_reassembler (reassembler_for x c0)" using 1(21) by (simp add: conn_ok_def stream_ok_def)
    have "secrets_known ses d (ks_current (oc_keylog orc1))"
      using drain_known [OF 1(11) wf 1(5)] kl ok by (simp add: frame_ok_def)
    moreover have "get_conn (session_key ses) orc' = get_conn (session_key ses) orc"
      using inv other 1(9) fe(3) unfolding run_inv_def by metis
    ultimately show ?thesis
      using inv orch_reach.orch_frame [OF reach pf] fe(1,2) 1(6) fits_tail
      by (auto simp: run_inv_def undisturbed_def)
  qed
qed

text \<open>A frame of the session's connection.\<close>

lemma conn_direction:
  assumes "orch_inv orc" and "get_conn k orc = Some c"
  shows "k = conn_key (client_endpoint c) (server_endpoint c)" "wf_reassembler (reassembler_for y c)"
  using orch_inv_conn [OF assms] by (simp_all add: conn_ok_def stream_ok_def)

lemma settled_next: "settled ses j r \<Longrightarrow> take j (ses_records ses)
    = whole (next_expected_relative r - length (ses_past ses)) (ses_records ses)"
  by (simp add: settled_def)

lemma delivered_own:
  assumes ok: "session_ok (w_crypto w) ses" and reads: "\<And>i. reads_known (w_hex w) ses d (envs i)"
    and within: "segs_within (length (session_stream (w_crypto w) ses)) (segs @ [(unat (tf_seq frame - ses_base ses), p)])"
    and carry: "carries (session_stream (w_crypto w) ses) (unat (tf_seq frame - ses_base ses), p)"
    and kl: "secrets_known ses d (ks_current (oc_keylog orc))"
    and del: "delivered (w_crypto w) ses d segs plain conn" and wf: "wf_reassembler (reassembler_for d conn)"
    and c0: "get_conn key (feed_payload frame i p env key d conn orc) = Some c0" "wf_reassembler (reassembler_for d c0)"
    and dr: "drain_records w key d ts envs n (feed_payload frame i p env key d conn orc) [] = Inr (orc1, out)"
    and c1: "get_conn key orc1 = Some c1" "drain_step cfg d c0 c1"
  shows "delivered (w_crypto w) ses d (segs @ [(unat (tf_seq frame - ses_base ses), p)])
    (plain @ map dm_tls_app_data out) c1"
proof (cases "is_desynced d c0")
  case True
  then show ?thesis using c1(2) by (simp add: delivered_def drain_step_def)
next
  case False
  then obtain j where j: "direction_at (w_crypto w) ses d segs j conn" "settled ses j (reassembler_for d conn)"
      "plain = plaintexts (take j (ses_records ses))"
    using del feed_state [OF c0(1)] by (auto simp: delivered_def)
  let ?segs = "segs @ [(unat (tf_seq frame - ses_base ses), p)]"
  have at: "direction_at (w_crypto w) ses d ?segs j c0"
    and le: "next_expected_relative (reassembler_for d conn) \<le> next_expected_relative (reassembler_for d c0)"
    using feed_own [OF wf j(1) carry c0(1)] False by blast+
  obtain j' where "direction_at (w_crypto w) ses d ?segs j' c1" "settled ses j' (reassembler_for d c1)"
      "plaintexts (take j' (ses_records ses)) = plaintexts (take j (ses_records ses)) @ map dm_tls_app_data out"
    using drain_own [OF ok reads within at c0(2) settled_next [OF j(2)] diff_le_mono [OF le] _ c0(1) dr c1] kl by auto
  then show ?thesis using j(3) by (auto simp: delivered_def)
qed

lemma delivered_back:
  assumes del: "delivered cr ses d segs plain conn" and ne: "x \<noteq> d"
    and c0: "get_conn key (feed_payload frame i p env key x conn orc) = Some c0" "wf_reassembler (reassembler_for x c0)"
    and dr: "drain_records w key x ts envs n (feed_payload frame i p env key x conn orc) [] = Inr (orc1, out)"
    and c1: "get_conn key orc1 = Some c1" "drain_step cfg x c0 c1"
  shows "delivered cr ses d segs plain c1"
proof (cases "is_desynced d conn")
  case True
  then show ?thesis using feed_state [OF c0(1)] c1(2) ne by (simp add: delivered_def drain_step_def)
next
  case False
  then obtain j where j: "direction_at cr ses d segs j conn" "settled ses j (reassembler_for d conn)"
      "plain = plaintexts (take j (ses_records ses))"
    using del by (auto simp: delivered_def)
  have same: "reassembler_for d c1 = reassembler_for d conn" "conn_state c0 = conn_state conn"
    using feed_state [OF c0(1)] c1(2) ne by (simp_all add: drain_step_def)
  have "conn_ready cr ses d j (conn_state conn)" using j(1) by (simp add: direction_at_def Let_def)
  then have "conn_ready cr ses d j (conn_state c1)"
    using drain_other_direction [OF c0 dr ne, of cr ses j] same(2) c1(1) by auto
  then have "direction_at cr ses d segs j c1" using j(1) same(1) by (simp add: direction_at_def Let_def)
  then show ?thesis using j(2,3) same(1) by (auto simp: delivered_def)
qed

lemma tracked_same:
  assumes del: "delivered cr ses d segs plain c" "\<not> is_desynced d c"
    and g: "get_conn (frame_key frame) orc = Some c" and t: "track_frame frame env orc = (key, x, conn)"
  shows "anchored (ses_base ses) (reassembler_for d c) \<and> reassembler_for d conn = reassembler_for d c"
proof -
  have anc: "anchored (ses_base ses) (reassembler_for d c)"
    using del by (auto simp: delivered_def direction_at_def Let_def)
  then have "base_seq (reassembler_for d c) \<noteq> None" by (simp add: anchored_def)
  then have "reassembler_for d conn = reassembler_for d c"
    using track_known [OF g t] by (cases "d = x") blast+
  with anc show ?thesis ..
qed

lemma delivered_tracked:
  assumes del: "delivered cr ses d segs plain c"
    and g: "get_conn (frame_key frame) orc = Some c" and t: "track_frame frame env orc = (key, x, conn)"
  shows "delivered cr ses d segs plain conn"
proof (cases "is_desynced d c")
  case True
  then show ?thesis using track_known [OF g t] by (simp add: delivered_def)
next
  case False
  then obtain j where j: "direction_at cr ses d segs j c" "settled ses j (reassembler_for d c)"
      "plain = plaintexts (take j (ses_records ses))"
    using del by (auto simp: delivered_def)
  have same: "reassembler_for d conn = reassembler_for d c" using tracked_same [OF del False g t] by blast
  moreover have "conn_state conn = conn_state c" using track_known [OF g t] by blast
  ultimately have "direction_at cr ses d segs j conn" using j(1) direction_at_cong by blast
  then show ?thesis using j(2,3) same by (auto simp: delivered_def)
qed

lemma undisturbed_frame:
  assumes fit: "undisturbed ses d (cf # cfs) c" and del: "delivered cr ses d segs plain c"
    and g: "get_conn (frame_key (cf_frame cf)) orc = Some c"
    and t: "track_frame (cf_frame cf) (cf_env cf) orc = (key, x, conn)"
    and wf: "wf_reassembler (reassembler_for d conn)" "wf_reassembler (reassembler_for d c0)"
    and dir: "from_sender ses (cf_frame cf) \<longleftrightarrow> x = d" and p: "p = snd (frame_segment ses cf)"
    and c0: "get_conn key (feed_payload (cf_frame cf) (cf_index cf) p (cf_env cf) key x conn orc) = Some c0"
    and ds: "drain_step cfg x c0 c1"
  shows "undisturbed ses d cfs c1"
proof -
  have nd: "\<not> is_desynced d c" using fit by (simp add: undisturbed_def)
  have conn: "undisturbed ses d (cf # cfs) conn" "anchored (ses_base ses) (reassembler_for d conn)"
    using tracked_same [OF del nd g t] track_known [OF g t] fit by (simp_all add: undisturbed_def)
  have fed: "undisturbed ses d cfs c0"
  proof (cases "x = d")
    case True
    then show ?thesis using feed_fits [OF wf(1) conn(2,1) _ p c0 [unfolded True]] dir by simp
  next
    case False
    then show ?thesis
      using feed_state [OF c0] conn(1) fits_tail by (auto simp: undisturbed_def)
  qed
  have "fits ses cfs (reassembler_for d c1) = fits ses cfs (reassembler_for d c0)"
  proof (cases "x = d")
    case True
    then have "wf_reassembler (reassembler_for d c1)" using ds by (simp add: drain_step_def)
    then show ?thesis
      using wf(2) ds True by (intro fits_cong) (simp_all add: drain_step_def wf_reassembler_def wf_core_def)
  next
    case False
    then show ?thesis using ds by (simp add: drain_step_def)
  qed
  then show ?thesis using fed ds by (simp add: undisturbed_def drain_step_def)
qed

lemma keeps_open_closes:
  "keeps_open ses e (client_endpoint c) frame \<Longrightarrow> frame_key frame = session_key ses \<Longrightarrow> \<not> fin_seen e c \<Longrightarrow>
     \<not> frame_closes frame (Some c)"
  by (auto simp: frame_closes_def keeps_open_def fin_seen_def frame_src_def split: if_splits)

lemma run_own:
  assumes inv: "run_inv w ses d e client fit (cf # cfs) segs plain orc"
    and pf: "process_frame w (cf_frame cf) (cf_index cf) (cf_data cf) (cf_timestamp cf) (cf_env cf) orc = Inr (evt, out, orc')"
    and ses: "session_ok (w_crypto w) ses" and ok: "frame_ok w ses d e client cf"
    and own: "frame_key (cf_frame cf) = session_key ses" and d: "d = (ses_sender ses = client)"
    and within: "segs_within (length (session_stream (w_crypto w) ses)) (segs @ new_segments ses cf)"
  shows "run_inv w ses d e client fit cfs (segs @ new_segments ses cf) (plain @ session_plain ses out) orc'"
proof -
  have reach: "orch_reach w orc" and idle: "idle_timeout (oc_config orc) = None"
    and kl: "secrets_known ses d (ks_current (oc_keylog orc))" using inv by (simp_all add: run_inv_def)
  obtain c where c: "get_conn (frame_key (cf_frame cf)) orc = Some c" "client_endpoint c = client" "\<not> fin_seen e c"
      "delivered (w_crypto w) ses d segs plain c" "fit \<longrightarrow> undisturbed ses d (cf # cfs) c" using inv own by (auto simp: run_inv_def)
  have reads: "reads_known (w_hex w) ses d (fe_records (cf_env cf) i)" for i using ok by (simp add: frame_ok_def)
  show ?thesis
    using orch_reach_inv [OF reach] pf
  proof (cases rule: process_frame_parts)
    case (1 p x conn orc1 n c0 c1)
    note tk = track_known [OF c(1) 1(2)]
    note oinv = orch_reach_inv [OF reach]
    have wf: "wf_reassembler (reassembler_for y conn)" for y
      using track_frame_ok [OF oinv 1(2)] by (simp add: conn_ok_def stream_ok_def)
    have wf0: "wf_reassembler (reassembler_for y c0)" for y using 1(21) by (simp add: conn_ok_def stream_ok_def)
    have del: "delivered (w_crypto w) ses d segs plain conn"
      by (rule delivered_tracked [OF c(4,1) 1(2)])
    have dir: "from_sender ses (cf_frame cf) \<longleftrightarrow> x = d"
      using from_sender_iff [OF own] conn_direction(1) [OF oinv c(1)] own c(2) tk d by simp
    have plain: "session_plain ses out = (if x = d then map dm_tls_app_data out else [])"
      using session_plain_frame [OF reach pf] dir by simp
    have "delivered (w_crypto w) ses d (segs @ new_segments ses cf) (plain @ session_plain ses out) c1"
    proof (cases "x = d")
      case True
      have seg: "new_segments ses cf = [(unat (tf_seq (cf_frame cf) - ses_base ses), p)]"
        using True dir index_range_Inr [OF 1(1)] by (simp add: new_segments_def frame_segment_def)
      then have "carries (session_stream (w_crypto w) ses) (unat (tf_seq (cf_frame cf) - ses_base ses), p)"
        using True dir ok by (simp add: frame_ok_def new_segments_def)
      then show ?thesis
        using delivered_own [OF ses reads within [unfolded seg] _ kl del wf 1(11) [unfolded True]
            wf0 1(5) [unfolded True] 1(14) 1(15) [unfolded True]] True seg plain by simp
    next
      case False
      then show ?thesis
        using delivered_back [OF del False 1(11) wf0 1(5) 1(14,15)] dir plain by (simp add: new_segments_def)
    qed
    moreover have "fit \<longrightarrow> undisturbed ses d cfs c1"
      using undisturbed_frame [OF _ c(4,1) 1(2) wf wf0 dir _ 1(11,15)] c(5) index_range_Inr [OF 1(1)]
      by (simp add: frame_segment_def)
    moreover have fin: "\<not> fin_seen e c1"
      using tk ok own c(2,3) 1(17) by (auto simp: fin_seen_def frame_ok_def keeps_open_def)
    moreover have "client_endpoint c1 = client" using tk c(2) 1(15,18) by (simp add: drain_step_def)
    moreover have "\<not> is_closed (conn_meta c1)"
      using keeps_open_closes [of ses e c "cf_frame cf"] track_frame_ok [OF oinv 1(2)] ok own c(1,2,3) 1(17)
      by (simp add: frame_ok_def)
    ultimately show ?thesis
      using frame_end [OF 1(4) idle [folded 1(6)]] 1(6,14) idle own orch_reach.orch_frame [OF reach pf]
        drain_known [OF 1(11) wf0 1(5) reads] kl by (simp add: run_inv_def)
  qed
qed

subsection \<open>Runs\<close>

lemma segs_within_append:
  "segs_within n (segs @ segs') \<longleftrightarrow> segs_within n segs \<and> (\<forall>e \<in> set segs'. \<forall>k. covered [e] k \<longrightarrow> k < n)"
  unfolding segs_within_def covered_def list_ex_iff by auto

lemma carries_within: "carries stream e \<Longrightarrow> covered [e] k \<Longrightarrow> k < length stream"
  using carries_on_stream(2) [of stream e] by (cases "snd e = []") (auto simp: covered_def)

lemma new_segments_within:
  assumes "segs_within (length (session_stream (w_crypto w) ses)) segs" and "frame_ok w ses d e client cf"
  shows "segs_within (length (session_stream (w_crypto w) ses)) (segs @ new_segments ses cf)"
  using assms carries_within [of "session_stream (w_crypto w) ses" "frame_segment ses cf"]
  by (auto simp: segs_within_append new_segments_def frame_ok_def)

text \<open>A run comes to its end when the payload ranges lie in the packet data and no script panics.\<close>

definition in_data :: "capture_frame \<Rightarrow> bool" where
  "in_data cf \<longleftrightarrow> (\<exists>p. index_range (payload_range (cf_frame cf)) (cf_data cf) = Inr p)"

lemma process_frames_end:
  "calm (w_host w) \<Longrightarrow> orch_reach w orc \<Longrightarrow> \<forall>cf \<in> set cfs. in_data cf \<Longrightarrow> \<exists>out orc'. process_frames w cfs orc = Inr (out, orc')"
proof (induction cfs arbitrary: orc)
  case (Cons cf cfs)
  obtain p where p: "index_range (payload_range (cf_frame cf)) (cf_data cf) = Inr p" using Cons.prems(3) by (auto simp: in_data_def)
  obtain out orc1 where pf: "process_frame w (cf_frame cf) (cf_index cf) (cf_data cf) (cf_timestamp cf) (cf_env cf) orc
      = Inr (packet_event_of (cf_frame cf) (cf_timestamp cf), out, orc1)"
    by (rule process_frame_calm [OF orch_reach_inv [OF Cons.prems(2)] p Cons.prems(1)])
  then show ?case using Cons.IH [OF Cons.prems(1) orch_frame [OF Cons.prems(2) pf]] Cons.prems(3) by force
qed simp

lemma run_frames:
  assumes ses: "session_ok (w_crypto w) ses" and d: "d = (ses_sender ses = client)"
  shows "run_inv w ses d e client fit cfs segs plain orc \<Longrightarrow>
    \<forall>cf \<in> set cfs. frame_ok w ses d e client cf \<Longrightarrow>
    segs_within (length (session_stream (w_crypto w) ses)) segs \<Longrightarrow>
    process_frames w cfs orc = Inr (out, orc') \<Longrightarrow>
    run_inv w ses d e client fit [] (segs @ session_segments ses cfs) (plain @ session_plain ses out) orc'
      \<and> segs_within (length (session_stream (w_crypto w) ses)) (segs @ session_segments ses cfs)"
proof (induction cfs arbitrary: orc segs plain out)
  case Nil
  then show ?case by (simp add: session_segments_def session_frames_def session_plain_def)
next
  case (Cons cf cfs)
  have ok: "frame_ok w ses d e client cf" using Cons.prems(2) by simp
  have reach: "orch_reach w orc" using Cons.prems(1) by (simp add: run_inv_def)
  obtain evt out1 orc1 out' where pf: "process_frame w (cf_frame cf) (cf_index cf) (cf_data cf) (cf_timestamp cf)
      (cf_env cf) orc = Inr (evt, out1, orc1)" "process_frames w cfs orc1 = Inr (out', orc')" "out = out1 @ out'"
    using Cons.prems(4) by (auto split: sum.splits)
  note within = new_segments_within [OF Cons.prems(3) ok]
  have "run_inv w ses d e client fit cfs (segs @ new_segments ses cf) (plain @ session_plain ses out1) orc1"
  proof (cases "frame_key (cf_frame cf) = session_key ses")
    case True
    show ?thesis by (rule run_own [OF Cons.prems(1) pf(1) ses ok True d within])
  next
    case False
    then have "\<not> from_sender ses (cf_frame cf)" using from_sender_key by blast
    then show ?thesis
      using run_other [OF Cons.prems(1) pf(1) ok False] session_plain_frame [OF reach pf(1)]
      by (simp add: new_segments_def)
  qed
  from Cons.IH [OF this _ within pf(2)] Cons.prems(2) show ?case
    using pf(3) by (simp add: session_segments_Cons new_segments_def session_plain_def)
qed

text \<open>The state a run starts from: the session's direction at a record boundary with nothing buffered.\<close>

definition to_server :: "session \<Rightarrow> connection \<Rightarrow> bool" where
  "to_server ses c \<longleftrightarrow> ses_sender ses = client_endpoint c"

definition direction_open :: "crypto \<Rightarrow> session \<Rightarrow> connection \<Rightarrow> bool" where
  "direction_open cr ses c \<longleftrightarrow>
     (let r = reassembler_for (to_server ses c) c in
      \<not> is_desynced (to_server ses c) c \<and> anchored (ses_base ses) r
      \<and> next_expected_relative r = length (ses_past ses) \<and> contig_bytes r = [] \<and> pending r = []
      \<and> conn_ready cr ses (to_server ses c) 0 (conn_state c))"

definition session_open :: "'vm world \<Rightarrow> session \<Rightarrow> 'vm orchestrator \<Rightarrow> connection \<Rightarrow> bool" where
  "session_open w ses orc c \<longleftrightarrow>
     orch_reach w orc \<and> idle_timeout (oc_config orc) = None \<and> get_conn (session_key ses) orc = Some c
     \<and> session_ok (w_crypto w) ses \<and> direction_open (w_crypto w) ses c
     \<and> secrets_known ses (to_server ses c) (ks_current (oc_keylog orc))"

definition capture_ok :: "'vm world \<Rightarrow> session \<Rightarrow> connection \<Rightarrow> bool \<Rightarrow> capture_frame list \<Rightarrow> bool" where
  "capture_ok w ses c e cfs \<longleftrightarrow>
     \<not> fin_seen e c \<and> (\<forall>cf \<in> set cfs. frame_ok w ses (to_server ses c) e (client_endpoint c) cf)"

text \<open>All the payload of the sender's frames could be pending at once, and no push is later than the age limit after another.\<close>

definition capture_fits :: "pending_limits \<Rightarrow> session \<Rightarrow> capture_frame list \<Rightarrow> bool" where
  "capture_fits l ses cfs \<longleftrightarrow>
     sum_list (map (\<lambda>e. length (snd e)) (session_segments ses cfs)) \<le> max_bytes l
     \<and> length (session_segments ses cfs) \<le> max_packets l
     \<and> (\<forall>cf \<in> set (session_frames ses cfs). \<forall>cf' \<in> set (session_frames ses cfs).
          elapsed (fe_push_t0 (cf_env cf')) (fe_push_t1 (cf_env cf)) \<le> max_age l)"

lemma run_start:
  assumes "session_open w ses orc c" and "\<not> fin_seen e c"
  shows "run_inv w ses (to_server ses c) e (client_endpoint c) (capture_fits (orch_limits orc) ses cfs) cfs
      [(0, ses_past ses)] [] orc
    \<and> segs_within (length (session_stream (w_crypto w) ses)) [(0, ses_past ses)]"
proof -
  let ?d = "to_server ses c"
  let ?r = "reassembler_for ?d c"
  have so: "orch_reach w orc" "idle_timeout (oc_config orc) = None" "get_conn (session_key ses) orc = Some c"
      "direction_open (w_crypto w) ses c" "secrets_known ses ?d (ks_current (oc_keylog orc))"
    using assms(1) by (simp_all add: session_open_def)
  have cok: "wf_reassembler ?r" "limits ?r = orch_limits orc"
    using orch_inv_conn [OF orch_reach_inv [OF so(1)] so(3)] by (auto simp: conn_ok_def stream_ok_def)
  have r: "\<not> is_desynced ?d c" "anchored (ses_base ses) ?r" "next_expected_relative ?r = length (ses_past ses)"
      "contig_bytes ?r = []" "pending ?r = []" "conn_ready (w_crypto w) ses ?d 0 (conn_state c)"
    using so(4) by (simp_all add: direction_open_def Let_def)
  have len: "contiguous_len ?r = 0" "pending_len ?r = 0" "pending_since ?r = None"
    using cok(1) r(4,5) by (simp_all add: wf_reassembler_def wf_core_def)
  have "held ?r = {n. covered [(0, ses_past ses)] n}" using r(3,5) by (auto simp: held_def covered_def)
  then have "direction_at (w_crypto w) ses ?d [(0, ses_past ses)] 0 c"
    using r len by (simp add: direction_at_def Let_def contig_on_stream_def pending_on_stream_def)
  moreover have "settled ses 0 ?r" using r(3) by (cases "ses_records ses") (simp_all add: settled_def)
  ultimately have "delivered (w_crypto w) ses ?d [(0, ses_past ses)] [] c" by (auto simp: delivered_def)
  moreover have "capture_fits (orch_limits orc) ses cfs \<longrightarrow> undisturbed ses ?d cfs c"
    using r len cok(2) by (auto simp: capture_fits_def undisturbed_def fits_def)
  moreover have "segs_within (length (session_stream (w_crypto w) ses)) [(0, ses_past ses)]"
    by (auto simp: segs_within_def covered_def session_stream_def)
  ultimately show ?thesis using so assms(2) by (simp add: run_inv_def)
qed

text \<open>What a whole run leaves.\<close>

lemma run_delivers:
  assumes "session_open w ses orc c" and "capture_ok w ses c e cfs" and run: "process_frames w cfs orc = Inr (out, orc')"
  shows "\<exists>c'. get_conn (session_key ses) orc' = Some c'
    \<and> (capture_fits (orch_limits orc) ses cfs \<longrightarrow> \<not> is_desynced (to_server ses c) c')
    \<and> (\<not> is_desynced (to_server ses c) c' \<longrightarrow> session_plain ses out =
          plaintexts (whole (first_gap ((0, ses_past ses) # session_segments ses cfs) - length (ses_past ses))
                     (ses_records ses)))"
proof -
  let ?d = "to_server ses c" and ?segs = "(0, ses_past ses) # session_segments ses cfs"
  have ok: "session_ok (w_crypto w) ses" using assms(1) by (simp add: session_open_def)
  have start: "\<not> fin_seen e c" "\<forall>cf \<in> set cfs. frame_ok w ses ?d e (client_endpoint c) cf"
    using assms(2) by (simp_all add: capture_ok_def)
  have d: "?d = (ses_sender ses = client_endpoint c)" by (simp add: to_server_def)
  have "run_inv w ses ?d e (client_endpoint c) (capture_fits (orch_limits orc) ses cfs) [] ?segs (session_plain ses out) orc'"
    using run_frames [OF ok d _ start(2) _ run] run_start [OF assms(1) start(1)] by fastforce
  then obtain c' where c': "orch_reach w orc'" "get_conn (session_key ses) orc' = Some c'"
      "delivered (w_crypto w) ses ?d ?segs (session_plain ses out) c'"
      "capture_fits (orch_limits orc) ses cfs \<longrightarrow> undisturbed ses ?d [] c'"
    by (auto simp: run_inv_def)
  have "session_plain ses out =
      plaintexts (whole (first_gap ?segs - length (ses_past ses)) (ses_records ses))" if nd: "\<not> is_desynced ?d c'"
  proof -
    obtain j where j: "direction_at (w_crypto w) ses ?d ?segs j c'" "settled ses j (reassembler_for ?d c')"
        "session_plain ses out = plaintexts (take j (ses_records ses))"
      using c'(3) nd by (auto simp: delivered_def)
    have "first_gap ?segs = next_expected_relative (reassembler_for ?d c')"
      using held_first_gap conn_direction(2) [OF orch_reach_inv [OF c'(1)] c'(2)] j(1)
      by (auto simp: direction_at_def Let_def)
    then show ?thesis using j(2,3) by (simp add: settled_def)
  qed
  then show ?thesis using c'(2,4) by (auto simp: undisturbed_def)
qed

subsection \<open>From the client's SYN on\<close>

text \<open>A connection not seen yet, and the SYN that opens it.\<close>

definition opens_with_client_hello :: "session \<Rightarrow> bool" where
  "opens_with_client_hello ses \<longleftrightarrow> (case ses_records ses of Client_Hello hello # ms \<Rightarrow> True | _ \<Rightarrow> False)"

definition session_starts :: "crypto \<Rightarrow> session \<Rightarrow> keylog_source \<Rightarrow> bool" where
  "session_starts cr ses kl \<longleftrightarrow>
     session_ok cr ses \<and> opens_with_client_hello ses \<and> ses_past ses = [] \<and> secrets_known ses True (ks_current kl)"

definition session_unseen :: "'vm world \<Rightarrow> session \<Rightarrow> 'vm orchestrator \<Rightarrow> bool" where
  "session_unseen w ses orc \<longleftrightarrow>
     orch_reach w orc \<and> idle_timeout (oc_config orc) = None \<and> get_conn (session_key ses) orc = None
     \<and> session_starts (w_crypto w) ses (oc_keylog orc)"

text \<open>A frame of another connection before it.\<close>

definition passes_by :: "'vm world \<Rightarrow> session \<Rightarrow> capture_frame \<Rightarrow> bool" where
  "passes_by w ses cf \<longleftrightarrow>
     frame_key (cf_frame cf) \<noteq> session_key ses
     \<and> in_data cf
     \<and> (\<forall>i. reads_known (w_hex w) ses True (fe_records (cf_env cf) i))"

definition opening_syn :: "session \<Rightarrow> capture_frame \<Rightarrow> bool" where
  "opening_syn ses cf \<longleftrightarrow>
     (let frame = cf_frame cf in
      from_sender ses frame \<and> fl_syn (tf_flags frame) \<and> \<not> fl_fin (tf_flags frame) \<and> \<not> fl_rst (tf_flags frame)
      \<and> tf_seq frame + 1 = ses_base ses \<and> index_range (payload_range frame) (cf_data cf) = Inr [])"

lemma drain_empty:
  assumes "get_conn key orc = Some c" and "wf_reassembler (reassembler_for d c)"
    and "drain_records w key d ts envs i orc out = Inr (orc', out')"
  shows "contig_bytes (reassembler_for d c) = [] \<Longrightarrow> orc' = orc \<and> out' = out"
  using assms by (induction rule: drain_records_rule) (simp_all add: split_record_def)

lemma track_syn:
  assumes syn: "opening_syn ses cf" and none: "get_conn (session_key ses) orc = None"
    and t: "track_frame (cf_frame cf) env orc = (key, x, conn)"
  shows "x \<and> client_endpoint conn = ses_sender ses \<and> conn_state conn = None \<and> \<not> desynced_c2s conn
    \<and> reassembler_c2s conn = (with_pending_limits (orch_limits orc))\<lparr>base_seq := Some (ses_base ses)\<rparr>
    \<and> \<not> fin_seen e conn \<and> \<not> is_closed (conn_meta conn)"
proof -
  let ?f = "cf_frame cf"
  have f: "from_sender ses ?f" "fl_syn (tf_flags ?f)" "\<not> fl_fin (tf_flags ?f)" "\<not> fl_rst (tf_flags ?f)"
      "tf_seq ?f + 1 = ses_base ses"
    using syn by (simp_all add: opening_syn_def Let_def)
  have "(src_ip ?f, src_port ?f) = ses_sender ses"
    using f(1) by (simp add: from_sender_def frame_src_def)
  then show ?thesis
    using t track_frame_eq [of ?f env orc] none from_sender_key [OF f(1)] f(2-5)
    by (auto simp: connection_new_def set_isn_def with_pending_limits_def reassembler_for_def set_reassembler_def
        close_meta_def default_meta_def is_closed_def fin_seen_def)
qed

lemma syn_opens:
  assumes un: "session_unseen w ses orc" and syn: "opening_syn ses cf"
    and pf: "process_frame w (cf_frame cf) (cf_index cf) (cf_data cf) (cf_timestamp cf) (cf_env cf) orc = Inr (evt, out, orc')"
  shows "\<exists>c. out = [] \<and> session_open w ses orc' c \<and> to_server ses c \<and> client_endpoint c = ses_sender ses
    \<and> \<not> fin_seen e c \<and> orch_limits orc' = orch_limits orc"
proof -
  let ?f = "cf_frame cf"
  have f: "from_sender ses ?f" "index_range (payload_range ?f) (cf_data cf) = Inr []"
    using syn by (simp_all add: opening_syn_def Let_def)
  have start: "orch_reach w orc" "idle_timeout (oc_config orc) = None" "get_conn (session_key ses) orc = None"
      "session_ok (w_crypto w) ses" "opens_with_client_hello ses" "ses_past ses = []"
      "secrets_known ses True (ks_current (oc_keylog orc))" using un by (simp_all add: session_unseen_def session_starts_def)
  have key: "frame_key ?f = session_key ses" by (rule from_sender_key [OF f(1)])
  show ?thesis
    using orch_reach_inv [OF start(1)] pf
  proof (cases rule: process_frame_parts)
    case (1 p x conn orc1 n c0 c1)
    note conn = track_syn [OF syn start(3) 1(2), of e]
    let ?put = "put_conn (session_key ses) conn orc"
    have fed: "feed_payload ?f (cf_index cf) p (cf_env cf) (frame_key ?f) x conn orc = ?put"
      using 1(1) f(2) by (simp add: feed_payload_def key)
    then have c0: "c0 = conn" using 1(11) key by simp
    have "wf_reassembler (reassembler_for x c0)" using 1(21) by (simp add: conn_ok_def stream_ok_def)
    moreover have "contig_bytes (reassembler_for x c0) = []"
      using conn c0 by (simp add: reassembler_for_def with_pending_limits_def contig_bytes_def)
    ultimately have orc1: "orc1 = ?put" "out = []" using drain_empty [OF 1(11) _ 1(5)] fed by simp_all
    have idle1: "idle_timeout (oc_config orc1) = None" using 1(6) start(2) by simp
    note fe = frame_end [OF 1(4) idle1]
    have "get_conn (session_key ses) orc' = Some conn" using fe(3) [of "session_key ses" conn] conn orc1(1) key by simp
    moreover have "conn_ready (w_crypto w) ses True 0 None"
      using start(5)
      by (simp add: opens_with_client_hello_def conn_ready_def opens_with_hello_def split: list.splits sent.splits)
    then have "direction_open (w_crypto w) ses conn"
      using conn start(6)
      by (simp add: direction_open_def to_server_def reassembler_for_def is_desynced_def anchored_def
          with_pending_limits_def contig_bytes_def)
    ultimately have "session_open w ses orc' conn"
      using start fe(1,2) 1(6) orch_reach.orch_frame [OF start(1) pf] conn orc1(1)
      by (simp add: session_open_def to_server_def)
    moreover have "orch_limits orc' = orch_limits orc" using fe(2) 1(6) by (simp add: orch_limits_def)
    ultimately show ?thesis using orc1(2) conn by (auto simp: to_server_def)
  qed
qed

lemma unseen_frame:
  assumes un: "session_unseen w ses orc" and stray: "passes_by w ses cf"
    and pf: "process_frame w (cf_frame cf) (cf_index cf) (cf_data cf) (cf_timestamp cf) (cf_env cf) orc = Inr (evt, out, orc')"
  shows "session_unseen w ses orc' \<and> orch_limits orc' = orch_limits orc \<and> session_plain ses out = []"
proof -
  let ?f = "cf_frame cf"
  have f: "frame_key ?f \<noteq> session_key ses" "\<And>i. reads_known (w_hex w) ses True (fe_records (cf_env cf) i)"
    using stray by (simp_all add: passes_by_def)
  have start: "orch_reach w orc" "idle_timeout (oc_config orc) = None" "get_conn (session_key ses) orc = None"
      "session_starts (w_crypto w) ses (oc_keylog orc)" using un by (simp_all add: session_unseen_def)
  have plain: "session_plain ses out = []"
    using session_plain_frame [OF start(1) pf, of ses] from_sender_key [of ses ?f] f(1) by auto
  show ?thesis
    using orch_reach_inv [OF start(1)] pf
  proof (cases rule: process_frame_parts)
    case (1 p x conn orc1 n c0 c1)
    have idle1: "idle_timeout (oc_config orc1) = None" using 1(6) start(2) by simp
    note fe = frame_end [OF 1(4) idle1]
    have wf: "wf_reassembler (reassembler_for x c0)" using 1(21) by (simp add: conn_ok_def stream_ok_def)
    have "secrets_known ses True (ks_current (oc_keylog orc'))"
      using drain_known [OF 1(11) wf 1(5) f(2)] start(4) fe(1) by (simp add: session_starts_def)
    moreover have "get_conn (session_key ses) orc' = None"
      using other_connections_untouched [OF start(1) pf start(2), of "session_key ses"] f(1) start(3) by simp
    ultimately have "session_unseen w ses orc'"
      using start fe(2) 1(6) orch_reach.orch_frame [OF start(1) pf] by (simp add: session_unseen_def session_starts_def)
    moreover have "orch_limits orc' = orch_limits orc" using fe(2) 1(6) by (simp add: orch_limits_def)
    ultimately show ?thesis using plain by blast
  qed
qed

lemma unseen_frames:
  "session_unseen w ses orc \<Longrightarrow> \<forall>cf \<in> set cfs. passes_by w ses cf \<Longrightarrow> process_frames w cfs orc = Inr (out, orc') \<Longrightarrow>
    session_unseen w ses orc' \<and> orch_limits orc' = orch_limits orc \<and> session_plain ses out = []"
proof (induction cfs arbitrary: orc out)
  case (Cons cf cfs)
  obtain evt out1 orc1 out2 where pf: "process_frame w (cf_frame cf) (cf_index cf) (cf_data cf) (cf_timestamp cf) (cf_env cf) orc
      = Inr (evt, out1, orc1)" "process_frames w cfs orc1 = Inr (out2, orc')" "out = out1 @ out2"
    using Cons.prems(3) by (auto split: sum.splits)
  have "session_unseen w ses orc1 \<and> orch_limits orc1 = orch_limits orc \<and> session_plain ses out1 = []"
    using unseen_frame [OF Cons.prems(1) _ pf(1)] Cons.prems(2) by simp
  then show ?case
    using Cons.IH [OF _ _ pf(2)] Cons.prems(2) pf(3) by (simp add: session_plain_def)
qed (simp add: session_plain_def)

lemma process_frames_append:
  "process_frames w (cfs @ cfs') orc = Inr (out, orc') \<Longrightarrow>
     \<exists>out1 orc1 out2. process_frames w cfs orc = Inr (out1, orc1) \<and> process_frames w cfs' orc1 = Inr (out2, orc') \<and> out = out1 @ out2"
proof (induction cfs arbitrary: orc out)
  case (Cons cf cfs)
  then show ?case by (fastforce split: sum.splits)
qed simp

lemma capture_within:
  assumes "capture_ok w ses c e cfs"
  shows "segs_within (length (session_stream (w_crypto w) ses)) ((0, ses_past ses) # session_segments ses cfs)"
proof -
  have "k < length (session_stream (w_crypto w) ses)"
    if "x \<in> set (session_segments ses cfs)" "covered [x] k" for x k
    using that assms carries_within [of "session_stream (w_crypto w) ses" x k]
    by (auto simp: session_segments_def session_frames_def capture_ok_def frame_ok_def)
  then show ?thesis
    using segs_within_append [of "length (session_stream (w_crypto w) ses)" "[(0, ses_past ses)]" "session_segments ses cfs"]
    by (auto simp: segs_within_def covered_def session_stream_def)
qed

lemma all_delivered:
  assumes "session_open w ses orc c" and "capture_ok w ses c e cfs" and "capture_fits (orch_limits orc) ses cfs"
    and "\<forall>n < length (session_stream (w_crypto w) ses). covered ((0, ses_past ses) # session_segments ses cfs) n"
    and "process_frames w cfs orc = Inr (out, orc')"
  shows "session_plain ses out = plaintexts (ses_records ses)"
proof -
  let ?L = "length (session_stream (w_crypto w) ses)" and ?segs = "(0, ses_past ses) # session_segments ses cfs"
  have "first_gap ?segs = ?L"
    using capture_within [OF assms(2)] assms(4) by (intro first_gap_eq) (auto simp: segs_within_def)
  moreover have "?L = length (ses_past ses) + wire_len (ses_records ses)"
    using assms(1) session_ok_records(1,2)
    by (auto simp: session_open_def session_stream_def intro: length_sealed_stream)
  ultimately have "whole (first_gap ?segs - length (ses_past ses)) (ses_records ses) = ses_records ses" by simp
  then show ?thesis using run_delivers [OF assms(1,2,5)] assms(3) by (auto simp: session_plain_def)
qed

lemma delivered_from_syn:
  assumes "session_unseen w ses orc" and "\<forall>cf \<in> set before. passes_by w ses cf" and "opening_syn ses syn"
    and "\<forall>cf \<in> set cfs. frame_ok w ses True e (ses_sender ses) cf" and "capture_fits (orch_limits orc) ses cfs"
    and "\<forall>n < length (session_stream (w_crypto w) ses). covered (session_segments ses cfs) n"
    and "process_frames w (before @ syn # cfs) orc = Inr (out, orc')"
  shows "session_plain ses out = plaintexts (ses_records ses)"
proof -
  obtain out0 orc0 rest where run0: "process_frames w before orc = Inr (out0, orc0)"
    and run_rest: "process_frames w (syn # cfs) orc0 = Inr (rest, orc')" and rest: "out = out0 @ rest"
    using process_frames_append [OF assms(7)] by blast
  obtain evt out1 orc1 out2 where
    pf: "process_frame w (cf_frame syn) (cf_index syn) (cf_data syn) (cf_timestamp syn) (cf_env syn) orc0 = Inr (evt, out1, orc1)"
    and run1: "process_frames w cfs orc1 = Inr (out2, orc')" and out: "out = out0 @ out1 @ out2"
    using run_rest rest by (auto split: sum.splits)
  have un: "session_unseen w ses orc0" "orch_limits orc0 = orch_limits orc" "session_plain ses out0 = []"
    using unseen_frames [OF assms(1,2) run0] by blast+
  obtain c where c: "out1 = []" "session_open w ses orc1 c" "to_server ses c" "client_endpoint c = ses_sender ses"
      "\<not> fin_seen e c" "orch_limits orc1 = orch_limits orc0"
    using syn_opens [OF un(1) assms(3) pf] by blast
  have "capture_ok w ses c e cfs" using c assms(4) by (simp add: capture_ok_def)
  moreover have "\<forall>n < length (session_stream (w_crypto w) ses). covered ((0, ses_past ses) # session_segments ses cfs) n"
    using assms(6) by (simp add: covered_def)
  ultimately have "session_plain ses out2 = plaintexts (ses_records ses)"
    using all_delivered [OF c(2), of e cfs out2 orc'] assms(5) c(6) un(2) run1 by simp
  then show ?thesis using un(3) c(1) out by (simp add: session_plain_def)
qed

text \<open>The frames of such a capture lie in their packets.\<close>

lemma frames_in_data:
  "capture_ok w ses c e cfs \<Longrightarrow> \<forall>cf \<in> set cfs. in_data cf"
  "\<forall>cf \<in> set before. passes_by w ses cf \<Longrightarrow> opening_syn ses syn \<Longrightarrow>
     \<forall>cf \<in> set cfs. frame_ok w ses d e client cf \<Longrightarrow> \<forall>cf \<in> set (before @ syn # cfs). in_data cf"
  by (auto simp: capture_ok_def frame_ok_def passes_by_def opening_syn_def in_data_def Let_def)

end
