(* ===== verification/Delivery_Demo.thy ===== *)
theory Delivery_Demo
  imports Delivery_Run
begin

text \<open>
  The captures that the delivery theorems are applied to, each out of order: a client's TLS 1.3 stream, a server's, and a server's
  TLS 1.2 stream.
\<close>

subsection \<open>Captures\<close>

text \<open>
  A client hello, a change of cipher spec, two messages and an alert: the tail of the stream comes first, then a FIN of the
  server, then the head, the hello in it, with an overlap.
\<close>

definition live_session :: session where
  "live_session =
     \<lparr>ses_sender = (V4 1, 5000), ses_receiver = (V4 2, 443), ses_client = True, ses_random = demo_random, ses_server_random = None,
      ses_secret = (\<lambda>g. case g of Handshake \<Rightarrow> None | Application \<Rightarrow> Some (replicate 32 7)), ses_master = Some [9],
      ses_algorithm = Aes128Gcm,
      ses_keys = \<lparr>sk_traffic = \<lambda>_. demo_keys, sk_master = derive12 toy_crypto [9] demo_random [] Aes128Gcm True\<rparr>, ses_seq = (\<lambda>_. 0), ses_base = 100, ses_past = [],
      ses_records = [Client_Hello (drop 5 demo_hello), SentCipherSpec, Sealed Application 0x17 [104, 105] 0, Sealed Application 0x17 [33] 2,
        Sealed Application 0x15 [1, 0] 0]\<rparr>"

definition live_config :: orchestrator_config where
  "live_config = demo_config\<lparr>max_pending_bytes := 160, max_pending_packets := 4\<rparr>"

definition live_start :: "unit orchestrator" where
  "live_start = orchestrator_new demo_source demo_engine live_config 0 0"

definition live_frame :: "tcp_frame \<Rightarrow> bytes \<Rightarrow> capture_frame" where
  "live_frame frame data = \<lparr>cf_frame = frame, cf_index = 0, cf_data = data, cf_timestamp = 7, cf_env = demo_env\<rparr>"

definition live_syn :: capture_frame where
  "live_syn = live_frame (run_frame 99 True False 0) []"

definition live_stray :: capture_frame where
  "live_stray = live_frame ((run_frame 7 False False 1)\<lparr>dst_ip := V4 3\<rparr>) [9]"

definition server_fin :: tcp_frame where
  "server_fin = \<lparr>src_ip = V4 2, dst_ip = V4 1, src_port = 443, dst_port = 5000, tf_seq = 9, ack_number = 0,
     tf_flags = \<lparr>fl_syn = False, fl_fin = True, fl_rst = False, fl_ack = True, fl_psh = False\<rparr>, payload_range = (0, 0)\<rparr>"

definition live_tail :: capture_frame where
  "live_tail = live_frame (run_frame 163 False False 59) (take 59 (drop 63 (session_stream toy_crypto live_session)))"

definition live_head :: capture_frame where
  "live_head = live_frame (run_frame 100 False False 73) (take 73 (drop 0 (session_stream toy_crypto live_session)))"

definition live_capture :: "capture_frame list" where
  "live_capture = [live_tail, live_frame server_fin [], live_head]"

lemma live_start_eval:
  "idle_timeout (oc_config live_start) = None"
  "(max_pending_bytes (oc_config live_start), max_pending_packets (oc_config live_start), max_pending_age (oc_config live_start))
     = (160, 4, 50)"
  "secret_for (ks_current (oc_keylog live_start)) demo_random ClientHandshakeTrafficSecret = None"
  "secret_for (ks_current (oc_keylog live_start)) demo_random ClientTrafficSecret0 = Some (replicate 32 7)"
  "get_conn (session_key live_session) live_start = None"
  "client_random_from_client_hello (drop 5 demo_hello) = Some demo_random"
  "secret_for (ks_current (oc_keylog live_start)) demo_random ClientRandom = Some [9]"
  by (code_simp, code_simp, code_simp, code_simp, code_simp, code_simp, code_simp)

text \<open>The toy cipher's tag tells the keys of different algorithms apart.\<close>

lemma toy_tag_key: "toy_tag k n a = toy_tag k' n' a' \<Longrightarrow> sum_list k = sum_list k'"
  by (simp add: toy_tag_def fixed_def)

lemma toy_open_tag:
  assumes "sum_list k \<noteq> sum_list k'"
  shows "aead_open toy_crypto alg k' n' a' (m @ toy_tag k n a) = None"
proof -
  have "length (toy_tag k n a) = 16" by (simp add: toy_tag_def)
  moreover have "toy_tag k n a \<noteq> toy_tag k' n' a'" using assms toy_tag_key by blast
  ultimately show ?thesis by (simp add: toy_crypto_def)
qed

lemma toy_no_key13:
  assumes "body = m @ toy_tag k n a" and "\<And>g secret alg keys. ses_secret ses g = Some secret \<Longrightarrow>
      derive13 toy_crypto secret alg = Some keys \<Longrightarrow> Some (g, alg) \<noteq> except \<Longrightarrow> sum_list (rk_key keys) \<noteq> sum_list k"
  shows "no_key13 toy_crypto ses body except"
  unfolding no_key13_def assms(1) using toy_open_tag assms(2) by metis

lemma toy_other_keys:
  assumes "\<And>m. m \<in> set (ses_records ses) \<Longrightarrow> is_hello m \<or> m = SentCipherSpec \<or> (\<exists>g ct pt pad. m = Sealed g ct pt pad)"
    and "\<And>g ct pt pad g' secret alg keys. Sealed g ct pt pad \<in> set (ses_records ses) \<Longrightarrow>
      ses_secret ses g' = Some secret \<Longrightarrow> derive13 toy_crypto secret alg = Some keys \<Longrightarrow> (g', alg) \<noteq> (g, ses_algorithm ses) \<Longrightarrow>
      sum_list (rk_key keys) \<noteq> sum_list (rk_key (sk_traffic (ses_keys ses) g))"
  shows "other_keys_fail toy_crypto ses"
  unfolding other_keys_fail_def
proof (intro allI impI)
  fix j
  assume j: "j < length (ses_records ses)"
  let ?body = "nth_body toy_crypto ses j"
  have set: "ses_records ses ! j \<in> set (ses_records ses)" using j by simp
  show "others_fail_on toy_crypto ses ?body (ses_records ses ! j)"
  proof (cases "ses_records ses ! j")
    case (Sealed g ct pt pad)
    have "?body = (pt @ [ct] @ replicate pad 0) @ toy_tag (rk_key (sk_traffic (ses_keys ses) g))
        (nonce_for13 (sk_traffic (ses_keys ses) g) (seq_at ses j (Counter13 g))) (record_aad (body_len (Sealed g ct pt pad)))"
      unfolding nth_body_def Sealed by (simp add: encrypt_record13_def toy_crypto_def)
    from toy_no_key13 [OF this, of ses "Some (g, ses_algorithm ses)"] show ?thesis
      using assms(2) set Sealed by simp
  qed (use assms(1) [OF set] in auto)
qed

text \<open>A frame with a part of the stream at its place.\<close>

lemma carries_part: "carries stream (k, take n (drop k stream))"
  by (cases "n \<le> length stream - k") (simp_all add: carries_def)

lemma payload_frame_ok:
  assumes "index_range (payload_range (cf_frame cf)) (cf_data cf) = Inr p" and "from_sender ses (cf_frame cf) \<Longrightarrow>
      p = take n (drop (unat (tf_seq (cf_frame cf) - ses_base ses)) (session_stream toy_crypto ses))"
    and "keeps_open ses e client (cf_frame cf)" and "cf_env cf = demo_env"
  shows "frame_ok demo_world ses d e client cf"
proof -
  have "sub_range (payload_range (cf_frame cf)) (cf_data cf) = p" using index_range_Inr [OF assms(1)] by simp
  then show ?thesis
    using assms carries_part
    by (auto simp: frame_ok_def frame_segment_def demo_world_def demo_env_def demo_kl_env_def reads_known_def)
qed

lemma part_frame_ok:
  assumes "index_range (payload_range frame) data = Inr data" and "from_sender ses frame \<Longrightarrow>
      data = take n (drop (unat (tf_seq frame - ses_base ses)) (session_stream toy_crypto ses))"
    and "keeps_open ses e client frame"
  shows "frame_ok demo_world ses d e client (live_frame frame data)"
  using assms payload_frame_ok [of "live_frame frame data" data ses n e client d] by (simp add: live_frame_def)

lemma live_frames_fit:
  assumes "\<forall>cf \<in> set cfs. cf_env cf = demo_env"
    and "sum_list (map (\<lambda>e. length (snd e)) (session_segments ses cfs)) \<le> max_bytes l"
    and "length (session_segments ses cfs) \<le> max_packets l"
  shows "capture_fits l ses cfs"
  using assms by (auto simp: capture_fits_def session_frames_def demo_env_def elapsed_def)

subsection \<open>A client's stream\<close>

lemma live_keys:
  "derive13 toy_crypto (replicate 32 7) Aes256Gcm = None"
  "map_option (\<lambda>k. sum_list (rk_key k)) (derive13 toy_crypto (replicate 32 7) ChaCha20Poly1305) \<noteq> Some (sum_list (rk_key demo_keys))"
  by (code_simp, code_simp)

lemma live_session_ok: "session_ok toy_crypto live_session"
proof -
  have "other_keys_fail toy_crypto live_session"
  proof (rule toy_other_keys)
    show "is_hello m \<or> m = SentCipherSpec \<or> (\<exists>g ct pt pad. m = Sealed g ct pt pad)" if "m \<in> set (ses_records live_session)" for m
      using that by (auto simp: live_session_def)
    fix g ct pt pad g' secret alg keys
    assume m: "Sealed g ct pt pad \<in> set (ses_records live_session)"
      and g': "ses_secret live_session g' = Some secret" and k: "derive13 toy_crypto secret alg = Some keys"
      and ne: "(g', alg) \<noteq> (g, ses_algorithm live_session)"
    have "g = Application" using m by (auto simp: live_session_def)
    moreover have app: "g' = Application" "secret = replicate 32 7" using g' by (cases g'; simp add: live_session_def)+
    ultimately have "alg = ChaCha20Poly1305"
      using ne k live_keys(1) by (cases alg) (simp_all add: live_session_def)
    then show "sum_list (rk_key keys) \<noteq> sum_list (rk_key (sk_traffic (ses_keys live_session) g))"
      using k app(2) live_keys(2) by (simp add: live_session_def)
  qed
  moreover have "\<forall>m \<in> set (ses_records live_session). sent_ok toy_crypto live_session m"
    by (simp add: live_session_def demo_keys demo_hello_len live_start_eval(6))
  moreover have "\<forall>m \<in> set (drop 1 (ses_records live_session)). \<not> is_hello m" by (simp add: live_session_def)
  ultimately show ?thesis using toy_aead_inverts by (simp add: session_ok_def)
qed

lemma live_unseen: "session_unseen demo_world live_session live_start"
proof -
  have "orch_reach demo_world live_start" unfolding live_start_def by (rule orch_start)
  moreover have "secret_for (ks_current (oc_keylog live_start)) (ses_random live_session) (secret_label_for g True)
      = ses_secret live_session g" for g
    using live_start_eval(3,4) by (cases g) (simp_all add: live_session_def)
  ultimately show ?thesis
    using live_start_eval(1,5,7) live_session_ok
    by (simp add: session_unseen_def session_starts_def secrets_known_def demo_world_def live_session_def opens_with_client_hello_def)
qed

lemma live_passes_by: "passes_by demo_world live_session live_stray"
proof -
  have "conn_key (V4 1, 5000) (V4 3, 443) = ((V4 1, 5000), (V4 3, 443))" "session_key live_session = ((V4 1, 5000), (V4 2, 443))"
    by (code_simp, code_simp)
  then show ?thesis
    by (simp add: passes_by_def in_data_def live_stray_def live_frame_def run_frame_def frame_key_def index_range_def sub_range_def demo_env_def
        demo_kl_env_def reads_known_def)
qed

lemma live_syn_opening: "opening_syn live_session live_syn"
  by (simp add: opening_syn_def Let_def live_syn_def live_frame_def run_frame_def from_sender_def frame_src_def frame_dst_def
      live_session_def index_range_def sub_range_def)

lemma live_eval:
  "length (session_stream toy_crypto live_session) = 122"
  "map (\<lambda>e. (fst e, length (snd e))) (session_segments live_session live_capture) = [(63, 59), (0, 73)]"
  "list_all (\<lambda>cf. index_range (payload_range (cf_frame cf)) (cf_data cf) = Inr (cf_data cf)) live_capture"
  by (code_simp, code_simp, code_simp)

lemma live_session_sel:
  "ses_sender live_session = (V4 1, 5000)" "ses_receiver live_session = (V4 2, 443)" "ses_base live_session = 100"
  by (simp_all add: live_session_def)

lemma live_frames:
  assumes "set cfs \<subseteq> set live_capture"
  shows "\<forall>cf \<in> set cfs. frame_ok demo_world live_session True True (ses_sender live_session) cf"
proof -
  note sel = live_frame_def keeps_open_def run_frame_def server_fin_def frame_src_def from_sender_def live_session_sel
  have "frame_ok demo_world live_session True True (ses_sender live_session) live_tail"
    unfolding live_tail_def by (rule part_frame_ok [where n = 59]; use live_eval(3) in \<open>simp add: sel live_capture_def live_tail_def\<close>)
  moreover have "frame_ok demo_world live_session True True (ses_sender live_session) live_head"
    unfolding live_head_def by (rule part_frame_ok [where n = 73]; use live_eval(3) in \<open>simp add: sel live_capture_def live_head_def\<close>)
  moreover have "frame_ok demo_world live_session True True (ses_sender live_session) (live_frame server_fin [])"
    by (rule part_frame_ok [where n = 0]; use live_eval(3) in \<open>simp add: sel live_capture_def\<close>)
  ultimately show ?thesis using assms by (auto simp: live_capture_def)
qed

lemma live_limits: "max_bytes (orch_limits live_start) = 160" "max_packets (orch_limits live_start) = 4"
  using live_start_eval(2) by (simp_all add: orch_limits_def)

lemma live_env: "cf \<in> set live_capture \<Longrightarrow> cf_env cf = demo_env"
  by (auto simp: live_capture_def live_tail_def live_head_def live_frame_def)

lemma live_session_simps:
  "ses_past live_session = []" "length demo_hello = 43"
  "ses_records live_session = [Client_Hello (drop 5 demo_hello), SentCipherSpec, Sealed Application 0x17 [104, 105] 0, Sealed Application 0x17 [33] 2,
     Sealed Application 0x15 [1, 0] 0]"
  by (simp_all add: live_session_def demo_hello_len)

lemma live_covered:
  "capture_fits (orch_limits live_start) live_session live_capture"
  "\<forall>n < length (session_stream (w_crypto demo_world) live_session). covered (session_segments live_session live_capture) n"
proof -
  obtain x y where xy: "session_segments live_session live_capture = [(63, x), (0, y)]" "length x = 59" "length y = 73"
    using live_eval(2) by (auto simp: map_eq_Cons_conv)
  show "capture_fits (orch_limits live_start) live_session live_capture"
    by (rule live_frames_fit) (simp_all add: xy live_limits live_env)
  show "\<forall>n < length (session_stream (w_crypto demo_world) live_session). covered (session_segments live_session live_capture) n"
    using live_eval(1) by (auto simp: covered_def xy demo_world_def)
qed

subsection \<open>Servers\<close>

text \<open>A client's hello and the server's SYN have come; the key log has the secrets of the connection.\<close>

definition server_frame :: "u32 \<Rightarrow> bool \<Rightarrow> nat \<Rightarrow> tcp_frame" where
  "server_frame q syn n = \<lparr>src_ip = V4 2, dst_ip = V4 1, src_port = 443, dst_port = 5000, tf_seq = q, ack_number = 0,
     tf_flags = \<lparr>fl_syn = syn, fl_fin = False, fl_rst = False, fl_ack = True, fl_psh = False\<rparr>, payload_range = (0, n)\<rparr>"

definition serve_start :: "keylog \<Rightarrow> unit orchestrator" where
  "serve_start kl = orchestrator_new (demo_source\<lparr>ks_current := kl\<rparr>) demo_engine live_config 0 0"

definition serve_orc :: "keylog \<Rightarrow> unit orchestrator" where
  "serve_orc kl = snd (demo_step (server_frame 499 True 0) []
     (snd (demo_step (run_frame 100 False False 43) demo_hello
       (snd (demo_step (run_frame 99 True False 0) [] (serve_start kl))))))"

definition serve_keylog :: keylog where
  "serve_keylog = insert_secret (demo_random, ServerHandshakeTrafficSecret, replicate 32 5)
     (insert_secret (demo_random, ServerTrafficSecret0, replicate 32 9) demo_keylog)"

text \<open>The stream of a server's session, in two frames, the second first.\<close>

definition serve_capture :: "session \<Rightarrow> nat \<Rightarrow> nat \<Rightarrow> capture_frame list" where
  "serve_capture ses n k =
     [live_frame (server_frame (500 + of_nat n) False k) (take k (drop n (session_stream toy_crypto ses))),
      live_frame (server_frame 500 False n) (take n (session_stream toy_crypto ses))]"

text \<open>What a connection holds of the server's direction.\<close>

definition server_view where
  "server_view c = ((client_endpoint c, desynced_s2c c, base_seq (reassembler_s2c c),
       next_expected_relative (reassembler_s2c c), contig_bytes (reassembler_s2c c), pending (reassembler_s2c c),
       fin_seen_c2s (conn_meta c)),
     map_option (\<lambda>st. (client_random st, server_random st,
       seq_handshake (server_to_client st), seq_application (server_to_client st), seq12 (tls12_server_to_client st),
       map (keys_handshake (server_to_client st)) ALL_ALGORITHMS,
       map (keys_application (server_to_client st)) ALL_ALGORITHMS,
       map (keys12 (tls12_server_to_client st)) ALL_ALGORITHMS)) (conn_state c))"

definition fresh_view where
  "fresh_view = (((V4 1, 5000::u16), False, Some (500::u32), 0::nat, [] :: bytes, [] :: (nat \<times> segment) list, False),
     Some (demo_random, None :: bytes option, 0::u64, 0::u64, 0::u64, [None, None, None :: record_keys13 option],
       [None, None, None :: record_keys13 option], [None, None, None :: record_keys12 option]))"

lemma serve_conn_eval:
  "map_option server_view (get_conn ((V4 1, 5000), (V4 2, 443)) (serve_orc serve_keylog)) = Some fresh_view"
  "map_option server_view (get_conn ((V4 1, 5000), (V4 2, 443)) (serve_orc demo_keylog)) = Some fresh_view"
  by (code_simp, code_simp)

lemma serve_orc_eval:
  "idle_timeout (oc_config (serve_orc serve_keylog)) = None" "idle_timeout (oc_config (serve_orc demo_keylog)) = None"
  "max_pending_bytes (oc_config (serve_orc serve_keylog)) = 160" "max_pending_bytes (oc_config (serve_orc demo_keylog)) = 160"
  "max_pending_packets (oc_config (serve_orc serve_keylog)) = 4" "max_pending_packets (oc_config (serve_orc demo_keylog)) = 4"
  by (code_simp, code_simp, code_simp, code_simp, code_simp, code_simp)

lemma serve_reach: "orch_reach demo_world (serve_orc kl)"
proof -
  have "orch_reach demo_world (serve_start kl)" unfolding serve_start_def by (rule orch_start)
  then have "orch_reach demo_world (snd (demo_step (run_frame 99 True False 0) [] (serve_start kl)))"
    by (rule demo_step_reach) simp_all
  then have "orch_reach demo_world (snd (demo_step (run_frame 100 False False 43) demo_hello
      (snd (demo_step (run_frame 99 True False 0) [] (serve_start kl)))))"
    by (rule demo_step_reach) (simp_all add: demo_hello_len)
  then show ?thesis unfolding serve_orc_def by (rule demo_step_reach) (simp_all add: server_frame_def)
qed

lemma fresh_view_ready:
  assumes "map_option server_view (get_conn ((V4 1, 5000), (V4 2, 443)) orc) = Some fresh_view"
  obtains c st where "get_conn ((V4 1, 5000), (V4 2, 443)) orc = Some c"
    "client_endpoint c = (V4 1, 5000)" "\<not> desynced_s2c c" "base_seq (reassembler_s2c c) = Some 500"
    "next_expected_relative (reassembler_s2c c) = 0" "contig_bytes (reassembler_s2c c) = []"
    "pending (reassembler_s2c c) = []" "\<not> fin_seen_c2s (conn_meta c)"
    "conn_state c = Some st" "client_random st = demo_random" "server_random st = None"
    "\<And>k. seq_counter st False k = 0" "\<And>g alg. key_cache g (direction13 False st) alg = None"
    "\<And>alg. keys12 (direction12 False st) alg = None"
proof -
  obtain c where c: "get_conn ((V4 1, 5000), (V4 2, 443)) orc = Some c" "server_view c = fresh_view"
    using assms by (auto simp: map_option_eq_Some)
  note view = c(2) [unfolded server_view_def fresh_view_def prod.inject map_option_eq_Some]
  obtain st where st: "conn_state c = Some st" and e: "client_random st = demo_random" "server_random st = None"
      "seq_handshake (server_to_client st) = 0" "seq_application (server_to_client st) = 0" "seq12 (tls12_server_to_client st) = 0"
      "map (keys_handshake (server_to_client st)) ALL_ALGORITHMS = [None, None, None]"
      "map (keys_application (server_to_client st)) ALL_ALGORITHMS = [None, None, None]"
      "map (keys12 (tls12_server_to_client st)) ALL_ALGORITHMS = [None, None, None]"
    using view by (elim exE conjE) (rule that, assumption+)
  have seq: "seq_counter st False k = 0" for k
  proof (cases k)
    case (Counter13 g)
    then show ?thesis using e by (cases g) (simp_all add: direction13_def)
  qed (use e in \<open>simp add: direction12_def\<close>)
  have k13: "key_cache g (direction13 False st) alg = None" for g alg
    using e by (cases g; cases alg; simp add: ALL_ALGORITHMS_def direction13_def)
  have k12: "keys12 (direction12 False st) alg = None" for alg
    using e by (cases alg) (simp_all add: ALL_ALGORITHMS_def direction12_def)
  show thesis
    by (rule that [OF c(1) _ _ _ _ _ _ _ st e(1,2) seq k13 k12]) (use view in simp_all)
qed

lemma server_open:
  assumes "map_option server_view (get_conn ((V4 1, 5000), (V4 2, 443)) (serve_orc kl)) = Some fresh_view"
    and "session_ok toy_crypto ses" and "secrets_known ses False (ks_current (oc_keylog (serve_orc kl)))"
    and "idle_timeout (oc_config (serve_orc kl)) = None"
    and ses: "ses_sender ses = (V4 2, 443)" "ses_receiver ses = (V4 1, 5000)" "\<not> ses_client ses" "ses_random ses = demo_random"
      "ses_base ses = 500" "ses_past ses = []" "\<And>k. ses_seq ses k = 0" "ses_records ses = Server_Hello hello # ms"
  obtains c where "session_open demo_world ses (serve_orc kl) c" "client_endpoint c = (V4 1, 5000)" "\<not> fin_seen True c"
proof -
  obtain c st where c: "get_conn ((V4 1, 5000), (V4 2, 443)) (serve_orc kl) = Some c"
      "client_endpoint c = (V4 1, 5000)" "\<not> desynced_s2c c" "base_seq (reassembler_s2c c) = Some 500"
      "next_expected_relative (reassembler_s2c c) = 0" "contig_bytes (reassembler_s2c c) = []"
      "pending (reassembler_s2c c) = []" "\<not> fin_seen_c2s (conn_meta c)"
    and st: "conn_state c = Some st" "client_random st = demo_random" "server_random st = None"
      "\<And>k. seq_counter st False k = 0" "\<And>g alg. key_cache g (direction13 False st) alg = None"
      "\<And>alg. keys12 (direction12 False st) alg = None"
    by (rule fresh_view_ready [OF assms(1)]) blast
  have d: "\<not> to_server ses c" using c(2) ses(1) by (simp add: to_server_def)
  have "conn_ready toy_crypto ses False 0 (conn_state c)"
    using st ses by (simp add: conn_ready_def keys_ready_def opens_with_hello_def seq_at_def)
  then have "direction_open toy_crypto ses c"
    using c d ses(5,6) by (simp add: direction_open_def reassembler_for_def is_desynced_def anchored_def)
  moreover have "session_key ses = ((V4 1, 5000), (V4 2, 443))" unfolding session_key_def ses by code_simp
  ultimately have "session_open demo_world ses (serve_orc kl) c"
    using serve_reach assms(2-4) c(1) d by (simp add: session_open_def demo_world_def)
  then show thesis using that c(2,8) by (simp add: fin_seen_def)
qed

lemma serve_ranges: "index_range (0, n) (take n bs) = Inr (take n bs) \<longleftrightarrow> n \<le> length bs"
  by (auto simp: index_range_def sub_range_def)

lemma serve_capture_ok:
  assumes "client_endpoint c = (V4 1, 5000)" "\<not> fin_seen True c"
    and "ses_sender ses = (V4 2, 443)" "ses_receiver ses = (V4 1, 5000)" "ses_base ses = 500" "n + k \<le> length (session_stream toy_crypto ses)"
    and "n < 4294967296"
  shows "capture_ok demo_world ses c True (serve_capture ses n k)"
proof -
  note sel = live_frame_def keeps_open_def server_frame_def frame_src_def from_sender_def assms(3-5)
  let ?s = "session_stream toy_crypto ses"
  have n: "unat (of_nat n :: u32) = n" using assms(7) by (simp add: unat_of_nat)
  have "frame_ok demo_world ses d True client (live_frame (server_frame (500 + of_nat n) False k) (take k (drop n ?s)))" for d client
    by (rule part_frame_ok [where n = k]) (use assms(6) n in \<open>simp_all add: sel serve_ranges\<close>)
  moreover have "frame_ok demo_world ses d True client (live_frame (server_frame 500 False n) (take n ?s))" for d client
    by (rule part_frame_ok [where n = n]) (use assms(6) in \<open>simp_all add: sel serve_ranges\<close>)
  ultimately have "\<forall>cf \<in> set (serve_capture ses n k). frame_ok demo_world ses d True client cf" for d client
    by (simp add: serve_capture_def)
  then show ?thesis using assms(2) by (simp add: capture_ok_def)
qed

lemma serve_segments:
  assumes "ses_sender ses = (V4 2, 443)" "ses_receiver ses = (V4 1, 5000)" "ses_base ses = 500" "n + k \<le> length (session_stream toy_crypto ses)"
    and "n < 4294967296"
  shows "session_segments ses (serve_capture ses n k)
      = [(n, take k (drop n (session_stream toy_crypto ses))), (0, take n (session_stream toy_crypto ses))]"
proof -
  have "unat (of_nat n :: u32) = n" using assms(5) by (simp add: unat_of_nat)
  then show ?thesis
    using assms by (simp add: session_segments_def session_frames_def frame_segment_def serve_capture_def live_frame_def server_frame_def
        from_sender_def frame_src_def frame_dst_def sub_range_def min_absorb2)
qed

lemma serve_fits:
  assumes "ses_sender ses = (V4 2, 443)" "ses_receiver ses = (V4 1, 5000)" "ses_base ses = 500" "n + k \<le> length (session_stream toy_crypto ses)"
    and "n < 4294967296" and "n + k \<le> max_bytes l" and "2 \<le> max_packets l"
  shows "capture_fits l ses (serve_capture ses n k)"
  by (rule live_frames_fit)
    (use assms(4,6,7) in \<open>simp_all add: serve_segments [OF assms(1-5)] min_absorb2\<close>, simp add: serve_capture_def live_frame_def)

subsection \<open>A server's TLS 1.3 stream\<close>

text \<open>
  A server hello, a change of cipher spec, the rest of the server's handshake under the handshake keys and a message under the
  application keys.
\<close>

definition serve_secret :: "generation \<Rightarrow> bytes" where
  "serve_secret g = (case g of Handshake \<Rightarrow> replicate 32 5 | Application \<Rightarrow> replicate 32 9)"

definition serve_hello :: bytes where
  "serve_hello = [2, 0, 0, 34, 3, 3] @ replicate 32 4"

definition serve_session :: session where
  "serve_session =
     \<lparr>ses_sender = (V4 2, 443), ses_receiver = (V4 1, 5000), ses_client = False, ses_random = demo_random, ses_server_random = None,
      ses_secret = (\<lambda>g. Some (serve_secret g)), ses_master = Some [9], ses_algorithm = ChaCha20Poly1305,
      ses_keys = \<lparr>sk_traffic = \<lambda>g. the (derive13 toy_crypto (serve_secret g) ChaCha20Poly1305),
        sk_master = derive12 toy_crypto [9] demo_random [] Aes128Gcm False\<rparr>,
      ses_seq = (\<lambda>_. 0), ses_base = 500, ses_past = [],
      ses_records = [Server_Hello serve_hello, SentCipherSpec, Sealed Handshake 0x16 [8, 0, 0] 0,
        Sealed Application 0x17 [79, 75] 3]\<rparr>"

lemma serve_eval:
  "length (session_stream toy_crypto serve_session) = 101"
  "secret_for (ks_current (oc_keylog (serve_orc serve_keylog))) demo_random ServerHandshakeTrafficSecret = Some (replicate 32 5)"
  "secret_for (ks_current (oc_keylog (serve_orc serve_keylog))) demo_random ServerTrafficSecret0 = Some (replicate 32 9)"
  "secret_for (ks_current (oc_keylog (serve_orc serve_keylog))) demo_random ClientRandom = Some [9]"
  "server_random_from_server_hello serve_hello = Some (replicate 32 4)"
  by (code_simp, code_simp, code_simp, code_simp, code_simp)

text \<open>The keys of the generations and algorithms differ.\<close>

definition serve_sum :: "generation \<Rightarrow> aead_algorithm \<Rightarrow> u8 option" where
  "serve_sum g alg = map_option (\<lambda>k. sum_list (rk_key k)) (derive13 toy_crypto (serve_secret g) alg)"

lemma serve_sums:
  "list_all (\<lambda>(g, g', alg). (g', alg) = (g, ChaCha20Poly1305) \<or> serve_sum g' alg \<noteq> serve_sum g ChaCha20Poly1305)
     (List.product [Handshake, Application] (List.product [Handshake, Application] ALL_ALGORITHMS))"
  "serve_sum Handshake ChaCha20Poly1305 \<noteq> None" "serve_sum Application ChaCha20Poly1305 \<noteq> None"
  by (code_simp, code_simp, code_simp)

lemma serve_sums_differ:
  "(g', alg) \<noteq> (g, ChaCha20Poly1305) \<Longrightarrow> serve_sum g' alg \<noteq> serve_sum g ChaCha20Poly1305"
proof -
  have "(g, g', alg) \<in> set (List.product [Handshake, Application] (List.product [Handshake, Application] ALL_ALGORITHMS))"
    by (cases g; cases g'; cases alg) (simp_all add: ALL_ALGORITHMS_def)
  then show "(g', alg) \<noteq> (g, ChaCha20Poly1305) \<Longrightarrow> ?thesis" using serve_sums(1) by (fastforce simp: list_all_iff)
qed

lemma serve_keys:
  "derive13 toy_crypto (serve_secret g) ChaCha20Poly1305 = Some (sk_traffic (ses_keys serve_session) g)"
  "serve_sum g ChaCha20Poly1305 = Some (sum_list (rk_key (sk_traffic (ses_keys serve_session) g)))"
proof -
  have "serve_sum g ChaCha20Poly1305 \<noteq> None" using serve_sums(2,3) by (cases g) simp_all
  then show "derive13 toy_crypto (serve_secret g) ChaCha20Poly1305 = Some (sk_traffic (ses_keys serve_session) g)"
    by (auto simp: serve_sum_def serve_session_def)
  then show "serve_sum g ChaCha20Poly1305 = Some (sum_list (rk_key (sk_traffic (ses_keys serve_session) g)))"
    by (simp add: serve_sum_def)
qed

lemma serve_session_sel [simp]:
  "ses_sender serve_session = (V4 2, 443)" "ses_receiver serve_session = (V4 1, 5000)" "ses_base serve_session = 500"
  "ses_random serve_session = demo_random" "ses_secret serve_session g = Some (serve_secret g)" "ses_master serve_session = Some [9]"
  "ses_algorithm serve_session = ChaCha20Poly1305" "ses_seq serve_session k = 0" "ses_past serve_session = []"
  "ses_client serve_session = False" "ses_server_random serve_session = None"
  "ses_records serve_session = [Server_Hello serve_hello, SentCipherSpec, Sealed Handshake 0x16 [8, 0, 0] 0,
     Sealed Application 0x17 [79, 75] 3]"
  by (simp_all add: serve_session_def)

lemma serve_session_ok: "session_ok toy_crypto serve_session"
proof -
  have "other_keys_fail toy_crypto serve_session"
  proof (rule toy_other_keys)
    show "is_hello m \<or> m = SentCipherSpec \<or> (\<exists>g ct pt pad. m = Sealed g ct pt pad)" if "m \<in> set (ses_records serve_session)" for m
      using that by auto
    fix g g' :: generation and secret alg keys
    assume "ses_secret serve_session g' = Some secret" and k: "derive13 toy_crypto secret alg = Some keys"
      and "(g', alg) \<noteq> (g, ses_algorithm serve_session)"
    then have "serve_sum g' alg \<noteq> serve_sum g ChaCha20Poly1305" "secret = serve_secret g'"
      using serve_sums_differ by simp_all
    then show "sum_list (rk_key keys) \<noteq> sum_list (rk_key (sk_traffic (ses_keys serve_session) g))"
      using k serve_keys(2) [of g] by (auto simp: serve_sum_def)
  qed
  moreover have "\<forall>m \<in> set (ses_records serve_session). sent_ok toy_crypto serve_session m"
    using serve_eval(5) serve_keys(1) by (simp add: serve_hello_def)
  ultimately show ?thesis using toy_aead_inverts by (simp add: session_ok_def)
qed

lemma serve_known: "secrets_known serve_session False (ks_current (oc_keylog (serve_orc serve_keylog)))"
proof -
  have "secret_for (ks_current (oc_keylog (serve_orc serve_keylog))) demo_random (secret_label_for g False) = Some (serve_secret g)" for g
    using serve_eval(2,3) by (cases g) (simp_all add: serve_secret_def)
  then show ?thesis using serve_eval(4) by (simp add: secrets_known_def)
qed

lemma serve_open:
  obtains c where "session_open demo_world serve_session (serve_orc serve_keylog) c" "client_endpoint c = (V4 1, 5000)" "\<not> fin_seen True c"
  by (rule server_open [OF serve_conn_eval(1) serve_session_ok serve_known serve_orc_eval(1)]) simp_all

lemma serve_covered:
  "capture_fits (orch_limits (serve_orc serve_keylog)) serve_session (serve_capture serve_session 50 51)"
  "\<forall>n < length (session_stream (w_crypto demo_world) serve_session).
     covered ((0, ses_past serve_session) # session_segments serve_session (serve_capture serve_session 50 51)) n"
proof -
  show "capture_fits (orch_limits (serve_orc serve_keylog)) serve_session (serve_capture serve_session 50 51)"
    by (rule serve_fits) (simp_all add: serve_eval(1) orch_limits_def serve_orc_eval)
  have "session_segments serve_session (serve_capture serve_session 50 51) =
      [(50, take 51 (drop 50 (session_stream toy_crypto serve_session))), (0, take 50 (session_stream toy_crypto serve_session))]"
    by (rule serve_segments) (simp_all add: serve_eval(1))
  then show "\<forall>n < length (session_stream (w_crypto demo_world) serve_session).
      covered ((0, ses_past serve_session) # session_segments serve_session (serve_capture serve_session 50 51)) n"
    by (auto simp: covered_def demo_world_def serve_eval(1))
qed

subsection \<open>A server's TLS 1.2 stream\<close>

text \<open>
  The key log has only the master secret. A server hello, the end of the server's part of the handshake in the clear, a change of
  cipher spec, its finished message and two messages sealed; the capture lacks the end of the last one.
\<close>

definition old_session :: session where
  "old_session =
     \<lparr>ses_sender = (V4 2, 443), ses_receiver = (V4 1, 5000), ses_client = False, ses_random = demo_random,
      ses_server_random = Some (replicate 32 4), ses_secret = (\<lambda>_. None), ses_master = Some [9], ses_algorithm = Aes128Gcm,
      ses_keys = \<lparr>sk_traffic = \<lambda>_. demo_keys, sk_master = derive12 toy_crypto [9] demo_random (replicate 32 4) Aes128Gcm False\<rparr>,
      ses_seq = (\<lambda>_. 0), ses_base = 500, ses_past = [],
      ses_records = [Server_Hello serve_hello, Clear 0x16 [14, 0, 0, 0], SentCipherSpec, Sealed12 0x16 [20, 0, 0, 0] (replicate 8 0),
        Sealed12 0x17 [79, 75] (replicate 8 1), Sealed12 0x17 [33] (replicate 8 2)]\<rparr>"

lemma old_eval:
  "length (session_stream toy_crypto old_session) = 152"
  "secret_for (ks_current (oc_keylog (serve_orc demo_keylog))) demo_random ServerHandshakeTrafficSecret = None"
  "secret_for (ks_current (oc_keylog (serve_orc demo_keylog))) demo_random ServerTrafficSecret0 = None"
  "secret_for (ks_current (oc_keylog (serve_orc demo_keylog))) demo_random ClientRandom = Some [9]"
  "sum_list (rk12_key (derive12 toy_crypto [9] demo_random (replicate 32 4) Aes128Gcm False))
     \<noteq> sum_list (rk12_key (derive12 toy_crypto [9] demo_random (replicate 32 4) Aes256Gcm False))"
  by (code_simp, code_simp, code_simp, code_simp, code_simp)

lemma old_session_sel [simp]:
  "ses_sender old_session = (V4 2, 443)" "ses_receiver old_session = (V4 1, 5000)" "ses_base old_session = 500"
  "ses_random old_session = demo_random" "ses_secret old_session g = None" "ses_master old_session = Some [9]"
  "ses_algorithm old_session = Aes128Gcm" "ses_seq old_session k = 0" "ses_past old_session = []"
  "ses_client old_session = False" "ses_server_random old_session = Some (replicate 32 4)"
  "sk_master (ses_keys old_session) = derive12 toy_crypto [9] demo_random (replicate 32 4) Aes128Gcm False"
  "ses_records old_session = [Server_Hello serve_hello, Clear 0x16 [14, 0, 0, 0], SentCipherSpec,
     Sealed12 0x16 [20, 0, 0, 0] (replicate 8 0), Sealed12 0x17 [79, 75] (replicate 8 1), Sealed12 0x17 [33] (replicate 8 2)]"
  by (simp_all add: old_session_def)

lemma toy_aes256_fails:
  assumes "length nonce = 8"
  shows "isl (decrypt_record12 toy_crypto (derive12 toy_crypto [9] demo_random (replicate 32 4) Aes256Gcm False) q ct'
    (take 8 (sealed_body toy_crypto (ses_keys old_session) qs (Sealed12 ct pt nonce)))
    (drop 8 (sealed_body toy_crypto (ses_keys old_session) qs (Sealed12 ct pt nonce))))"
proof -
  obtain n a where "sealed_body toy_crypto (ses_keys old_session) qs (Sealed12 ct pt nonce) =
      nonce @ pt @ toy_tag (rk12_key (derive12 toy_crypto [9] demo_random (replicate 32 4) Aes128Gcm False)) n a"
    by (simp add: encrypt_record12_def Let_def) (simp add: toy_crypto_def)
  then show ?thesis
    using toy_open_tag [OF old_eval(5)] assms by (simp add: decrypt_record12_def Let_def)
qed

lemma old_session_ok: "session_ok toy_crypto old_session"
proof -
  have "no_key13 toy_crypto old_session body except" for body except by (simp add: no_key13_def)
  moreover have "no_key12 toy_crypto old_session 0x16 [14, 0, 0, 0] None" by (simp add: no_key12_def)
  moreover have "no_key12 toy_crypto old_session ct (sealed_body toy_crypto (ses_keys old_session) qs (Sealed12 ct pt nonce))
      (Some Aes128Gcm)" if "length nonce = 8" for ct pt nonce qs
    using toy_aes256_fails [OF that] by (auto simp: no_key12_def TLS12_ALGORITHMS_def simp del: sealed_body.simps)
  ultimately have "other_keys_fail toy_crypto old_session"
    by (auto simp: other_keys_fail_def nth_body_def less_Suc_eq numeral_eq_Suc simp del: sealed_body.simps(6))
  moreover have "\<forall>m \<in> set (ses_records old_session). sent_ok toy_crypto old_session m"
    using serve_eval(5) by (simp add: serve_hello_def demo_random_def)
  ultimately show ?thesis using toy_aead_inverts by (simp add: session_ok_def)
qed

lemma old_known: "secrets_known old_session False (ks_current (oc_keylog (serve_orc demo_keylog)))"
proof -
  have "secret_for (ks_current (oc_keylog (serve_orc demo_keylog))) demo_random (secret_label_for g False) = None" for g
    using old_eval(2,3) by (cases g) simp_all
  then show ?thesis using old_eval(4) by (simp add: secrets_known_def)
qed

lemma old_open:
  obtains c where "session_open demo_world old_session (serve_orc demo_keylog) c" "client_endpoint c = (V4 1, 5000)" "\<not> fin_seen True c"
  by (rule server_open [OF serve_conn_eval(2) old_session_ok old_known serve_orc_eval(2)]) simp_all

lemma old_covered:
  "capture_fits (orch_limits (serve_orc demo_keylog)) old_session (serve_capture old_session 60 70)"
  "first_gap ((0, ses_past old_session) # session_segments old_session (serve_capture old_session 60 70)) = 130"
proof -
  show "capture_fits (orch_limits (serve_orc demo_keylog)) old_session (serve_capture old_session 60 70)"
    by (rule serve_fits) (simp_all add: old_eval(1) orch_limits_def serve_orc_eval)
  have "session_segments old_session (serve_capture old_session 60 70) =
      [(60, take 70 (drop 60 (session_stream toy_crypto old_session))), (0, take 60 (session_stream toy_crypto old_session))]"
    by (rule serve_segments) (simp_all add: old_eval(1))
  then show "first_gap ((0, ses_past old_session) # session_segments old_session (serve_capture old_session 60 70)) = 130"
    by (intro first_gap_eq) (auto simp: covered_def old_eval(1))
qed

end
