(* ===== verification/Delivery_Props.thy ===== *)
theory Delivery_Props
  imports Delivery_Demo
begin

text \<open>The delivery theorems.\<close>

subsection \<open>Properties\<close>

text \<open>
  What \<open>session_open\<close>, \<open>capture_ok\<close> and their parts say of the connection and the capture. The direction is at a record boundary with
  nothing buffered, or opened by its SYN. Every read of the key log file gives the session's secrets, and gave them at the start. There
  is no idle timeout. No frame of the connection has RST, and one of its ends is never seen to send FIN. The sender's frames carry
  its stream. The records it still sends are its hello when that has not come, changes of cipher spec, other messages in the
  clear, and messages of any content type sealed under its TLS 1.3 handshake or application keys or under its TLS 1.2 keys; no
  other key that the connection may try opens one of them. Without these, bytes in the capture may be lost.
\<close>




subsection \<open>Witnesses\<close>




end
