(* ===== verification/Rotation.thy ===== *)
theory Rotation
  imports Strings
begin

text \<open>
  \<open>src/rotation.rs\<close>: output split into gzip chunks by message count or by time. A chunk's encoder is modelled by
  the bytes given to it; the compression level only shapes the compressed form. What the file system, the
  encoder and the clock answer during a call is its \<open>rotate_env\<close>. Finishing a chunk yields it as output.
\<close>

datatype rotate_by = Count u64 | Seconds duration | Never

record current_chunk =
  ck_encoder :: bytes
  ck_path :: string
  messages_written :: u64
  opened_at :: instant

text \<open>A prefix by what \<open>Path::file_name\<close> and \<open>Path::parent\<close> return for it.\<close>

record path_parts =
  pp_file_name :: "string option"
  pp_parent :: "string option"

record rotating_gz_writer =
  rw_prefix :: path_parts
  rw_rotate_by :: rotate_by
  rw_compression :: nat
  rw_current :: "current_chunk option"
  chunk_counter :: u64

definition with_compression :: "path_parts \<Rightarrow> rotate_by \<Rightarrow> nat \<Rightarrow> rotating_gz_writer" where
  "with_compression prefix by' level =
     \<lparr>rw_prefix = prefix, rw_rotate_by = by', rw_compression = level, rw_current = None, chunk_counter = 0\<rparr>"

text \<open>\<open>Compression::default()\<close> is level 6.\<close>

definition new_writer :: "path_parts \<Rightarrow> rotate_by \<Rightarrow> rotating_gz_writer" where
  "new_writer prefix by' = with_compression prefix by' 6"

text \<open>
  What one call meets: the clock for \<open>elapsed\<close>, whether finishing and creating fail, the local time stamp, the opening
  instant, and whether \<open>write_all\<close> fails, and then after how many bytes.
\<close>

type_synonym io_failure = string

record rotate_env =
  re_elapsed :: instant
  re_finish :: "io_failure option"
  re_create :: "io_failure option"
  re_stamp :: string
  re_opened :: instant
  re_write :: "(io_failure \<times> nat) option"

definition path_join :: "string \<Rightarrow> string \<Rightarrow> string" where
  "path_join dir name = (if dir \<noteq> [] \<and> last dir \<noteq> CHR ''/'' then dir @ ''/'' @ name else dir @ name)"

definition chunk_path :: "path_parts \<Rightarrow> u64 \<Rightarrow> string \<Rightarrow> string" where
  "chunk_path prefix counter stamp =
     (let name = (case pp_file_name prefix of None \<Rightarrow> [] | Some n \<Rightarrow> n)
                   @ ''_'' @ fmt_dec_pad 6 (unat counter) @ ''_'' @ stamp @ ''.gz'' in
      case pp_parent prefix of
        Some dir \<Rightarrow> if dir \<noteq> [] then path_join dir name else name
      | None \<Rightarrow> name)"

definition finish_current ::
  "rotate_env \<Rightarrow> rotating_gz_writer \<Rightarrow> (io_failure + current_chunk list) \<times> rotating_gz_writer"
where
  "finish_current env w =
     (case rw_current w of
        None \<Rightarrow> (Inr [], w)
      | Some chunk \<Rightarrow>
          (case re_finish env of
             Some e \<Rightarrow> (Inl e, w\<lparr>rw_current := None\<rparr>)
           | None \<Rightarrow> (Inr [chunk], w\<lparr>rw_current := None\<rparr>)))"

definition open_new :: "rotate_env \<Rightarrow> rotating_gz_writer \<Rightarrow> (io_failure + unit) \<times> rotating_gz_writer" where
  "open_new env w =
     (let w1 = w\<lparr>chunk_counter := chunk_counter w + 1\<rparr>;
          path = chunk_path (rw_prefix w1) (chunk_counter w1) (re_stamp env) in
      case re_create env of
        Some e \<Rightarrow> (Inl e, w1)
      | None \<Rightarrow> (Inr (), w1\<lparr>rw_current := Some \<lparr>ck_encoder = [], ck_path = path, messages_written = 0,
                                                opened_at = re_opened env\<rparr>\<rparr>))"

definition rotate_if_needed ::
  "rotate_env \<Rightarrow> rotating_gz_writer \<Rightarrow> (io_failure option \<times> current_chunk list) \<times> rotating_gz_writer"
where
  "rotate_if_needed env w =
     (let should_rotate =
            (case rw_current w of
               None \<Rightarrow> True
             | Some c \<Rightarrow>
                 (case rw_rotate_by w of
                    Never \<Rightarrow> False
                  | Count n \<Rightarrow> messages_written c \<ge> n
                  | Seconds d \<Rightarrow> elapsed (opened_at c) (re_elapsed env) \<ge> d)) in
      if should_rotate then
        (case finish_current env w of
           (Inl e, w1) \<Rightarrow> ((Some e, []), w1)
         | (Inr finished, w1) \<Rightarrow>
             (case open_new env w1 of
                (Inl e, w2) \<Rightarrow> ((Some e, finished), w2)
              | (Inr _, w2) \<Rightarrow> ((None, finished), w2)))
      else ((None, []), w))"

text \<open>The result is the error, if any, with the chunks finished on the way; \<open>unreachable!\<close> is a panic.\<close>

definition write_message ::
  "rotate_env \<Rightarrow> bytes \<Rightarrow> rotating_gz_writer
     \<Rightarrow> panic + ((io_failure option \<times> current_chunk list) \<times> rotating_gz_writer)"
where
  "write_message env data w =
     (case rotate_if_needed env w of
        ((Some e, finished), w1) \<Rightarrow> Inr ((Some e, finished), w1)
      | ((None, finished), w1) \<Rightarrow>
          (case rw_current w1 of
             None \<Rightarrow> Inl UnreachableCode
           | Some chunk \<Rightarrow>
               (case re_write env of
                  Some (e, n) \<Rightarrow>
                    Inr ((Some e, finished),
                         w1\<lparr>rw_current := Some (chunk\<lparr>ck_encoder := ck_encoder chunk @ take n data\<rparr>)\<rparr>)
                | None \<Rightarrow>
                    Inr ((None, finished),
                         w1\<lparr>rw_current := Some (chunk\<lparr>ck_encoder := ck_encoder chunk @ data,
                                                       messages_written := messages_written chunk + 1\<rparr>)\<rparr>))))"

text \<open>\<open>Drop\<close> finishes the open chunk and ignores an error.\<close>

definition drop_writer :: "rotate_env \<Rightarrow> rotating_gz_writer \<Rightarrow> current_chunk list" where
  "drop_writer env w = (case fst (finish_current env w) of Inl _ \<Rightarrow> [] | Inr finished \<Rightarrow> finished)"

subsection \<open>Runs\<close>

text \<open>Writing messages one after the other, each in its environment, collecting the finished chunks.\<close>

fun write_all_messages ::
  "(rotate_env \<times> bytes) list \<Rightarrow> rotating_gz_writer \<Rightarrow> current_chunk list
     \<Rightarrow> panic + (io_failure list \<times> current_chunk list \<times> rotating_gz_writer)"
where
  "write_all_messages [] w fin = Inr ([], fin, w)"
| "write_all_messages ((env, data) # ms) w fin =
     (case write_message env data w of
        Inl e \<Rightarrow> Inl e
      | Inr ((err, finished), w') \<Rightarrow>
          (case write_all_messages ms w' (fin @ finished) of
             Inl e \<Rightarrow> Inl e
           | Inr (errs, fin', w'') \<Rightarrow>
               Inr ((case err of None \<Rightarrow> errs | Some x \<Rightarrow> x # errs), fin', w'')))"

definition env_ok :: "rotate_env \<Rightarrow> bool" where
  "env_ok env \<longleftrightarrow> re_finish env = None \<and> re_create env = None \<and> re_write env = None"

text \<open>Consecutive groups of \<open>n\<close>, the last one shorter.\<close>

function groups_of :: "nat \<Rightarrow> 'a list \<Rightarrow> 'a list list" where
  "groups_of n [] = []"
| "groups_of n (x # xs) = take (max n 1) (x # xs) # groups_of n (drop (max n 1) (x # xs))"
  by pat_completeness auto
termination
  by (relation "measure (\<lambda>(n, xs). length xs)") auto

lemma rotate_opens:
  assumes "rotate_if_needed env w = ((None, fin), w')"
  shows "\<exists>c. rw_current w' = Some c"
  using assms
  by (auto simp: rotate_if_needed_def open_new_def Let_def
      split: if_splits prod.splits sum.splits option.splits rotate_by.splits)

lemma write_message_total: "\<exists>r. write_message env data w = Inr r"
proof -
  obtain err fin w' where r: "rotate_if_needed env w = ((err, fin), w')" by (metis prod.collapse)
  show ?thesis using rotate_opens [of env w fin w'] r
    by (cases err) (auto simp: write_message_def split: option.splits)
qed

lemma write_message_append:
  assumes "env_ok env" and "rw_current w = Some c" and "rw_rotate_by w = Count n" and "messages_written c < n"
  shows "write_message env data w = Inr ((None, []),
    w\<lparr>rw_current := Some (c\<lparr>ck_encoder := ck_encoder c @ data, messages_written := messages_written c + 1\<rparr>)\<rparr>)"
  using assms by (auto simp: write_message_def rotate_if_needed_def env_ok_def Let_def)

lemma write_message_rotate:
  assumes "env_ok env" and "rw_rotate_by w = Count n"
    and "rw_current w = None \<or> (\<exists>c. rw_current w = Some c \<and> n \<le> messages_written c)"
  shows "\<exists>p t. write_message env data w = Inr ((None, case rw_current w of None \<Rightarrow> [] | Some c \<Rightarrow> [c]),
    w\<lparr>chunk_counter := chunk_counter w + 1,
      rw_current := Some \<lparr>ck_encoder = data, ck_path = p, messages_written = 1, opened_at = t\<rparr>\<rparr>)"
  using assms
  by (auto simp: write_message_def rotate_if_needed_def finish_current_def open_new_def env_ok_def Let_def
      split: option.splits)

definition all_chunks :: "current_chunk list \<Rightarrow> rotating_gz_writer \<Rightarrow> current_chunk list" where
  "all_chunks fin w = fin @ (case rw_current w of None \<Rightarrow> [] | Some c \<Rightarrow> [c])"

lemma groups_of_short: "xs \<noteq> [] \<Longrightarrow> length xs \<le> max n 1 \<Longrightarrow> groups_of n xs = [xs]"
  by (cases xs) auto

lemma groups_of_full:
  assumes "length xs = max n 1"
  shows "groups_of n (xs @ ys) = xs # groups_of n ys"
proof (cases xs)
  case (Cons x xs')
  then have "groups_of n (xs @ ys) = take (max n 1) (xs @ ys) # groups_of n (drop (max n 1) (xs @ ys))"
    by (simp del: take_Suc_Cons drop_Suc_Cons)
  then show ?thesis using assms by simp
qed (use assms in simp)

lemma count_run:
  assumes "\<forall>(env, _) \<in> set ms. env_ok env" and "rw_rotate_by w = Count n" and "rw_current w = Some c"
    and "ck_encoder c = concat pre" and "messages_written c = of_nat (length pre)"
    and "pre \<noteq> []" and "length pre \<le> max (unat n) 1"
  shows "\<exists>fin' w'. write_all_messages ms w fin = Inr ([], fin', w')
    \<and> map ck_encoder (all_chunks fin' w')
        = map ck_encoder fin @ map concat (groups_of (unat n) (pre @ map snd ms))
    \<and> map messages_written (all_chunks fin' w')
        = map messages_written fin @ map (\<lambda>g. of_nat (length g)) (groups_of (unat n) (pre @ map snd ms))"
  using assms
proof (induction ms arbitrary: w fin c pre)
  case Nil
  then show ?case by (simp add: all_chunks_def groups_of_short)
next
  case (Cons m ms)
  obtain env data where m: "m = (env, data)" by (rule prod.exhaust)
  have ok: "env_ok env" "\<forall>(env, _) \<in> set ms. env_ok env" using Cons.prems(1) m by auto
  have lt: "length pre < 2 ^ 64"
  proof -
    have "unat n < 2 ^ 64" using unsigned_less [of n] by simp
    then show ?thesis using Cons.prems(7) by (auto simp: max_def split: if_splits)
  qed
  then have u: "unat (of_nat (length pre) :: u64) = length pre"
    by (simp add: unsigned_of_nat take_bit_nat_eq_self)
  show ?case
  proof (cases "length pre < unat n")
    case True
    then have "messages_written c < n"
      using Cons.prems(5) u by (simp add: word_less_nat_alt)
    note wm = write_message_append [OF ok(1) Cons.prems(3,2) this, of data]
    let ?c = "c\<lparr>ck_encoder := ck_encoder c @ data, messages_written := messages_written c + 1\<rparr>"
    show ?thesis
      using Cons.IH [of "w\<lparr>rw_current := Some ?c\<rparr>" ?c "pre @ [data]" fin] ok(2) Cons.prems True m wm
      by (auto simp: add.commute)
  next
    case False
    then have full: "length pre = max (unat n) 1" using Cons.prems(6,7) by (cases pre) auto
    have "n \<le> messages_written c"
      using Cons.prems(5) u False by (simp add: word_le_nat_alt)
    then obtain p t where wm: "write_message env data w = Inr ((None, [c]),
        w\<lparr>chunk_counter := chunk_counter w + 1,
          rw_current := Some \<lparr>ck_encoder = data, ck_path = p, messages_written = 1, opened_at = t\<rparr>\<rparr>)"
      using write_message_rotate [OF ok(1) Cons.prems(2), of data] Cons.prems(3) by auto
    let ?c = "\<lparr>ck_encoder = data, ck_path = p, messages_written = 1, opened_at = t\<rparr>"
    show ?thesis
      using Cons.IH [of "w\<lparr>chunk_counter := chunk_counter w + 1, rw_current := Some ?c\<rparr>" ?c "[data]" "fin @ [c]"]
        ok(2) Cons.prems(2,4,5) m wm
      by (auto simp: groups_of_full [OF full])
  qed
qed

subsection \<open>Chunk names\<close>

lemma digits_prefix:
  assumes "list_all dec_digit a" "list_all dec_digit b" "a @ CHR ''_'' # x = b @ CHR ''_'' # y"
  shows "a = b"
proof -
  have "takeWhile dec_digit (l @ CHR ''_'' # z) = l" if "list_all dec_digit l" for l z
    using that by (simp add: list_all_iff dec_digit_def byte_in_def)
  then show ?thesis using assms by metis
qed

lemma chunk_path_inject:
  assumes "chunk_path p a s = chunk_path p b t"
  shows "a = b"
proof -
  let ?f = "case pp_file_name p of None \<Rightarrow> [] | Some n \<Rightarrow> n"
  have "?f @ ''_'' @ fmt_dec_pad 6 (unat a) @ ''_'' @ s @ ''.gz'' = ?f @ ''_'' @ fmt_dec_pad 6 (unat b) @ ''_'' @ t @ ''.gz''"
    using assms by (auto simp: chunk_path_def path_join_def Let_def split: option.splits if_splits)
  then have "fmt_dec_pad 6 (unat a) @ CHR ''_'' # s @ ''.gz'' = fmt_dec_pad 6 (unat b) @ CHR ''_'' # t @ ''.gz''"
    by simp
  from digits_prefix [OF _ _ this] have "fmt_dec_pad 6 (unat a) = fmt_dec_pad 6 (unat b)"
    using fmt_dec_pad_val by blast
  then have "unat a = unat b" by (metis fmt_dec_pad_val)
  then show ?thesis by (rule unsigned_word_eqI)
qed

text \<open>Chunks of prefixes with different file names have different file names, as time stamps are digits.\<close>

definition prefix_name :: "path_parts \<Rightarrow> string" where
  "prefix_name p = (case pp_file_name p of None \<Rightarrow> [] | Some n \<Rightarrow> n)"

definition chunk_file :: "path_parts \<Rightarrow> u64 \<Rightarrow> string \<Rightarrow> string" where
  "chunk_file p a s = prefix_name p @ ''_'' @ fmt_dec_pad 6 (unat a) @ ''_'' @ s @ ''.gz''"

lemma chunk_path_file: "\<exists>dir. chunk_path p a s = dir @ chunk_file p a s \<and> (dir = [] \<or> last dir = CHR ''/'')"
proof (cases "pp_parent p")
  case (Some dir)
  have "\<exists>d. path_join dir n = d @ n \<and> (d = [] \<or> last d = CHR ''/'')" for n
    by (cases "dir \<noteq> [] \<and> last dir \<noteq> CHR ''/''")
      (auto simp: path_join_def intro: exI [of _ "dir @ ''/''"] exI [of _ dir])
  then show ?thesis using Some by (auto simp: chunk_path_def chunk_file_def prefix_name_def Let_def)
qed (simp add: chunk_path_def chunk_file_def prefix_name_def Let_def)

lemma chunk_files_apart:
  assumes "prefix_name p \<noteq> prefix_name q" and "list_all dec_digit s" and "list_all dec_digit t"
  shows "chunk_file p a s \<noteq> chunk_file q b t"
proof
  assume "chunk_file p a s = chunk_file q b t"
  then have "rev (chunk_file p a s) = rev (chunk_file q b t)" by simp
  then have "rev s @ CHR ''_'' # rev (fmt_dec_pad 6 (unat a)) @ CHR ''_'' # rev (prefix_name p)
      = rev t @ CHR ''_'' # rev (fmt_dec_pad 6 (unat b)) @ CHR ''_'' # rev (prefix_name q)"
    unfolding chunk_file_def rev_append by simp
  moreover from digits_prefix [OF _ _ this] have "rev s = rev t" using assms(2,3) by simp
  ultimately have c: "rev (fmt_dec_pad 6 (unat a)) @ CHR ''_'' # rev (prefix_name p)
      = rev (fmt_dec_pad 6 (unat b)) @ CHR ''_'' # rev (prefix_name q)" by simp
  from digits_prefix [OF _ _ this] have "rev (fmt_dec_pad 6 (unat a)) = rev (fmt_dec_pad 6 (unat b))"
    using fmt_dec_pad_val by simp
  then show False using c assms(1) by simp
qed

lemma chunk_paths_apart:
  assumes "prefix_name p \<noteq> prefix_name q" and "list_all dec_digit s" and "list_all dec_digit t"
    and "CHR ''/'' \<notin> set (prefix_name p)" and "CHR ''/'' \<notin> set (prefix_name q)"
  shows "chunk_path p a s \<noteq> chunk_path q b t"
proof
  assume eq: "chunk_path p a s = chunk_path q b t"
  have last_part: "rev (takeWhile (\<lambda>c. c \<noteq> CHR ''/'') (rev (chunk_path p a s))) = chunk_file p a s"
    if "CHR ''/'' \<notin> set (prefix_name p)" "list_all dec_digit s" for p a s
  proof -
    obtain dir where d: "chunk_path p a s = dir @ chunk_file p a s" "dir = [] \<or> last dir = CHR ''/''"
      using chunk_path_file by blast
    have "CHR ''/'' \<notin> set (fmt_dec_pad 6 (unat a))" "CHR ''/'' \<notin> set s"
      using fmt_dec_pad_val [of 6 "unat a"] that(2) by (auto simp: list_all_iff dec_digit_def byte_in_def)
    then have "\<forall>c \<in> set (rev (chunk_file p a s)). c \<noteq> CHR ''/''" using that(1) by (auto simp: chunk_file_def)
    then have "takeWhile (\<lambda>c. c \<noteq> CHR ''/'') (rev (chunk_file p a s) @ rev dir)
        = rev (chunk_file p a s) @ takeWhile (\<lambda>c. c \<noteq> CHR ''/'') (rev dir)"
      by (intro takeWhile_append2) blast
    moreover have "takeWhile (\<lambda>c. c \<noteq> CHR ''/'') (rev dir) = []" using d(2) by (cases dir rule: rev_cases) auto
    ultimately show ?thesis using d(1) by simp
  qed
  show False
    using last_part [OF assms(4,2), of a] last_part [OF assms(5,3), of b] eq chunk_files_apart [OF assms(1-3), of a b] by simp
qed

text \<open>Every chunk is named after a counter value already used, and no two share one.\<close>

definition names_ok :: "path_parts \<Rightarrow> nat \<Rightarrow> string list \<Rightarrow> bool" where
  "names_ok p j ns \<longleftrightarrow> distinct ns \<and> (\<forall>n \<in> set ns. \<exists>k \<le> j. \<exists>s. n = chunk_path p (of_nat k) s)"

lemma names_ok_le: "names_ok p j ns \<Longrightarrow> j \<le> j' \<Longrightarrow> names_ok p j' ns"
  unfolding names_ok_def by (meson order_trans)

lemma names_ok_prefix: "names_ok p j (ns @ ms) \<Longrightarrow> names_ok p j ns"
  by (simp add: names_ok_def)

lemma names_ok_snoc:
  assumes "names_ok p j ns" and "Suc j < 2 ^ 64"
  shows "names_ok p (Suc j) (ns @ [chunk_path p (of_nat (Suc j)) s])"
proof -
  have "chunk_path p (of_nat (Suc j)) s \<noteq> chunk_path p (of_nat k) t" if "k \<le> j" for k t
  proof
    assume "chunk_path p (of_nat (Suc j)) s = chunk_path p (of_nat k) t"
    then have "unat (of_nat (Suc j) :: u64) = unat (of_nat k :: u64)" using chunk_path_inject by metis
    then have "Suc j = k"
      using that assms(2) by (simp add: unsigned_of_nat take_bit_nat_eq_self del: of_nat_Suc)
    then show False using that by simp
  qed
  then have "chunk_path p (of_nat (Suc j)) s \<notin> set ns" using assms(1) unfolding names_ok_def by blast
  moreover have "names_ok p (Suc j) ns" using assms(1) by (rule names_ok_le) simp
  ultimately show ?thesis unfolding names_ok_def by (auto simp del: of_nat_Suc)
qed

definition current_name :: "rotating_gz_writer \<Rightarrow> string list" where
  "current_name w = (case rw_current w of None \<Rightarrow> [] | Some c \<Rightarrow> [ck_path c])"

lemma all_chunks_names: "map ck_path (all_chunks fin w) = map ck_path fin @ current_name w"
  by (simp add: all_chunks_def current_name_def split: option.splits)

text \<open>How one write changes the names: not at all, by losing the open chunk, or by one fresh chunk.\<close>

lemma write_message_names:
  assumes "write_message env data w = Inr ((err, finished), w')"
  shows "rw_prefix w' = rw_prefix w \<and>
    (chunk_counter w' = chunk_counter w \<and> finished = [] \<and> (current_name w' = current_name w \<or> current_name w' = [])
     \<or> chunk_counter w' = chunk_counter w + 1 \<and> map ck_path finished = current_name w
       \<and> (current_name w' = [] \<or> current_name w' = [chunk_path (rw_prefix w) (chunk_counter w + 1) (re_stamp env)]))"
proof -
  obtain err1 fin1 w1 where r: "rotate_if_needed env w = ((err1, fin1), w1)" by (metis prod.collapse)
  have "rw_prefix w1 = rw_prefix w \<and>
    (chunk_counter w1 = chunk_counter w \<and> fin1 = [] \<and> (current_name w1 = current_name w \<or> current_name w1 = [])
     \<or> chunk_counter w1 = chunk_counter w + 1 \<and> map ck_path fin1 = current_name w
       \<and> (current_name w1 = [] \<or> current_name w1 = [chunk_path (rw_prefix w) (chunk_counter w + 1) (re_stamp env)]))"
    using r
    by (auto simp: rotate_if_needed_def finish_current_def open_new_def Let_def current_name_def
        split: option.splits if_splits rotate_by.splits)
  moreover have "rw_prefix w' = rw_prefix w1 \<and> chunk_counter w' = chunk_counter w1 \<and> finished = fin1
      \<and> current_name w' = current_name w1"
    using assms r by (auto simp: write_message_def current_name_def split: option.splits)
  ultimately show ?thesis by simp
qed

lemma names_ok_step:
  assumes "names_ok (rw_prefix w) j (map ck_path fin @ current_name w)" and "chunk_counter w = of_nat j"
    and "Suc j < 2 ^ 64" and "write_message env data w = Inr ((err, finished), w')"
  shows "\<exists>j' \<le> Suc j. chunk_counter w' = of_nat j' \<and> rw_prefix w' = rw_prefix w
    \<and> names_ok (rw_prefix w) j' (map ck_path (fin @ finished) @ current_name w')"
  using write_message_names [OF assms(4)]
proof (elim conjE disjE)
  assume "chunk_counter w' = chunk_counter w" "finished = []" "current_name w' = current_name w" "rw_prefix w' = rw_prefix w"
  then show ?thesis using assms(1,2) by (intro exI [of _ j]) simp
next
  assume "chunk_counter w' = chunk_counter w" "finished = []" "current_name w' = []" "rw_prefix w' = rw_prefix w"
  then show ?thesis using assms(2) names_ok_prefix [OF assms(1)] by (intro exI [of _ j]) simp
next
  assume "chunk_counter w' = chunk_counter w + 1" "map ck_path finished = current_name w" "current_name w' = []"
    "rw_prefix w' = rw_prefix w"
  then show ?thesis
    using assms(2) names_ok_le [OF assms(1), of "Suc j"] by (intro exI [of _ "Suc j"]) (simp add: add.commute)
next
  assume "chunk_counter w' = chunk_counter w + 1" "map ck_path finished = current_name w" "rw_prefix w' = rw_prefix w"
    "current_name w' = [chunk_path (rw_prefix w) (chunk_counter w + 1) (re_stamp env)]"
  then show ?thesis
    using assms(2) names_ok_snoc [OF assms(1,3), of "re_stamp env"]
    by (intro exI [of _ "Suc j"]) (simp add: add.commute)
qed

lemma names_ok_run:
  assumes "names_ok (rw_prefix w) j (map ck_path fin @ current_name w)" and "chunk_counter w = of_nat j"
    and "j + length ms < 2 ^ 64" and "write_all_messages ms w fin = Inr (errs, fin', w')"
  shows "distinct (map ck_path fin' @ current_name w')"
  using assms
proof (induction ms arbitrary: w j fin errs)
  case Nil
  then show ?case by (simp add: names_ok_def)
next
  case (Cons m ms)
  obtain env data where m: "m = (env, data)" by (rule prod.exhaust)
  obtain err finished w1 where wm: "write_message env data w = Inr ((err, finished), w1)"
    using write_message_total [of env data w] by (metis prod.collapse)
  obtain errs1 where rest: "write_all_messages ms w1 (fin @ finished) = Inr (errs1, fin', w')"
    using Cons.prems(4) m wm by (auto split: sum.splits)
  from names_ok_step [OF Cons.prems(1,2) _ wm] Cons.prems(3) obtain j' where
    j': "j' \<le> Suc j" "chunk_counter w1 = of_nat j'" "rw_prefix w1 = rw_prefix w"
      "names_ok (rw_prefix w) j' (map ck_path (fin @ finished) @ current_name w1)"
    by auto
  show ?case
    by (rule Cons.IH [OF _ j'(2) _ rest]) (use j' Cons.prems(3) in simp_all)
qed

subsection \<open>Properties\<close>

text \<open>
  C31 (rotation by count). When no input or output fails, writing messages with a count limit puts them, in order and
  without loss, into chunks of exactly that many messages, only the last one possibly smaller; a limit of zero
  acts as one.
\<close>

theorem rotation_by_count:
  assumes "\<forall>(env, _) \<in> set ms. env_ok env"
  shows "\<exists>fin w'. write_all_messages ms (with_compression prefix (Count n) level) [] = Inr ([], fin, w')
    \<and> map ck_encoder (all_chunks fin w') = map concat (groups_of (unat n) (map snd ms))
    \<and> map messages_written (all_chunks fin w') = map (\<lambda>g. of_nat (length g)) (groups_of (unat n) (map snd ms))"
proof (cases ms)
  case Nil
  then show ?thesis by (simp add: all_chunks_def with_compression_def)
next
  case (Cons m ms')
  obtain env data where m: "m = (env, data)" by (rule prod.exhaust)
  let ?w = "with_compression prefix (Count n) level"
  have ok: "env_ok env" "\<forall>(env, _) \<in> set ms'. env_ok env" using assms Cons m by auto
  obtain p t where wm: "write_message env data ?w = Inr ((None, []),
      ?w\<lparr>chunk_counter := chunk_counter ?w + 1,
         rw_current := Some \<lparr>ck_encoder = data, ck_path = p, messages_written = 1, opened_at = t\<rparr>\<rparr>)"
    using write_message_rotate [OF ok(1), of ?w n data] by (auto simp: with_compression_def)
  let ?c = "\<lparr>ck_encoder = data, ck_path = p, messages_written = 1, opened_at = t\<rparr>"
  let ?w1 = "?w\<lparr>chunk_counter := chunk_counter ?w + 1, rw_current := Some ?c\<rparr>"
  have "rw_rotate_by ?w1 = Count n" by (simp add: with_compression_def)
  from count_run [OF ok(2) this, of ?c "[data]" "[]"] obtain fin' w' where
    "write_all_messages ms' ?w1 [] = Inr ([], fin', w')"
    "map ck_encoder (all_chunks fin' w') = map concat (groups_of (unat n) (data # map snd ms'))"
    "map messages_written (all_chunks fin' w')
       = map (\<lambda>g. of_nat (length g)) (groups_of (unat n) (data # map snd ms'))"
    by auto
  then show ?thesis using wm Cons m by auto
qed

text \<open>
  C32 (chunk names). Whatever fails on the way, every chunk a writer finishes or has open has a file name of its own, as
  long as fewer than 2^64 messages are written: no chunk overwrites another one of the run.
\<close>

theorem chunk_names_distinct:
  assumes "length ms < 2 ^ 64"
    and "write_all_messages ms (with_compression prefix by' level) [] = Inr (errs, fin, w')"
  shows "distinct (map ck_path (all_chunks fin w'))"
  using names_ok_run [of "with_compression prefix by' level" 0 "[]" ms errs fin w'] assms
  by (simp add: all_chunks_names names_ok_def current_name_def with_compression_def)

subsection \<open>Witnesses\<close>

definition demo_rotate_env :: rotate_env where
  "demo_rotate_env = \<lparr>re_elapsed = 0, re_finish = None, re_create = None, re_stamp = ''20240101000000'',
     re_opened = 0, re_write = None\<rparr>"

definition demo_prefix :: path_parts where
  "demo_prefix = \<lparr>pp_file_name = Some ''out'', pp_parent = Some ''/var/log''\<rparr>"

theorem rotation_by_count_witness:
  "\<exists>fin w'. write_all_messages (map (Pair demo_rotate_env) [[1], [2], [3]]) (with_compression demo_prefix (Count 2) 6) []
       = Inr ([], fin, w') \<and> map ck_encoder (all_chunks fin w') = [[1, 2], [3]]"
  using rotation_by_count [of "map (Pair demo_rotate_env) [[1], [2], [3]]" demo_prefix 2 6]
  by (auto simp: env_ok_def demo_rotate_env_def)

definition demo_rotated :: "panic + (io_failure list \<times> current_chunk list \<times> rotating_gz_writer)" where
  "demo_rotated = write_all_messages (map (Pair demo_rotate_env) [[1], [2], [3]])
     (with_compression demo_prefix (Count 2) 6) []"

lemma demo_rotated_chunks:
  "case_sum (\<lambda>_. 0) (\<lambda>(_, fin, w'). length (all_chunks fin w')) demo_rotated = 2"
  by code_simp

lemma demo_rotated_Inr: "\<exists>errs fin w'. demo_rotated = Inr (errs, fin, w') \<and> length (all_chunks fin w') = 2"
  using demo_rotated_chunks by (auto split: sum.splits)

theorem chunk_names_distinct_witness:
  "\<exists>errs fin w'. demo_rotated = Inr (errs, fin, w') \<and> length (all_chunks fin w') = 2
     \<and> distinct (map ck_path (all_chunks fin w'))"
proof -
  obtain errs fin w' where r: "demo_rotated = Inr (errs, fin, w')" "length (all_chunks fin w') = 2"
    using demo_rotated_Inr by blast
  from chunk_names_distinct [OF _ r(1) [unfolded demo_rotated_def]] r show ?thesis by auto
qed

end
