(* ===== verification/Plugin_Loader.thy ===== *)
theory Plugin_Loader
  imports Lua_Engine Rotation "HOL-Library.List_Lexorder" "HOL-Library.Char_ord" "HOL-Library.Multiset"
begin

text \<open>
  \<open>src/plugin_loader.rs\<close>: the scan of a plugin directory and the explicit list of scripts, both loaded into one engine.
  The file system is the environment of a call: whether a path exists, what a directory lists in the order the
  system gives, and what reading a file returns.
\<close>

record plugin_fs =
  fs_exists :: "string \<Rightarrow> bool"
  fs_read_dir :: "string \<Rightarrow> string + (string + string) list"
  fs_read_file :: "string \<Rightarrow> string + string"

datatype load_error = ReadDir string string | Plugin string lua_error

text \<open>
  \<open>Path::extension\<close> of a directory entry's name: what follows the last dot, unless nothing precedes it.
\<close>

definition extension :: "string \<Rightarrow> string option" where
  "extension name =
     (let after = rev (takeWhile (\<lambda>c. c \<noteq> CHR ''.'') (rev name));
          before = rev (drop 1 (dropWhile (\<lambda>c. c \<noteq> CHR ''.'') (rev name))) in
      if name = ''..'' \<or> CHR ''.'' \<notin> set name \<or> before = [] then None else Some after)"

definition to_ascii_lowercase :: "char \<Rightarrow> char" where
  "to_ascii_lowercase c = (if byte_in 0x41 0x5A c then char_of (of_char c + 0x20 :: nat) else c)"

definition eq_ignore_ascii_case :: "string \<Rightarrow> string \<Rightarrow> bool" where
  "eq_ignore_ascii_case s t \<longleftrightarrow> map to_ascii_lowercase s = map to_ascii_lowercase t"

definition is_lua_name :: "string \<Rightarrow> bool" where
  "is_lua_name name =
     (case extension name of None \<Rightarrow> False | Some ext \<Rightarrow> eq_ignore_ascii_case ext ''lua'')"

fun ok_entries :: "(string + string) list \<Rightarrow> string list" where
  "ok_entries [] = []"
| "ok_entries (Inl _ # es) = ok_entries es"
| "ok_entries (Inr name # es) = name # ok_entries es"

text \<open>
  The entries of one directory differ only in their last component, so comparing their paths is comparing the
  names byte by byte.
\<close>

definition plugin_paths :: "string \<Rightarrow> (string + string) list \<Rightarrow> string list" where
  "plugin_paths dir es = map (path_join dir) (sort (filter is_lua_name (ok_entries es)))"

fun load_each ::
  "'vm lua_host \<Rightarrow> plugin_fs \<Rightarrow> string list \<Rightarrow> 'vm lua_engine \<Rightarrow> (load_error + unit) \<times> 'vm lua_engine"
where
  "load_each host fs [] e = (Inr (), e)"
| "load_each host fs (path # paths) e =
     (case load_plugin_file host path (fs_read_file fs path) e of
        (Inl err, e') \<Rightarrow> (Inl (Plugin path err), e')
      | (Inr _, e') \<Rightarrow> load_each host fs paths e')"

definition load_directory ::
  "'vm lua_host \<Rightarrow> plugin_fs \<Rightarrow> string \<Rightarrow> 'vm lua_engine \<Rightarrow> (load_error + nat) \<times> 'vm lua_engine"
where
  "load_directory host fs dir e =
     (if \<not> fs_exists fs dir then (Inr 0, e)
      else (case fs_read_dir fs dir of
              Inl err \<Rightarrow> (Inl (ReadDir dir err), e)
            | Inr es \<Rightarrow>
                (let paths = plugin_paths dir es in
                 case load_each host fs paths e of
                   (Inl err, e') \<Rightarrow> (Inl err, e')
                 | (Inr _, e') \<Rightarrow> (Inr (length paths), e'))))"

definition load_scripts ::
  "'vm lua_host \<Rightarrow> plugin_fs \<Rightarrow> string list \<Rightarrow> 'vm lua_engine \<Rightarrow> (load_error + unit) \<times> 'vm lua_engine"
where
  "load_scripts host fs paths e = load_each host fs paths e"

subsection \<open>Lemmas\<close>

lemma mset_ok_entries: "mset es = mset es' \<Longrightarrow> mset (ok_entries es) = mset (ok_entries es')"
proof -
  have "mset (ok_entries es) = image_mset projr (filter_mset (\<lambda>e. \<not> isl e) (mset es))" for es
    by (induction es rule: ok_entries.induct) auto
  then show "mset es = mset es' \<Longrightarrow> mset (ok_entries es) = mset (ok_entries es')" by simp
qed

lemma plugin_paths_perm: "mset es = mset es' \<Longrightarrow> plugin_paths dir es = plugin_paths dir es'"
proof -
  assume "mset es = mset es'"
  then have "mset (ok_entries es) = mset (ok_entries es')" by (rule mset_ok_entries)
  then have "mset (filter is_lua_name (ok_entries es)) = mset (filter is_lua_name (ok_entries es'))" by simp
  then have "sort (filter is_lua_name (ok_entries es)) = sort (filter is_lua_name (ok_entries es'))"
    by (intro properties_for_sort) simp_all
  then show ?thesis by (simp add: plugin_paths_def)
qed

text \<open>The registrations of the plugins that ran, in order; an error stops the loading after the plugin that raised it.\<close>

lemma load_each_append:
  "load_each host fs (ps @ qs) e =
     (case load_each host fs ps e of (Inl err, e') \<Rightarrow> (Inl err, e') | (Inr _, e') \<Rightarrow> load_each host fs qs e')"
  by (induction ps arbitrary: e) (auto split: sum.splits prod.splits)

subsection \<open>Properties\<close>

text \<open>
  C40 (loading does not depend on the directory order). Two listings of a directory with the same entries in any order
  load the same plugins in the same order, so give the same engine and the same result; when no plugin fails the
  result counts the names with the extension \<open>lua\<close>, in any case, and entries that could not be read are skipped.
\<close>

theorem plugin_order_deterministic:
  assumes "fs_read_dir fs dir = Inr es" and "mset es' = mset es"
  shows "load_directory host (fs\<lparr>fs_read_dir := (fs_read_dir fs)(dir := Inr es')\<rparr>) dir e = load_directory host fs dir e
    \<and> (\<forall>n e'. load_directory host fs dir e = (Inr n, e') \<longrightarrow> fs_exists fs dir \<longrightarrow>
         n = length (filter is_lua_name (ok_entries es'))
         \<and> load_each host fs (plugin_paths dir es') e = (Inr (), e'))"
proof -
  have each: "load_each host (fs\<lparr>fs_read_dir := d\<rparr>) ps e = load_each host fs ps e" for d ps
    by (induction ps arbitrary: e) (auto split: sum.splits prod.splits)
  have paths: "plugin_paths dir es' = plugin_paths dir es" using assms(2) by (rule plugin_paths_perm)
  have "length (filter is_lua_name (ok_entries es')) = length (plugin_paths dir es)"
    using paths by (simp add: plugin_paths_def) (metis length_map length_sort)
  then show ?thesis
    using assms(1) by (auto simp: load_directory_def Let_def each paths split: sum.splits prod.splits)
qed

definition demo_plugin_fs :: plugin_fs where
  "demo_plugin_fs =
     \<lparr>fs_exists = (\<lambda>_. True), fs_read_dir = (\<lambda>_. Inr [Inr ''b.lua'', Inl ''gone'', Inr ''x.txt'', Inr ''a.LUA'']),
      fs_read_file = Inr\<rparr>"

definition tracing_host :: "string list lua_host" where
  "tracing_host =
     \<lparr>get_dissector = (\<lambda>vm r. \<lparr>le_result = Inr r, le_adds = [], le_vm = vm, lr_calls = []\<rparr>),
      call_dissector = (\<lambda>vm r bs. \<lparr>le_result = Inr (LInteger 1), le_adds = [], le_vm = vm, lr_calls = []\<rparr>),
      exec_chunk = (\<lambda>vm s n. \<lparr>le_result = Inr (), le_adds = [(''tls.port'', 443, length vm)], le_vm = vm @ [n]\<rparr>),
      host_gc_collect = (\<lambda>vm. vm), host_used_memory = (\<lambda>vm. 0)\<rparr>"

theorem plugin_order_deterministic_witness:
  "load_directory tracing_host
     (demo_plugin_fs\<lparr>fs_read_dir := (fs_read_dir demo_plugin_fs)
        (''d'' := Inr [Inr ''a.LUA'', Inr ''b.lua'', Inl ''gone'', Inr ''x.txt''])\<rparr>) ''d'' (new_engine [])
   = load_directory tracing_host demo_plugin_fs ''d'' (new_engine [])"
  using plugin_order_deterministic [of demo_plugin_fs "''d''" "[Inr ''b.lua'', Inl ''gone'', Inr ''x.txt'', Inr ''a.LUA'']"
      "[Inr ''a.LUA'', Inr ''b.lua'', Inl ''gone'', Inr ''x.txt'']" tracing_host "new_engine []"]
  by (simp add: demo_plugin_fs_def)

end
