(* ===== verification/Memstats.thy ===== *)
theory Memstats
  imports Strings
begin

text \<open>
  \<open>src/memstats.rs\<close>: the resident set size read from the text of \<open>/proc/self/status\<close>, which is the argument. A line
  that starts with the label decides the result, also when what follows does not parse.
\<close>

text \<open>\<open>str::parse::<u64>\<close>: an optional plus sign, at least one digit, and a value that fits.\<close>

definition parse_u64 :: "string \<Rightarrow> u64 option" where
  "parse_u64 s =
     (let ds = (case s of [] \<Rightarrow> [] | c # cs \<Rightarrow> if c = CHR ''+'' then cs else s) in
      if ds = [] \<or> \<not> list_all dec_digit ds \<or> dec_val ds \<ge> 2 ^ 64 then None else Some (of_nat (dec_val ds)))"

definition strip_label :: "string \<Rightarrow> string \<Rightarrow> string option" where
  "strip_label p s = (if take (length p) s = p then Some (drop (length p) s) else None)"

fun rss_of_lines :: "string list \<Rightarrow> u64 option" where
  "rss_of_lines [] = None"
| "rss_of_lines (line # lines) =
     (case strip_label ''VmRSS:'' line of
        None \<Rightarrow> rss_of_lines lines
      | Some rest \<Rightarrow>
          (case split_whitespace rest of
             [] \<Rightarrow> None
           | tok # _ \<Rightarrow> (case parse_u64 tok of None \<Rightarrow> None | Some kb \<Rightarrow> Some (kb * 1024))))"

definition rss_bytes :: "string option \<Rightarrow> u64 option" where
  "rss_bytes status = (case status of None \<Rightarrow> None | Some txt \<Rightarrow> rss_of_lines (str_lines txt))"

lemma parse_u64_fmt: "n < 2 ^ 64 \<Longrightarrow> parse_u64 (fmt_dec n) = Some (of_nat n)"
proof -
  assume n: "n < 2 ^ 64"
  have d: "dec_val (fmt_dec n) = n" "list_all dec_digit (fmt_dec n)" "fmt_dec n \<noteq> []"
    using fmt_dec_val [of n] by auto
  obtain c cs where c: "fmt_dec n = c # cs" using d(3) by (cases "fmt_dec n") auto
  have "c \<noteq> CHR ''+''" using d(2) c by (auto simp: dec_digit_def byte_in_def)
  then show ?thesis using n d c by (simp add: parse_u64_def)
qed

text \<open>The lines before the label do not matter.\<close>

lemma rss_of_lines_skip:
  "list_all (\<lambda>l. strip_label ''VmRSS:'' l = None) pre \<Longrightarrow> rss_of_lines (pre @ ls) = rss_of_lines ls"
  by (induction pre) auto

end
