(* ===== verification/Main_Loop.thy ===== *)
theory Main_Loop
  imports Orchestrator_Invariant Plugin_Loader Memstats Ek_Output
begin

text \<open>
  \<open>src/main.rs\<close>: the checks of the command line, the set-up of a run, and the loop that reads packets, hands the frames
  to the orchestrator and writes what comes out of it. \<open>Cli\<close> is the parsed command line. The clock, the file system
  and the outcome of each write are the environment of a run; standard output is the bytes written to it, shared by
  both outputs when both go there. What is printed on standard error is left out, but for the values of the
  periodic statistics.
\<close>

subsection \<open>The command line\<close>

record cli =
  cli_keylog :: "string option"
  cli_keylog_reload_interval :: u64
  cli_plugin_dirs :: "string list"
  cli_lua_scripts :: "string list"
  cli_fields :: "string list"
  cli_format :: string
  cli_ek_index_prefix :: string
  cli_output :: string
  cli_packet_log :: "string option"
  cli_ndjson_explode :: "string option"
  cli_ndjson_map :: "string list"
  cli_rotate_count :: "u64 option"
  cli_rotate_seconds :: "u64 option"
  cli_compress :: "string option"
  cli_compress_level :: nat
  cli_idle_timeout_seconds :: u64
  cli_max_pending_bytes :: nat
  cli_max_pending_packets :: nat
  cli_max_pending_age_seconds :: u64
  cli_max_tail_bytes :: nat
  cli_stats_interval_seconds :: u64
  cli_lua_gc_interval_seconds :: u64

text \<open>The checks before \<open>run\<close>; a message, here without the offending value, means exit with status 2.\<close>

definition validate_cli :: "cli \<Rightarrow> string option" where
  "validate_cli c =
     (if cli_rotate_count c \<noteq> None \<and> cli_rotate_seconds c \<noteq> None
      then Some ''--rotate-count and --rotate-seconds are mutually exclusive''
      else if cli_format c \<noteq> ''ek'' \<and> cli_format c \<noteq> ''ndjson'' then Some ''-T must be ek or ndjson''
      else if cli_packet_log c \<noteq> None \<and> cli_format c \<noteq> ''ndjson'' then Some ''--packet-log requires -T ndjson''
      else if cli_ndjson_explode c \<noteq> None \<and> cli_format c \<noteq> ''ndjson''
      then Some ''--ndjson-explode requires -T ndjson''
      else if cli_ndjson_map c \<noteq> [] \<and> cli_format c \<noteq> ''ndjson'' then Some ''--ndjson-map requires -T ndjson''
      else (case cli_compress c of
              Some x \<Rightarrow> if x \<noteq> ''gzip'' then Some ''--compress only supports gzip'' else None
            | None \<Rightarrow> None))"

definition config_of_cli :: "cli \<Rightarrow> orchestrator_config" where
  "config_of_cli c =
     \<lparr>idle_timeout = (if cli_idle_timeout_seconds c = 0 then None else Some (secs (unat (cli_idle_timeout_seconds c)))),
      sweep_interval = secs 60, max_pending_bytes = cli_max_pending_bytes c,
      max_pending_packets = cli_max_pending_packets c,
      max_pending_age = secs (unat (cli_max_pending_age_seconds c)), max_tail_bytes = cli_max_tail_bytes c,
      lua_gc_interval = secs (unat (cli_lua_gc_interval_seconds c))\<rparr>"

fun rotate_by_of :: "u64 option \<Rightarrow> u64 option \<Rightarrow> panic + rotate_by" where
  "rotate_by_of (Some n) None = Inr (Count n)"
| "rotate_by_of None (Some s) = Inr (Seconds (secs (unat s)))"
| "rotate_by_of None None = Inr Never"
| "rotate_by_of (Some n) (Some s) = Inl UnreachableCode"

subsection \<open>The message writer\<close>

datatype message_writer = EkMessages ek_writer | NdjsonMessages ndjson_writer

definition writer_of_cli :: "cli \<Rightarrow> message_writer" where
  "writer_of_cli c =
     (if cli_format c = ''ndjson''
      then NdjsonMessages (ndjson_new (cli_fields c) (cli_ndjson_explode c) (cli_ndjson_map c))
      else EkMessages (ek_new (cli_fields c) (cli_ek_index_prefix c)))"

fun mw_write_tls_record :: "hex_encoder \<Rightarrow> message_writer \<Rightarrow> string \<Rightarrow> decoded_message \<Rightarrow> string" where
  "mw_write_tls_record hx (EkMessages w) buf msg = fst (ek_write_message hx w buf msg)"
| "mw_write_tls_record hx (NdjsonMessages w) buf msg = fst (write_tls_record hx w buf msg)"

fun mw_write_packet_event :: "message_writer \<Rightarrow> string \<Rightarrow> packet_event \<Rightarrow> panic + string" where
  "mw_write_packet_event (EkMessages w) buf evt = Inl UnreachableCode"
| "mw_write_packet_event (NdjsonMessages w) buf evt = Inr (fst (write_packet_event w buf evt))"

subsection \<open>Paths\<close>

text \<open>
  \<open>Path::file_name\<close> and \<open>Path::parent\<close> of a Unix path. Trailing separators and \<open>.\<close> components are not part of it; the
  functions walk the path from its end.
\<close>

fun trim_rev :: "string \<Rightarrow> string" where
  "trim_rev [] = []"
| "trim_rev [c] = [c]"
| "trim_rev (c # d # r) =
     (if c = CHR ''/'' then trim_rev (d # r)
      else if c = CHR ''.'' \<and> d = CHR ''/'' then trim_rev (d # r) else c # d # r)"

definition path_parts_of :: "string \<Rightarrow> path_parts" where
  "path_parts_of s =
     (let t = trim_rev (rev s);
          last_part = rev (takeWhile (\<lambda>c. c \<noteq> CHR ''/'') t);
          rest = dropWhile (\<lambda>c. c \<noteq> CHR ''/'') t in
      if t = [] \<or> t = ''/'' then \<lparr>pp_file_name = None, pp_parent = None\<rparr>
      else \<lparr>pp_file_name = (if last_part = ''..'' \<or> last_part = ''.'' then None else Some last_part),
            pp_parent = Some (rev (trim_rev rest))\<rparr>)"

subsection \<open>Outputs\<close>

datatype output_target = Stdout | Rotating rotating_gz_writer

text \<open>An output with the chunks it has finished so far.\<close>

record sink =
  sk_output :: output_target
  sk_chunks :: "current_chunk list"

definition output_new :: "string \<Rightarrow> rotate_by \<Rightarrow> nat \<Rightarrow> output_target" where
  "output_new prefix rotate_by compression =
     (if prefix = ''-'' then Stdout else Rotating (with_compression (path_parts_of prefix) rotate_by compression))"

text \<open>
  On standard output \<open>re_write\<close> stands for the failure of \<open>write_all\<close> or of \<open>flush\<close>, with the bytes that
  got out before.
\<close>

definition output_write :: "rotate_env \<Rightarrow> bytes \<Rightarrow> sink \<Rightarrow> bytes \<Rightarrow> panic + (io_failure option \<times> sink \<times> bytes)" where
  "output_write env data sk stdout =
     (case sk_output sk of
        Stdout \<Rightarrow>
          (case re_write env of
             Some (e, n) \<Rightarrow> Inr (Some e, sk, stdout @ take n data)
           | None \<Rightarrow> Inr (None, sk, stdout @ data))
      | Rotating w \<Rightarrow>
          (case write_message env data w of
             Inl p \<Rightarrow> Inl p
           | Inr ((err, finished), w') \<Rightarrow>
               Inr (err, \<lparr>sk_output = Rotating w', sk_chunks = sk_chunks sk @ finished\<rparr>, stdout)))"

definition output_finish :: "rotate_env \<Rightarrow> sink \<Rightarrow> io_failure option \<times> sink" where
  "output_finish env sk =
     (case sk_output sk of
        Stdout \<Rightarrow> (map_option fst (re_write env), sk)
      | Rotating w \<Rightarrow>
          (case finish_current env w of
             (Inl e, w') \<Rightarrow> (Some e, sk\<lparr>sk_output := Rotating w'\<rparr>)
           | (Inr finished, w') \<Rightarrow> (None, \<lparr>sk_output = Rotating w', sk_chunks = sk_chunks sk @ finished\<rparr>)))"

text \<open>Leaving \<open>run\<close> drops the outputs; a rotating one finishes its open chunk.\<close>

definition output_drop :: "rotate_env \<Rightarrow> sink \<Rightarrow> sink" where
  "output_drop env sk =
     (case sk_output sk of
        Stdout \<Rightarrow> sk
      | Rotating w \<Rightarrow> \<lparr>sk_output = Rotating (w\<lparr>rw_current := None\<rparr>), sk_chunks = sk_chunks sk @ drop_writer env w\<rparr>)"

subsection \<open>The state of the loop\<close>

record stats =
  st_rss_mb :: "u64 option"
  st_lua_mb :: nat
  st_connections :: nat
  st_buffered_bytes :: nat
  st_keylog_entries :: nat
  st_packets :: nat
  st_messages :: u64
  st_packet_events :: u64
  st_evicted :: u64
  st_gap_abandoned_bytes :: u64
  st_connections_desynced :: u64
  st_tail_bytes_discarded :: u64

record 'vm main_state =
  ms_orc :: "'vm orchestrator"
  ms_output :: sink
  ms_packet_output :: "sink option"
  ms_stdout :: bytes
  ms_packet_index :: nat
  ms_messages_written :: u64
  ms_packet_events_written :: u64
  ms_last_stats :: instant
  ms_stats :: "stats list"

text \<open>The libraries, and what one iteration meets: its frame, its writes, and the clock and the process status for the statistics.\<close>

record ('vm, 'r) libraries =
  lib_world :: "'vm world"
  lib_hex :: hex_encoder
  lib_etherparse :: etherparse_lib
  lib_pcap :: "'r pcap_lib"

record iter_env =
  it_frame :: frame_env
  it_event_write :: rotate_env
  it_message_write :: "nat \<Rightarrow> rotate_env"
  it_stats_elapsed :: instant
  it_stats_now :: instant
  it_status :: "string option"

text \<open>The \<open>?\<close> operator: an output error ends the run.\<close>

type_synonym 's io_result = "panic + (io_failure option \<times> 's)"

definition and_then :: "'s io_result \<Rightarrow> ('s \<Rightarrow> 's io_result) \<Rightarrow> 's io_result" where
  "and_then r f =
     (case r of Inl p \<Rightarrow> Inl p | Inr (Some e, s) \<Rightarrow> Inr (Some e, s) | Inr (None, s) \<Rightarrow> f s)"

definition log_stats :: "'vm lua_host \<Rightarrow> string option \<Rightarrow> 'vm main_state \<Rightarrow> stats" where
  "log_stats host status s =
     (let orc = ms_orc s in
      \<lparr>st_rss_mb = map_option (\<lambda>b. b div (1024 * 1024)) (rss_bytes status),
       st_lua_mb = orch_lua_used_memory host orc div (1024 * 1024), st_connections = active_connections orc,
       st_buffered_bytes = buffered_bytes orc, st_keylog_entries = keylog_entries orc,
       st_packets = ms_packet_index s, st_messages = ms_messages_written s,
       st_packet_events = ms_packet_events_written s, st_evicted = evicted_connections orc,
       st_gap_abandoned_bytes = gap_abandoned_bytes orc, st_connections_desynced = connections_desynced orc,
       st_tail_bytes_discarded = tail_bytes_discarded orc\<rparr>)"

definition maybe_log_stats ::
  "'vm lua_host \<Rightarrow> duration option \<Rightarrow> iter_env \<Rightarrow> 'vm main_state \<Rightarrow> 'vm main_state"
where
  "maybe_log_stats host stats_interval env s =
     (case stats_interval of
        None \<Rightarrow> s
      | Some interval \<Rightarrow>
          if elapsed (ms_last_stats s) (it_stats_elapsed env) \<ge> interval
          then s\<lparr>ms_stats := ms_stats s @ [log_stats host (it_status env) s], ms_last_stats := it_stats_now env\<rparr>
          else s)"

definition write_event :: "message_writer \<Rightarrow> rotate_env \<Rightarrow> packet_event \<Rightarrow> 'vm main_state \<Rightarrow> 'vm main_state io_result" where
  "write_event mw env evt s =
     (case ms_packet_output s of
        None \<Rightarrow> Inr (None, s)
      | Some sk \<Rightarrow>
          (case mw_write_packet_event mw [] evt of
             Inl p \<Rightarrow> Inl p
           | Inr buf \<Rightarrow>
               (case output_write env (str_bytes buf) sk (ms_stdout s) of
                  Inl p \<Rightarrow> Inl p
                | Inr (err, sk', out) \<Rightarrow>
                    (let s' = s\<lparr>ms_packet_output := Some sk', ms_stdout := out\<rparr> in
                     if err = None
                     then Inr (None, s'\<lparr>ms_packet_events_written := ms_packet_events_written s' + 1\<rparr>)
                     else Inr (err, s')))))"

text \<open>The loop over the messages of a frame; \<open>i\<close> counts its writes.\<close>

fun write_messages ::
  "hex_encoder \<Rightarrow> message_writer \<Rightarrow> (nat \<Rightarrow> rotate_env) \<Rightarrow> nat \<Rightarrow> decoded_message list
     \<Rightarrow> 'vm main_state \<Rightarrow> 'vm main_state io_result"
where
  "write_messages hx mw envs i [] s = Inr (None, s)"
| "write_messages hx mw envs i (msg # msgs) s =
     (case output_write (envs i) (str_bytes (mw_write_tls_record hx mw [] msg)) (ms_output s) (ms_stdout s) of
        Inl p \<Rightarrow> Inl p
      | Inr (err, sk', out) \<Rightarrow>
          (let s' = s\<lparr>ms_output := sk', ms_stdout := out\<rparr> in
           if err = None
           then write_messages hx mw envs (Suc i) msgs (s'\<lparr>ms_messages_written := ms_messages_written s' + 1\<rparr>)
           else Inr (err, s')))"

text \<open>The body of the loop, for a packet that was read.\<close>

definition main_step ::
  "('vm, 'r) libraries \<Rightarrow> message_writer \<Rightarrow> duration option \<Rightarrow> iter_env \<Rightarrow> raw_packet \<Rightarrow> data_link
     \<Rightarrow> 'vm main_state \<Rightarrow> 'vm main_state io_result"
where
  "main_step libs mw stats_interval env raw link_type s0 =
     (let s = s0\<lparr>ms_packet_index := ms_packet_index s0 + 1\<rparr> in
      case parse_tcp_frame (lib_etherparse libs) link_type (rp_data raw) of
        Inl _ \<Rightarrow> Inr (None, s)
      | Inr frame \<Rightarrow>
          (case process_frame (lib_world libs) frame (rp_index raw) (rp_data raw) (rp_timestamp raw) (it_frame env)
                  (ms_orc s) of
             Inl p \<Rightarrow> Inl p
           | Inr (evt, msgs, orc') \<Rightarrow>
               and_then (write_event mw (it_event_write env) evt (s\<lparr>ms_orc := orc'\<rparr>)) (\<lambda>s2.
               and_then (write_messages (lib_hex libs) mw (it_message_write env) 0 msgs s2) (\<lambda>s3.
               Inr (None, maybe_log_stats (w_host (lib_world libs)) stats_interval env s3)))))"

text \<open>Every packet read shortens what the source still has to give.\<close>

fun source_left :: "pcap_source \<Rightarrow> nat" where
  "source_left (SourcePcap rs link) = length rs"
| "source_left (SourcePcapNg bs) = length bs"

lemma next_block_shorter: "next_block i bs = (Some r, rest) \<Longrightarrow> length rest < length bs"
  by (induction i bs rule: next_block.induct) (auto simp: Let_def)

lemma next_packet_shorter: "next_packet i src = (Some r, src') \<Longrightarrow> source_left src' < source_left src"
  by (auto simp: next_packet_def dest: next_block_shorter
      split: pcap_source.splits list.splits sum.splits prod.splits)

function main_loop ::
  "('vm, 'r) libraries \<Rightarrow> message_writer \<Rightarrow> duration option \<Rightarrow> (nat \<Rightarrow> iter_env) \<Rightarrow> pcap_source
     \<Rightarrow> 'vm main_state \<Rightarrow> 'vm main_state io_result"
where
  "main_loop libs mw stats_interval envs src s =
     (case next_packet (ms_packet_index s) src of
        (Some (Inr (raw, link_type)), src') \<Rightarrow>
          (case main_step libs mw stats_interval (envs (ms_packet_index s)) raw link_type s of
             Inr (None, s') \<Rightarrow> main_loop libs mw stats_interval envs src' s'
           | r \<Rightarrow> r)
      | _ \<Rightarrow> Inr (None, s))"
  by pat_completeness auto
termination
  by (relation "measure (\<lambda>(libs, mw, stats_interval, envs, src, s). source_left src)")
    (auto dest: next_packet_shorter [OF sym])

declare main_loop.simps [simp del]

subsection \<open>A run of the program\<close>

record 'vm run_env =
  rn_keylog :: keylog_env
  rn_keylog_now :: instant
  rn_lua_new :: "lua_error + 'vm"
  rn_plugins :: plugin_fs
  rn_sweep_now :: instant
  rn_gc_now :: instant
  rn_stats_start :: instant
  rn_iters :: "nat \<Rightarrow> iter_env"
  rn_finish :: rotate_env
  rn_packet_finish :: rotate_env

datatype start_error =
  KeylogFailed string io_error | LuaFailed lua_error | PluginFailed load_error | CaptureFailed open_error

definition open_keylog :: "hex_decoder \<Rightarrow> cli \<Rightarrow> 'vm run_env \<Rightarrow> start_error + keylog_source" where
  "open_keylog hexd c env =
     (case cli_keylog c of
        Some path \<Rightarrow>
          (case ks_open hexd path (secs (unat (cli_keylog_reload_interval c))) (rn_keylog env) of
             Inl e \<Rightarrow> Inl (KeylogFailed path e) | Inr kl \<Rightarrow> Inr kl)
      | None \<Rightarrow> Inr (from_parsed (keylog_parse hexd []) (rn_keylog_now env)))"

fun load_directories ::
  "'vm lua_host \<Rightarrow> plugin_fs \<Rightarrow> string list \<Rightarrow> nat \<Rightarrow> 'vm lua_engine \<Rightarrow> (load_error + nat) \<times> 'vm lua_engine"
where
  "load_directories host fs [] n e = (Inr n, e)"
| "load_directories host fs (dir # dirs) n e =
     (case load_directory host fs dir e of
        (Inl err, e') \<Rightarrow> (Inl err, e')
      | (Inr k, e') \<Rightarrow> load_directories host fs dirs (n + k) e')"

definition load_plugins ::
  "'vm lua_host \<Rightarrow> cli \<Rightarrow> 'vm run_env \<Rightarrow> start_error + (nat \<times> 'vm lua_engine)"
where
  "load_plugins host c env =
     (case rn_lua_new env of
        Inl e \<Rightarrow> Inl (LuaFailed e)
      | Inr vm \<Rightarrow>
          (case load_directories host (rn_plugins env) (cli_plugin_dirs c) 0 (new_engine vm) of
             (Inl err, _) \<Rightarrow> Inl (PluginFailed err)
           | (Inr n, lua1) \<Rightarrow>
               (case load_scripts host (rn_plugins env) (cli_lua_scripts c) lua1 of
                  (Inl err, _) \<Rightarrow> Inl (PluginFailed err)
                | (Inr _, lua2) \<Rightarrow> Inr (n, lua2))))"

text \<open>
  Each output has storage of its own here. In the program two rotating outputs with one prefix name their chunks alike and
  overwrite each other's; the theorems about what is written suppose that the outputs are apart (\<open>outputs_apart\<close>).
\<close>

definition start_state :: "cli \<Rightarrow> 'vm run_env \<Rightarrow> keylog_source \<Rightarrow> 'vm lua_engine \<Rightarrow> rotate_by \<Rightarrow> 'vm main_state" where
  "start_state c env kl lua rb =
     (let new_sink = (\<lambda>prefix. \<lparr>sk_output = output_new prefix rb (cli_compress_level c), sk_chunks = []\<rparr>) in
      \<lparr>ms_orc = orchestrator_new kl lua (config_of_cli c) (rn_sweep_now env) (rn_gc_now env),
       ms_output = new_sink (cli_output c), ms_packet_output = map_option new_sink (cli_packet_log c),
       ms_stdout = [], ms_packet_index = 0, ms_messages_written = 0, ms_packet_events_written = 0,
       ms_last_stats = rn_stats_start env, ms_stats = []\<rparr>)"

definition stats_interval_of :: "cli \<Rightarrow> duration option" where
  "stats_interval_of c =
     (if cli_stats_interval_seconds c > 0 then Some (secs (unat (cli_stats_interval_seconds c))) else None)"

definition finish_outputs :: "'vm run_env \<Rightarrow> 'vm main_state \<Rightarrow> 'vm main_state io_result" where
  "finish_outputs env s =
     (let (err, sk) = output_finish (rn_finish env) (ms_output s); s1 = s\<lparr>ms_output := sk\<rparr> in
      if err \<noteq> None then Inr (err, s1)
      else (case ms_packet_output s1 of
              None \<Rightarrow> Inr (None, s1)
            | Some pk \<Rightarrow>
                (let (err', pk') = output_finish (rn_packet_finish env) pk in
                 Inr (err', s1\<lparr>ms_packet_output := Some pk'\<rparr>))))"

definition drop_outputs :: "'vm run_env \<Rightarrow> 'vm main_state \<Rightarrow> 'vm main_state" where
  "drop_outputs env s =
     s\<lparr>ms_output := output_drop (rn_finish env) (ms_output s),
       ms_packet_output := map_option (output_drop (rn_packet_finish env)) (ms_packet_output s)\<rparr>"

text \<open>\<open>run\<close>: the inner \<open>Inl\<close> is a failure before the first packet is read.\<close>

definition run ::
  "('vm, 'r) libraries \<Rightarrow> cli \<Rightarrow> 'vm run_env \<Rightarrow> 'r read_fn \<Rightarrow> 'r
     \<Rightarrow> panic + (start_error + (io_failure option \<times> 'vm main_state))"
where
  "run libs c env rd input =
     (case open_keylog (w_hex (lib_world libs)) c env of
        Inl e \<Rightarrow> Inr (Inl e)
      | Inr kl \<Rightarrow>
          (case load_plugins (w_host (lib_world libs)) c env of
             Inl e \<Rightarrow> Inr (Inl e)
           | Inr (n, lua) \<Rightarrow>
               (case rotate_by_of (cli_rotate_count c) (cli_rotate_seconds c) of
                  Inl p \<Rightarrow> Inl p
                | Inr rb \<Rightarrow>
                    (case open_capture (lib_pcap libs) rd input of
                       Inl e \<Rightarrow> Inr (Inl (CaptureFailed e))
                     | Inr src \<Rightarrow>
                         (case and_then
                                 (main_loop libs (writer_of_cli c) (stats_interval_of c) (rn_iters env) src
                                    (start_state c env kl lua rb))
                                 (finish_outputs env) of
                            Inl p \<Rightarrow> Inl p
                          | Inr (err, s) \<Rightarrow> Inr (Inr (err, drop_outputs env s)))))))"

text \<open>\<open>main\<close>: the exit status, and the state at the end of a run that read packets.\<close>

definition main_fn ::
  "('vm, 'r) libraries \<Rightarrow> cli \<Rightarrow> 'vm run_env \<Rightarrow> 'r read_fn \<Rightarrow> 'r \<Rightarrow> panic + (nat \<times> 'vm main_state option)"
where
  "main_fn libs c env rd input =
     (case validate_cli c of
        Some _ \<Rightarrow> Inr (2, None)
      | None \<Rightarrow>
          (case run libs c env rd input of
             Inl p \<Rightarrow> Inl p
           | Inr (Inl _) \<Rightarrow> Inr (1, None)
           | Inr (Inr (Some _, s)) \<Rightarrow> Inr (1, Some s)
           | Inr (Inr (None, s)) \<Rightarrow> Inr (0, Some s)))"

end
