(* ===== verification/Main_Correct.thy ===== *)
theory Main_Correct
  imports Main_Loop Ek_Correct Orchestrator_Props
begin

text \<open>
  The whole program: that only a plugin can make it panic, whatever the clock, the file system and the writes do, and that
  without output errors, with its outputs apart, what it writes is the text of the decoded messages and packet events in
  the order of the packets.
\<close>

subsection \<open>Panics\<close>

lemma and_then_total:
  assumes "\<exists>e s'. r = Inr (e, s') \<and> (e = None \<longrightarrow> P s')" and "\<And>s'. P s' \<Longrightarrow> \<exists>e s''. f s' = Inr (e, s'') \<and> (e = None \<longrightarrow> Q s'')"
  shows "\<exists>e s''. and_then r f = Inr (e, s'') \<and> (e = None \<longrightarrow> Q s'')"
  using assms by (auto simp: and_then_def split: option.splits)

lemma output_write_total: "\<exists>e sk' out. output_write env data sk stdout = Inr (e, sk', out)"
proof (cases "sk_output sk")
  case (Rotating w)
  then show ?thesis using write_message_total [of env data w] by (auto simp: output_write_def)
qed (auto simp: output_write_def split: option.splits)

text \<open>What every iteration keeps: the orchestrator's invariant, and that events are only written in the right format.\<close>

definition main_inv :: "message_writer \<Rightarrow> 'vm main_state \<Rightarrow> bool" where
  "main_inv mw s \<longleftrightarrow> orch_inv (ms_orc s) \<and> (ms_packet_output s \<noteq> None \<longrightarrow> (\<exists>nw. mw = NdjsonMessages nw))"

lemma write_event_total:
  assumes "main_inv mw s"
  shows "\<exists>e s'. write_event mw env evt s = Inr (e, s') \<and> (e = None \<longrightarrow> main_inv mw s')"
proof (cases "ms_packet_output s")
  case None
  then show ?thesis using assms by (simp add: write_event_def)
next
  case (Some sk)
  then obtain nw where nw: "mw = NdjsonMessages nw" using assms by (auto simp: main_inv_def)
  obtain e sk' out where
    "output_write env (str_bytes (fst (write_packet_event nw [] evt))) sk (ms_stdout s) = Inr (e, sk', out)"
    using output_write_total by blast
  then show ?thesis using assms Some nw by (simp add: write_event_def Let_def main_inv_def)
qed

lemma write_messages_total:
  "main_inv mw s \<Longrightarrow> \<exists>e s'. write_messages hx mw envs i msgs s = Inr (e, s') \<and> (e = None \<longrightarrow> main_inv mw s')"
proof (induction msgs arbitrary: i s)
  case (Cons msg msgs)
  obtain e sk' out where w:
    "output_write (envs i) (str_bytes (mw_write_tls_record hx mw [] msg)) (ms_output s) (ms_stdout s) = Inr (e, sk', out)"
    using output_write_total by blast
  let ?s = "s\<lparr>ms_output := sk', ms_stdout := out, ms_messages_written := ms_messages_written s + 1\<rparr>"
  have "main_inv mw ?s" using Cons.prems by (simp add: main_inv_def)
  from Cons.IH [OF this, of "Suc i"] show ?case using w by (cases e) (auto simp: Let_def)
qed simp

lemma main_inv_stats [simp]: "main_inv mw (maybe_log_stats host iv env s) = main_inv mw s"
  by (simp add: main_inv_def maybe_log_stats_def split: option.splits)

text \<open>A run of the loop either panics in a script or ends with a result, and keeps the invariant when no write fails.\<close>

lemma main_step_total:
  assumes ep: "payload_sub_slice (lib_etherparse libs)" and inv: "main_inv mw s"
  shows "case main_step libs mw iv env raw link s of
      Inl p \<Rightarrow> script_panics (w_host (lib_world libs)) p | Inr (e, s') \<Rightarrow> e = None \<longrightarrow> main_inv mw s'"
proof (cases "parse_tcp_frame (lib_etherparse libs) link (rp_data raw)")
  case (Inl x)
  then show ?thesis using inv by (simp add: main_step_def Let_def main_inv_def)
next
  case (Inr frame)
  note p = parse_tcp_frame_payload [OF ep Inr]
  have oi: "orch_inv (ms_orc s)" using inv by (simp add: main_inv_def)
  let ?pf = "process_frame (lib_world libs) frame (rp_index raw) (rp_data raw) (rp_timestamp raw) (it_frame env) (ms_orc s)"
  show ?thesis
  proof (cases ?pf)
    case (Inl e)
    then show ?thesis using Inr process_frame_panic [OF oi p Inl] by (simp add: main_step_def Let_def)
  next
    case r: (Inr r)
    obtain evt out orc' where "r = (evt, out, orc')" by (rule prod_cases3)
    note f = r [unfolded this]
    let ?s = "s\<lparr>ms_packet_index := ms_packet_index s + 1, ms_orc := orc'\<rparr>"
    have "main_inv mw ?s" using inv process_frame_inv [OF oi f] by (simp add: main_inv_def)
    note e = write_event_total [OF this, of "it_event_write env" evt]
    have "\<exists>e s'. and_then (write_event mw (it_event_write env) evt ?s) (\<lambda>s2.
        and_then (write_messages (lib_hex libs) mw (it_message_write env) 0 out s2) (\<lambda>s3.
        Inr (None, maybe_log_stats (w_host (lib_world libs)) iv env s3))) = Inr (e, s') \<and> (e = None \<longrightarrow> main_inv mw s')"
      by (rule and_then_total [OF e]) (rule and_then_total [OF write_messages_total], assumption, simp)
    then show ?thesis using f Inr by (auto simp: main_step_def Let_def)
  qed
qed

lemma main_loop_total:
  "payload_sub_slice (lib_etherparse libs) \<Longrightarrow> main_inv mw s \<Longrightarrow>
     case main_loop libs mw iv envs src s of
       Inl p \<Rightarrow> script_panics (w_host (lib_world libs)) p | Inr (e, s') \<Rightarrow> e = None \<longrightarrow> main_inv mw s'"
proof (induction libs mw iv envs src s rule: main_loop.induct)
  case (1 libs mw iv envs src s)
  obtain res src' where np: "next_packet (ms_packet_index s) src = (res, src')" by (metis prod.collapse)
  show ?case
  proof (cases "\<exists>raw link. res = Some (Inr (raw, link))")
    case True
    then obtain raw link where res: "res = Some (Inr (raw, link))" by blast
    note total = main_step_total [OF 1(2,3), of iv "envs (ms_packet_index s)" raw link]
    show ?thesis
    proof (cases "main_step libs mw iv (envs (ms_packet_index s)) raw link s")
      case (Inl p)
      then show ?thesis using np res total by (subst main_loop.simps) simp
    next
      case st0: (Inr r)
      obtain e s' where "r = (e, s')" by (rule prod.exhaust)
      note st = st0 [unfolded this]
      show ?thesis
      proof (cases e)
        case None
        from 1(1) [OF np [symmetric] res refl refl st refl None 1(2)] total st None
        show ?thesis using np res by (subst main_loop.simps) simp
      qed (use np res st in \<open>subst main_loop.simps, simp\<close>)
    qed
  next
    case False
    then show ?thesis using np 1(3) by (subst main_loop.simps) (auto split: option.splits sum.splits)
  qed
qed

lemma writer_of_cli_events:
  "validate_cli c = None \<Longrightarrow> cli_packet_log c \<noteq> None \<Longrightarrow> \<exists>nw. writer_of_cli c = NdjsonMessages nw"
  by (auto simp: validate_cli_def writer_of_cli_def split: if_splits)

lemma rotate_by_of_valid: "validate_cli c = None \<Longrightarrow> \<exists>rb. rotate_by_of (cli_rotate_count c) (cli_rotate_seconds c) = Inr rb"
  by (cases "(cli_rotate_count c, cli_rotate_seconds c)" rule: rotate_by_of.cases) (auto simp: validate_cli_def)

lemma start_state_inv: "validate_cli c = None \<Longrightarrow> main_inv (writer_of_cli c) (start_state c env kl lua rb)"
  using writer_of_cli_events by (fastforce simp: main_inv_def start_state_def Let_def orch_inv_new)

lemma finish_outputs_total: "\<exists>e s'. finish_outputs env s = Inr (e, s')"
  by (auto simp: finish_outputs_def Let_def split: prod.splits option.splits)

lemma run_panic:
  assumes "payload_sub_slice (lib_etherparse libs)" and "validate_cli c = None" and "run libs c env rd input = Inl p"
  shows "script_panics (w_host (lib_world libs)) p"
proof -
  obtain rb where rb: "rotate_by_of (cli_rotate_count c) (cli_rotate_seconds c) = Inr rb"
    using rotate_by_of_valid [OF assms(2)] ..
  have "script_panics (w_host (lib_world libs)) p"
    if r: "and_then (main_loop libs (writer_of_cli c) (stats_interval_of c) (rn_iters env) src
                  (start_state c env kl lua rb)) (finish_outputs env) = Inl p" for src kl lua
  proof -
    have "finish_outputs env s \<noteq> Inl p" for s using finish_outputs_total [of env s] by auto
    then show ?thesis
      using r main_loop_total [OF assms(1) start_state_inv [OF assms(2), of env kl lua rb], of "stats_interval_of c" "rn_iters env" src]
      by (auto simp: and_then_def split: sum.splits option.splits prod.splits)
  qed
  then show ?thesis using assms(3) unfolding run_def rb by (auto split: sum.splits prod.splits)
qed

subsection \<open>What is written\<close>

text \<open>The bytes an output has taken: on standard output what is there, in files the contents of the chunks in order.\<close>

definition sink_bytes :: "sink \<Rightarrow> bytes \<Rightarrow> bytes" where
  "sink_bytes sk stdout =
     (case sk_output sk of
        Stdout \<Rightarrow> stdout | Rotating w \<Rightarrow> concat (map ck_encoder (all_chunks (sk_chunks sk) w)))"

lemma write_message_bytes:
  assumes "env_ok env"
  shows "\<exists>fin w'. write_message env data w = Inr ((None, fin), w')
    \<and> concat (map ck_encoder (all_chunks (cs @ fin) w')) = concat (map ck_encoder (all_chunks cs w)) @ data"
  using assms
  by (auto simp: write_message_def rotate_if_needed_def finish_current_def open_new_def env_ok_def Let_def all_chunks_def
      split: option.splits rotate_by.splits)

lemma output_write_ok:
  assumes "env_ok env"
  shows "\<exists>sk' out. output_write env data sk stdout = Inr (None, sk', out)
    \<and> sink_bytes sk' out = sink_bytes sk stdout @ data
    \<and> (sk_output sk' = Stdout \<longleftrightarrow> sk_output sk = Stdout) \<and> (sk_output sk \<noteq> Stdout \<longrightarrow> out = stdout)"
proof (cases "sk_output sk")
  case (Rotating w)
  obtain fin w' where "write_message env data w = Inr ((None, fin), w')"
    "concat (map ck_encoder (all_chunks (sk_chunks sk @ fin) w'))
       = concat (map ck_encoder (all_chunks (sk_chunks sk) w)) @ data"
    using write_message_bytes [OF assms, of data w "sk_chunks sk"] by blast
  then show ?thesis using Rotating by (simp add: output_write_def sink_bytes_def)
qed (use assms in \<open>simp add: output_write_def sink_bytes_def env_ok_def\<close>)

text \<open>Standard output is not both outputs.\<close>

definition separate :: "'vm main_state \<Rightarrow> bool" where
  "separate s \<longleftrightarrow>
     (case ms_packet_output s of None \<Rightarrow> True | Some pk \<Rightarrow> \<not> (sk_output pk = Stdout \<and> sk_output (ms_output s) = Stdout))"

definition main_text :: "'vm main_state \<Rightarrow> bytes" where
  "main_text s = sink_bytes (ms_output s) (ms_stdout s)"

definition event_text :: "'vm main_state \<Rightarrow> bytes option" where
  "event_text s = map_option (\<lambda>pk. sink_bytes pk (ms_stdout s)) (ms_packet_output s)"

lemma sink_bytes_other: "sk_output sk \<noteq> Stdout \<Longrightarrow> sink_bytes sk out = sink_bytes sk out'"
  by (cases "sk_output sk") (simp_all add: sink_bytes_def)

text \<open>The text of a packet event, in the format that has one.\<close>

fun event_line :: "message_writer \<Rightarrow> packet_event \<Rightarrow> bytes" where
  "event_line (EkMessages w) evt = []"
| "event_line (NdjsonMessages nw) evt = str_bytes (fst (write_packet_event nw [] evt))"

lemma write_event_ok:
  assumes env: "env_ok env" and inv: "main_inv mw s" and sep: "separate s"
  shows "\<exists>s'. write_event mw env evt s = Inr (None, s') \<and> main_inv mw s' \<and> separate s'
    \<and> main_text s' = main_text s \<and> event_text s' = map_option (\<lambda>t. t @ event_line mw evt) (event_text s)
    \<and> ms_orc s' = ms_orc s \<and> ms_packet_index s' = ms_packet_index s \<and> ms_messages_written s' = ms_messages_written s
    \<and> ms_packet_events_written s' = ms_packet_events_written s + (if ms_packet_output s = None then 0 else 1)"
proof (cases "ms_packet_output s")
  case None
  then show ?thesis using inv sep by (simp add: write_event_def event_text_def)
next
  case (Some pk)
  then obtain nw where nw: "mw = NdjsonMessages nw" using inv by (auto simp: main_inv_def)
  obtain pk' out where w:
    "output_write env (str_bytes (fst (write_packet_event nw [] evt))) pk (ms_stdout s) = Inr (None, pk', out)"
    "sink_bytes pk' out = sink_bytes pk (ms_stdout s) @ str_bytes (fst (write_packet_event nw [] evt))"
    "sk_output pk' = Stdout \<longleftrightarrow> sk_output pk = Stdout" "sk_output pk \<noteq> Stdout \<longrightarrow> out = ms_stdout s"
    using output_write_ok [OF env] by blast
  have "sink_bytes (ms_output s) out = sink_bytes (ms_output s) (ms_stdout s)"
    using w(4) sep Some sink_bytes_other [of "ms_output s"] by (cases "sk_output pk = Stdout") (auto simp: separate_def)
  then show ?thesis
    using inv sep Some nw w
    by (simp add: write_event_def Let_def main_inv_def separate_def main_text_def event_text_def)
qed

lemma write_messages_ok:
  assumes "\<forall>i. env_ok (envs i)"
  shows "main_inv mw s \<Longrightarrow> separate s \<Longrightarrow> \<exists>s'. write_messages hx mw envs i msgs s = Inr (None, s')
    \<and> main_inv mw s' \<and> separate s'
    \<and> main_text s' = main_text s @ concat (map (\<lambda>m. str_bytes (mw_write_tls_record hx mw [] m)) msgs)
    \<and> event_text s' = event_text s \<and> ms_orc s' = ms_orc s \<and> ms_packet_index s' = ms_packet_index s
    \<and> ms_packet_output s' = ms_packet_output s
    \<and> ms_messages_written s' = ms_messages_written s + of_nat (length msgs)
    \<and> ms_packet_events_written s' = ms_packet_events_written s"
proof (induction msgs arbitrary: i s)
  case (Cons msg msgs)
  let ?data = "str_bytes (mw_write_tls_record hx mw [] msg)"
  obtain sk' out where w: "output_write (envs i) ?data (ms_output s) (ms_stdout s) = Inr (None, sk', out)"
    "sink_bytes sk' out = sink_bytes (ms_output s) (ms_stdout s) @ ?data"
    "sk_output sk' = Stdout \<longleftrightarrow> sk_output (ms_output s) = Stdout" "sk_output (ms_output s) \<noteq> Stdout \<longrightarrow> out = ms_stdout s"
    using output_write_ok [OF assms [THEN spec, of i]] by blast
  let ?s = "s\<lparr>ms_output := sk', ms_stdout := out, ms_messages_written := ms_messages_written s + 1\<rparr>"
  have "sink_bytes pk out = sink_bytes pk (ms_stdout s)" if "ms_packet_output s = Some pk" for pk
    using w(4) Cons.prems(2) that sink_bytes_other [of pk]
    by (cases "sk_output (ms_output s) = Stdout") (auto simp: separate_def)
  then have same: "event_text ?s = event_text s" by (cases "ms_packet_output s") (simp_all add: event_text_def)
  have "main_inv mw ?s" using Cons.prems(1) by (simp add: main_inv_def)
  moreover have "separate ?s" using Cons.prems(2) w(3) by (auto simp: separate_def split: option.splits)
  ultimately show ?case
    using Cons.IH [of ?s "Suc i"] w(1,2) same by (auto simp: Let_def main_text_def algebra_simps)
qed simp

subsection \<open>The messages of a capture\<close>

text \<open>The reference: the frames of a capture through the orchestrator alone, with what each gives.\<close>

function decode_all ::
  "('vm, 'r) libraries \<Rightarrow> (nat \<Rightarrow> iter_env) \<Rightarrow> pcap_source \<Rightarrow> nat \<Rightarrow> 'vm orchestrator
     \<Rightarrow> panic + ((packet_event \<times> decoded_message list) list \<times> 'vm orchestrator)"
where
  "decode_all libs envs src i orc =
     (case next_packet i src of
        (Some (Inr (raw, link_type)), src') \<Rightarrow>
          (case parse_tcp_frame (lib_etherparse libs) link_type (rp_data raw) of
             Inl _ \<Rightarrow> decode_all libs envs src' (i + 1) orc
           | Inr frame \<Rightarrow>
               (case process_frame (lib_world libs) frame (rp_index raw) (rp_data raw) (rp_timestamp raw)
                       (it_frame (envs i)) orc of
                  Inl p \<Rightarrow> Inl p
                | Inr (evt, msgs, orc') \<Rightarrow>
                    map_sum id (\<lambda>(ds, orc''). ((evt, msgs) # ds, orc'')) (decode_all libs envs src' (i + 1) orc')))
      | _ \<Rightarrow> Inr ([], orc))"
  by pat_completeness auto
termination
  by (relation "measure (\<lambda>(libs, envs, src, i, orc). source_left src)")
    (auto dest: next_packet_shorter [OF sym])

declare decode_all.simps [simp del]

definition iter_ok :: "iter_env \<Rightarrow> bool" where
  "iter_ok env \<longleftrightarrow> env_ok (it_event_write env) \<and> (\<forall>i. env_ok (it_message_write env i))"

definition frame_text :: "hex_encoder \<Rightarrow> message_writer \<Rightarrow> packet_event \<times> decoded_message list \<Rightarrow> bytes" where
  "frame_text hx mw d = concat (map (\<lambda>m. str_bytes (mw_write_tls_record hx mw [] m)) (snd d))"

lemma frame_texts_messages:
  "concat (map (frame_text hx mw) ds) = concat (map (\<lambda>m. str_bytes (mw_write_tls_record hx mw [] m)) (concat (map snd ds)))"
  by (induction ds) (simp_all add: frame_text_def)

text \<open>What the loop has written after the frames \<open>ds\<close>, in terms of what it had written before.\<close>

definition written :: "hex_encoder \<Rightarrow> message_writer \<Rightarrow> (packet_event \<times> decoded_message list) list
    \<Rightarrow> 'vm main_state \<Rightarrow> 'vm main_state \<Rightarrow> bool" where
  "written hx mw ds s s' \<longleftrightarrow>
     main_text s' = main_text s @ concat (map (frame_text hx mw) ds)
     \<and> event_text s' = map_option (\<lambda>t. t @ concat (map (\<lambda>d. event_line mw (fst d)) ds)) (event_text s)
     \<and> ms_messages_written s' = ms_messages_written s + of_nat (length (concat (map snd ds)))
     \<and> ms_packet_events_written s' = ms_packet_events_written s
          + (if ms_packet_output s = None then 0 else of_nat (length ds))"

lemma event_text_None: "event_text s = None \<longleftrightarrow> ms_packet_output s = None"
  by (simp add: event_text_def)

lemma written_Nil: "written hx mw [] s s"
  by (simp add: written_def option.map_ident)

lemma written_Cons:
  assumes "written hx mw [d] s s1" and "written hx mw ds s1 s2"
  shows "written hx mw (d # ds) s s2"
proof -
  have "ms_packet_output s1 = None \<longleftrightarrow> ms_packet_output s = None"
    using assms(1) by (simp add: written_def flip: event_text_None)
  then show ?thesis
    using assms unfolding written_def by (cases "event_text s") (auto simp: algebra_simps)
qed

lemma maybe_log_stats_simps [simp]:
  "main_text (maybe_log_stats host iv env s) = main_text s"
  "event_text (maybe_log_stats host iv env s) = event_text s"
  "separate (maybe_log_stats host iv env s) = separate s"
  "ms_orc (maybe_log_stats host iv env s) = ms_orc s"
  "ms_packet_index (maybe_log_stats host iv env s) = ms_packet_index s"
  "ms_messages_written (maybe_log_stats host iv env s) = ms_messages_written s"
  "ms_packet_events_written (maybe_log_stats host iv env s) = ms_packet_events_written s"
  by (simp_all add: maybe_log_stats_def main_text_def event_text_def separate_def split: option.splits)

lemma main_state_simps [simp]:
  "separate (s\<lparr>ms_packet_index := i\<rparr>) = separate s" "separate (s\<lparr>ms_orc := orc\<rparr>) = separate s"
  "main_text (s\<lparr>ms_packet_index := i\<rparr>) = main_text s" "main_text (s\<lparr>ms_orc := orc\<rparr>) = main_text s"
  "event_text (s\<lparr>ms_packet_index := i\<rparr>) = event_text s" "event_text (s\<lparr>ms_orc := orc\<rparr>) = event_text s"
  by (simp_all add: separate_def main_text_def event_text_def split: option.splits)

lemma main_step_ok:
  assumes env: "iter_ok env" and inv: "main_inv mw s" and sep: "separate s"
    and f: "parse_tcp_frame (lib_etherparse libs) link (rp_data raw) = Inr frame"
      "process_frame (lib_world libs) frame (rp_index raw) (rp_data raw) (rp_timestamp raw) (it_frame env) (ms_orc s)
         = Inr (evt, msgs, orc')" "orch_inv orc'"
  shows "\<exists>s'. main_step libs mw iv env raw link s = Inr (None, s') \<and> main_inv mw s' \<and> separate s'
    \<and> ms_orc s' = orc' \<and> ms_packet_index s' = ms_packet_index s + 1 \<and> written (lib_hex libs) mw [(evt, msgs)] s s'"
proof -
  let ?s = "s\<lparr>ms_packet_index := ms_packet_index s + 1, ms_orc := orc'\<rparr>"
  have 1: "main_inv mw ?s" "separate ?s" "main_text ?s = main_text s" "event_text ?s = event_text s"
    using inv sep f(3) by (simp_all add: main_inv_def)
  have e: "env_ok (it_event_write env)" "\<forall>i. env_ok (it_message_write env i)" using env by (auto simp: iter_ok_def)
  obtain s1 where s1: "write_event mw (it_event_write env) evt ?s = Inr (None, s1)" "main_inv mw s1" "separate s1"
    "main_text s1 = main_text s" "event_text s1 = map_option (\<lambda>t. t @ event_line mw evt) (event_text s)"
    "ms_orc s1 = orc'" "ms_packet_index s1 = ms_packet_index s + 1" "ms_messages_written s1 = ms_messages_written s"
    "ms_packet_events_written s1 = ms_packet_events_written s + (if ms_packet_output s = None then 0 else 1)"
    using write_event_ok [OF e(1) 1(1,2), of evt] 1(3,4) by auto
  obtain s2 where s2: "write_messages (lib_hex libs) mw (it_message_write env) 0 msgs s1 = Inr (None, s2)"
    "main_inv mw s2" "separate s2"
    "main_text s2 = main_text s1 @ concat (map (\<lambda>m. str_bytes (mw_write_tls_record (lib_hex libs) mw [] m)) msgs)"
    "event_text s2 = event_text s1" "ms_orc s2 = ms_orc s1" "ms_packet_index s2 = ms_packet_index s1"
    "ms_messages_written s2 = ms_messages_written s1 + of_nat (length msgs)"
    "ms_packet_events_written s2 = ms_packet_events_written s1"
    using write_messages_ok [OF e(2) s1(2,3), of "lib_hex libs" 0 msgs] by blast
  have "main_step libs mw iv env raw link s
      = Inr (None, maybe_log_stats (w_host (lib_world libs)) iv env s2)"
    using f(1,2) s1(1) s2(1) by (simp add: main_step_def Let_def and_then_def)
  then show ?thesis using s1 s2 by (simp add: written_def frame_text_def)
qed

lemma main_loop_ok:
  assumes "\<forall>i. iter_ok (envs i)"
  shows "payload_sub_slice (lib_etherparse libs) \<Longrightarrow> main_inv mw s \<Longrightarrow> separate s \<Longrightarrow>
    decode_all libs envs src (ms_packet_index s) (ms_orc s) = Inr (ds, orc') \<Longrightarrow>
    \<exists>s'. main_loop libs mw iv envs src s = Inr (None, s') \<and> ms_orc s' = orc' \<and> written (lib_hex libs) mw ds s s'"
proof (induction "source_left src" arbitrary: src s ds orc' rule: less_induct)
  case less
  let ?i = "ms_packet_index s"
  obtain res src' where np: "next_packet ?i src = (res, src')" by (metis prod.collapse)
  show ?case
  proof (cases "\<exists>raw link. res = Some (Inr (raw, link))")
    case True
    then obtain raw link where res: "res = Some (Inr (raw, link))" by blast
    have lt: "source_left src' < source_left src" using next_packet_shorter np res by blast
    have env: "iter_ok (envs ?i)" using assms by blast
    show ?thesis
    proof (cases "parse_tcp_frame (lib_etherparse libs) link (rp_data raw)")
      case (Inl x)
      let ?s = "s\<lparr>ms_packet_index := ?i + 1\<rparr>"
      have s: "main_inv mw ?s" "separate ?s" "main_text ?s = main_text s" "event_text ?s = event_text s"
        using less.prems by (simp_all add: main_inv_def)
      have "decode_all libs envs src' (ms_packet_index ?s) (ms_orc ?s) = Inr (ds, orc')"
        using less.prems(4) np res Inl by (subst (asm) decode_all.simps) simp
      from less.hyps [OF lt less.prems(1) s(1,2) this]
      obtain s' where "main_loop libs mw iv envs src' ?s = Inr (None, s')" "ms_orc s' = orc'"
        "written (lib_hex libs) mw ds ?s s'" by blast
      then show ?thesis
        using np res Inl s(3,4) by (subst main_loop.simps) (simp add: main_step_def Let_def written_def)
    next
      case (Inr frame)
      have oi: "orch_inv (ms_orc s)" using less.prems(2) by (simp add: main_inv_def)
      obtain evt msgs orc1 ds1 where f: "process_frame (lib_world libs) frame (rp_index raw) (rp_data raw)
          (rp_timestamp raw) (it_frame (envs ?i)) (ms_orc s) = Inr (evt, msgs, orc1)"
        and d: "decode_all libs envs src' (?i + 1) orc1 = Inr (ds1, orc')" and ds: "ds = (evt, msgs) # ds1"
        using less.prems(4) np res Inr
        by (subst (asm) decode_all.simps) (auto simp: map_sum_def split: sum.splits prod.splits)
      have "orch_inv orc1" using process_frame_inv [OF oi f] by blast
      from main_step_ok [OF env less.prems(2,3) Inr f this, of iv]
      obtain s1 where s1: "main_step libs mw iv (envs ?i) raw link s = Inr (None, s1)" "main_inv mw s1" "separate s1"
        "ms_orc s1 = orc1" "ms_packet_index s1 = ?i + 1" "written (lib_hex libs) mw [(evt, msgs)] s s1" by blast
      from less.hyps [OF lt less.prems(1) s1(2,3)] d s1(4,5)
      obtain s' where "main_loop libs mw iv envs src' s1 = Inr (None, s')" "ms_orc s' = orc'"
        "written (lib_hex libs) mw ds1 s1 s'" by force
      then show ?thesis using np res s1(1) ds written_Cons [OF s1(6)] by (subst main_loop.simps) simp
    qed
  next
    case False
    have "ds = []" "orc' = ms_orc s"
      using less.prems(4) np False by (subst (asm) decode_all.simps, auto split: option.splits sum.splits)+
    then show ?thesis
      using np False written_Nil [of "lib_hex libs" mw s]
      by (subst main_loop.simps) (auto split: option.splits sum.splits)
  qed
qed

lemma new_sink_bytes: "sink_bytes \<lparr>sk_output = output_new prefix rb level, sk_chunks = []\<rparr> [] = []"
  by (simp add: sink_bytes_def output_new_def all_chunks_def with_compression_def)

lemma start_state_text:
  "main_text (start_state c env kl lua rb) = []"
  "event_text (start_state c env kl lua rb) = map_option (\<lambda>_. []) (cli_packet_log c)"
  by (simp_all add: main_text_def event_text_def start_state_def Let_def new_sink_bytes option.map_comp comp_def)

text \<open>
  Each output of the model has storage of its own. The program's have, when not both are standard output and the
  prefixes have different file names: then no chunk of one is named like a chunk of the other, whatever the
  directories. With one prefix for both the chunks of one overwrite those of the other.
\<close>

definition outputs_apart :: "cli \<Rightarrow> bool" where
  "outputs_apart c \<longleftrightarrow>
     (case cli_packet_log c of
        None \<Rightarrow> True
      | Some packets \<Rightarrow>
          if cli_output c = ''-'' then packets \<noteq> ''-''
          else packets = ''-'' \<or> prefix_name (path_parts_of packets) \<noteq> prefix_name (path_parts_of (cli_output c)))"

lemma start_state_separate:
  "outputs_apart c \<Longrightarrow> separate (start_state c env kl lua rb)"
  by (auto simp: separate_def start_state_def Let_def output_new_def outputs_apart_def split: option.splits if_splits)

lemma start_state_simps [simp]:
  "ms_packet_index (start_state c env kl lua rb) = 0" "ms_messages_written (start_state c env kl lua rb) = 0"
  "ms_packet_events_written (start_state c env kl lua rb) = 0"
  "ms_packet_output (start_state c env kl lua rb) = None \<longleftrightarrow> cli_packet_log c = None"
  "ms_orc (start_state c env kl lua rb) = orchestrator_new kl lua (config_of_cli c) (rn_sweep_now env) (rn_gc_now env)"
  by (simp_all add: start_state_def Let_def)

lemma main_loop_from_start:
  assumes "payload_sub_slice (lib_etherparse libs)" and "validate_cli c = None"
    and "\<forall>i. iter_ok (rn_iters env i)" and "outputs_apart c"
    and "decode_all libs (rn_iters env) src 0
           (orchestrator_new kl lua (config_of_cli c) (rn_sweep_now env) (rn_gc_now env)) = Inr (ds, orc')"
  shows "\<exists>s'. main_loop libs (writer_of_cli c) iv (rn_iters env) src (start_state c env kl lua rb) = Inr (None, s')
    \<and> ms_orc s' = orc' \<and> written (lib_hex libs) (writer_of_cli c) ds (start_state c env kl lua rb) s'"
  using assms by (intro main_loop_ok [OF assms(3,1) start_state_inv [OF assms(2)] start_state_separate]) auto

subsection \<open>Lines of JSON\<close>

definition json_lines :: "json list \<Rightarrow> string" where
  "json_lines js = concat (map (\<lambda>j. json_text j @ [LF]) js)"

lemma json_lines_parse: "map parse_json (str_lines (json_lines js)) = map Some js"
  unfolding json_lines_def str_lines_jsons by (simp add: parse_json_text)

lemma json_lines_concat: "json_lines (concat jss) = concat (map json_lines jss)"
  by (induction jss) (simp_all add: json_lines_def)

lemma str_bytes_concat: "str_bytes (concat ss) = concat (map str_bytes ss)"
  by (induction ss) (simp_all add: str_bytes_def)

definition frame_json :: "hex_encoder \<Rightarrow> ndjson_writer \<Rightarrow> packet_event \<times> decoded_message list \<Rightarrow> json list" where
  "frame_json hx nw d = concat (map (\<lambda>m. map (tls_record_json hx nw m) (explosions nw m)) (snd d))"

lemma frame_text_json: "frame_text hx (NdjsonMessages nw) d = str_bytes (json_lines (frame_json hx nw d))"
proof -
  have "fst (write_tls_record hx nw [] m) = json_lines (map (tls_record_json hx nw m) (explosions nw m))" for m
    by (simp add: write_tls_record_json counted_write_def json_lines_def)
  then show ?thesis
    by (simp add: frame_text_def frame_json_def json_lines_concat str_bytes_concat comp_def)
qed

lemma event_line_json: "event_line (NdjsonMessages nw) evt = str_bytes (json_lines [packet_json nw evt])"
  by (simp add: write_packet_event_json counted_write_def json_lines_def)

subsection \<open>Properties\<close>

text \<open>
  C8 (panics of the program). For every command line, clock, file system, plugin, capture and outcome of the writes, provided a TCP
  payload found by the packet parser lies in the bytes it was given, the program ends with an exit status, 2 exactly for an
  invalid command line; or a plugin panicked by reading a byte range outside its buffer where nothing catches the panic,
  which plugins that only cut ranges with offsets and lengths that are not negative never do. In particular the
  arms marked unreachable are not reached.
\<close>

theorem main_panics_by_script_only:
  assumes "payload_sub_slice (lib_etherparse libs)"
  shows "case main_fn libs c env rd input of
      Inl p \<Rightarrow> p = SliceOutOfRange \<and> script_panics (w_host (lib_world libs)) p \<and> \<not> careful (w_host (lib_world libs))
    | Inr (status, s) \<Rightarrow> status \<le> 2 \<and> (status = 2 \<longleftrightarrow> validate_cli c \<noteq> None)"
proof (cases "validate_cli c")
  case None
  have "p = SliceOutOfRange \<and> script_panics (w_host (lib_world libs)) p \<and> \<not> careful (w_host (lib_world libs))"
    if "run libs c env rd input = Inl p" for p
    using run_panic [OF assms None that] script_panic careful_calm by (auto simp: calm_def)
  then show ?thesis using None by (auto simp: main_fn_def split: sum.splits option.splits prod.splits)
qed (simp add: main_fn_def)

text \<open>
  C10 (the output is the decoded messages). When no write fails, no plugin panics and the outputs are apart (not both standard
  output and, as files, with prefixes of different names), a run from a valid command line writes, in the order of the packets, exactly the text of each message the orchestrator decodes, whatever
  the rotation; the packet log gets one line per TCP frame; the counters are the numbers of messages and of frames.
\<close>

theorem output_is_decoded_messages:
  assumes "payload_sub_slice (lib_etherparse libs)" and "validate_cli c = None"
    and "\<forall>i. iter_ok (rn_iters env i)" and "outputs_apart c"
    and "decode_all libs (rn_iters env) src 0
           (orchestrator_new kl lua (config_of_cli c) (rn_sweep_now env) (rn_gc_now env)) = Inr (ds, orc')"
  shows "\<exists>s'. main_loop libs (writer_of_cli c) iv (rn_iters env) src (start_state c env kl lua rb) = Inr (None, s')
    \<and> ms_orc s' = orc'
    \<and> main_text s' = concat (map (\<lambda>m. str_bytes (mw_write_tls_record (lib_hex libs) (writer_of_cli c) [] m))
                              (concat (map snd ds)))
    \<and> event_text s' = map_option (\<lambda>_. concat (map (\<lambda>d. event_line (writer_of_cli c) (fst d)) ds)) (cli_packet_log c)
    \<and> ms_messages_written s' = of_nat (length (concat (map snd ds)))
    \<and> ms_packet_events_written s' = (if cli_packet_log c = None then 0 else of_nat (length ds))"
proof -
  obtain s' where s': "main_loop libs (writer_of_cli c) iv (rn_iters env) src (start_state c env kl lua rb) = Inr (None, s')"
    "ms_orc s' = orc'" "written (lib_hex libs) (writer_of_cli c) ds (start_state c env kl lua rb) s'"
    using main_loop_from_start [OF assms, of iv rb] by blast
  then show ?thesis
    by (intro exI [of _ s']) (auto simp: frame_texts_messages written_def start_state_text option.map_comp comp_def)
qed

text \<open>
  C9 (the NDJSON output parses). With \<open>-T ndjson\<close>, when no write fails, no plugin panics and the outputs are apart (not both
  standard output and, as files, with prefixes of different names), the whole main output is lines that a strict JSON parser
  reads as the objects meant: one per message, or one per exploded occurrence, in the order of the packets; and so is the
  packet log, with one object per TCP frame.
\<close>

theorem ndjson_output_parses:
  assumes "payload_sub_slice (lib_etherparse libs)" and "validate_cli c = None" and "cli_format c = ''ndjson''"
    and "\<forall>i. iter_ok (rn_iters env i)" and "outputs_apart c"
    and "decode_all libs (rn_iters env) src 0
           (orchestrator_new kl lua (config_of_cli c) (rn_sweep_now env) (rn_gc_now env)) = Inr (ds, orc')"
    and "nw = ndjson_new (cli_fields c) (cli_ndjson_explode c) (cli_ndjson_map c)"
  shows "\<exists>s' txt events. main_loop libs (writer_of_cli c) iv (rn_iters env) src (start_state c env kl lua rb) = Inr (None, s')
    \<and> main_text s' = str_bytes txt
    \<and> map parse_json (str_lines txt) =
        concat (map (\<lambda>m. map (\<lambda>x. Some (tls_record_json (lib_hex libs) nw m x)) (explosions nw m)) (concat (map snd ds)))
    \<and> event_text s' = map_option (\<lambda>_. str_bytes events) (cli_packet_log c)
    \<and> map parse_json (str_lines events) = map (\<lambda>d. Some (packet_json nw (fst d))) ds"
proof -
  have w: "writer_of_cli c = NdjsonMessages nw" using assms(3,7) by (simp add: writer_of_cli_def)
  obtain s' where s': "main_loop libs (writer_of_cli c) iv (rn_iters env) src (start_state c env kl lua rb) = Inr (None, s')"
    "written (lib_hex libs) (NdjsonMessages nw) ds (start_state c env kl lua rb) s'"
    using main_loop_from_start [OF assms(1,2,4-6), of iv rb] w by auto
  have frame_texts: "frame_text (lib_hex libs) (NdjsonMessages nw) = (\<lambda>d. str_bytes (json_lines (frame_json (lib_hex libs) nw d)))"
    by (rule ext) (rule frame_text_json)
  let ?js = "concat (map (frame_json (lib_hex libs) nw) ds)" and ?es = "map (\<lambda>d. packet_json nw (fst d)) ds"
  have "concat (map (frame_text (lib_hex libs) (NdjsonMessages nw)) ds) = str_bytes (json_lines ?js)"
    unfolding frame_texts by (simp add: json_lines_concat str_bytes_concat comp_def)
  moreover have "concat (map (\<lambda>d. event_line (NdjsonMessages nw) (fst d)) ds) = str_bytes (json_lines ?es)"
    by (simp add: event_line_json json_lines_def str_bytes_concat comp_def del: event_line.simps)
  moreover have "map Some ?js =
      concat (map (\<lambda>m. map (\<lambda>x. Some (tls_record_json (lib_hex libs) nw m x)) (explosions nw m)) (concat (map snd ds)))"
    by (induction ds) (simp_all add: frame_json_def map_concat comp_def)
  ultimately show ?thesis
    using s' by (intro exI [of _ s'] exI [of _ "json_lines ?js"] exI [of _ "json_lines ?es"])
      (auto simp: written_def start_state_text option.map_comp comp_def json_lines_parse simp del: event_line.simps)
qed

subsection \<open>Witnesses\<close>

text \<open>A capture of two segments of one connection, a client hello and a record of application data, each behind its sequence number.\<close>

definition seq_tcp :: "bytes \<Rightarrow> sliced_packet option" where
  "seq_tcp data =
     (case data of
        [] \<Rightarrow> None
      | b # rest \<Rightarrow> Some \<lparr>sl_net = Some (NetIpv4 1 2),
                 sl_transport = Some (TransportTcp
                   \<lparr>ts_source_port = 5000, ts_destination_port = 443, ts_sequence_number = ucast b,
                    ts_acknowledgment_number = 0,
                    ts_flags = \<lparr>fl_syn = False, fl_fin = False, fl_rst = False, fl_ack = True, fl_psh = False\<rparr>,
                    ts_payload_offset = 1, ts_payload_len = length rest\<rparr>)\<rparr>)"

definition demo_capture :: pcap_source where
  "demo_capture = SourcePcap [Inr (100 # demo_hello, 7), Inr ([], 7), Inr (143 # demo_appdata, 7)] RAW"

definition demo_libs :: "(unit, unit) libraries" where
  "demo_libs = \<lparr>lib_world = demo_world, lib_hex = lower_hex,
     lib_etherparse = \<lparr>from_ethernet = (\<lambda>_. None), from_ip = seq_tcp\<rparr>,
     lib_pcap = \<lparr>pcap_new = (\<lambda>_ _. Inr (RAW, [])), pcapng_new = (\<lambda>_ _. Inl ''bad'')\<rparr>\<rparr>"

definition demo_cli :: cli where
  "demo_cli = \<lparr>cli_keylog = None, cli_keylog_reload_interval = 5, cli_plugin_dirs = [], cli_lua_scripts = [],
     cli_fields = [''ip.src'', ''tls.app_data''], cli_format = ''ndjson'', cli_ek_index_prefix = ''packets'',
     cli_output = ''-'', cli_packet_log = Some ''packets'', cli_ndjson_explode = None, cli_ndjson_map = [],
     cli_rotate_count = Some 2, cli_rotate_seconds = None, cli_compress = Some ''gzip'', cli_compress_level = 6,
     cli_idle_timeout_seconds = 0, cli_max_pending_bytes = 4, cli_max_pending_packets = 2,
     cli_max_pending_age_seconds = 0, cli_max_tail_bytes = 8, cli_stats_interval_seconds = 0,
     cli_lua_gc_interval_seconds = 0\<rparr>"

definition demo_write_env :: rotate_env where
  "demo_write_env = \<lparr>re_elapsed = 0, re_finish = None, re_create = None, re_stamp = ''t'', re_opened = 0, re_write = None\<rparr>"

definition demo_run_env :: "unit run_env" where
  "demo_run_env = \<lparr>rn_keylog = demo_kl_env, rn_keylog_now = 0, rn_lua_new = Inr (), rn_plugins = demo_plugin_fs,
     rn_sweep_now = 0, rn_gc_now = 0, rn_stats_start = 0,
     rn_iters = (\<lambda>_. \<lparr>it_frame = demo_env, it_event_write = demo_write_env, it_message_write = (\<lambda>_. demo_write_env),
                     it_stats_elapsed = 0, it_stats_now = 0, it_status = None\<rparr>),
     rn_finish = demo_write_env, rn_packet_finish = demo_write_env\<rparr>"

lemma demo_libs_ok: "payload_sub_slice (lib_etherparse demo_libs)"
  by (auto simp: payload_sub_slice_def demo_libs_def seq_tcp_def sliced_ok_def split: list.splits)

lemma demo_cli_ok: "validate_cli demo_cli = None" "\<forall>i. iter_ok (rn_iters demo_run_env i)"
  "outputs_apart demo_cli" "cli_format demo_cli = ''ndjson''"
  by (simp_all add: validate_cli_def demo_cli_def iter_ok_def demo_run_env_def demo_write_env_def env_ok_def outputs_apart_def)

text \<open>The configuration of this command line; the sweep interval does not matter while there is no idle timeout.\<close>

definition demo_config_with :: "duration \<Rightarrow> orchestrator_config" where
  "demo_config_with sweep = \<lparr>idle_timeout = None, sweep_interval = sweep, max_pending_bytes = 4, max_pending_packets = 2,
     max_pending_age = 0, max_tail_bytes = 8, lua_gc_interval = 0\<rparr>"

lemma demo_config_of_cli: "config_of_cli demo_cli = demo_config_with (secs 60)"
  by (simp add: config_of_cli_def demo_cli_def demo_config_with_def secs_def)

lemma demo_decoded_messages:
  "map_sum id (\<lambda>r. map (\<lambda>d. map dm_tls_app_data (snd d)) (fst r)) (decode_all demo_libs (rn_iters demo_run_env) demo_capture 0
     (orchestrator_new demo_source demo_engine (demo_config_with sweep) 0 0)) = Inr [[], [[104, 105]]]"
  by code_simp

lemma demo_decode:
  "\<exists>ds orc'. decode_all demo_libs (rn_iters demo_run_env) demo_capture 0
     (orchestrator_new demo_source demo_engine (config_of_cli demo_cli) (rn_sweep_now demo_run_env) (rn_gc_now demo_run_env)) = Inr (ds, orc')
     \<and> length ds = 2 \<and> (\<exists>m. concat (map snd ds) = [m] \<and> dm_tls_app_data m = [104, 105])"
proof -
  obtain ds orc' where d: "decode_all demo_libs (rn_iters demo_run_env) demo_capture 0
     (orchestrator_new demo_source demo_engine (config_of_cli demo_cli) 0 0) = Inr (ds, orc')"
     and m: "map (\<lambda>d. map dm_tls_app_data (snd d)) ds = [[], [[104, 105]]]"
    using demo_decoded_messages [of "secs 60"] by (auto simp: demo_config_of_cli map_sum_def split: sum.splits)
  then have "length (map (\<lambda>d. map dm_tls_app_data (snd d)) ds) = 2" by simp
  then have "length ds = 2" by (simp only: length_map)
  moreover have "\<exists>m. concat (map snd ds) = [m] \<and> dm_tls_app_data m = [104, 105]" using m by (auto simp: map_eq_Cons_conv)
  ultimately show ?thesis using d by (simp add: demo_run_env_def)
qed

text \<open>A run of the program on this capture.\<close>

definition demo_main_libs :: "(unit, unit) libraries" where
  "demo_main_libs = demo_libs\<lparr>lib_pcap :=
     \<lparr>pcap_new = (\<lambda>_ _. Inr (RAW, [Inr (100 # demo_hello, 7), Inr ([], 7), Inr (143 # demo_appdata, 7)])),
      pcapng_new = (\<lambda>_ _. Inl ''bad'')\<rparr>\<rparr>"

definition demo_read :: "unit read_fn" where
  "demo_read r n = (Inr [0xa1, 0xb2, 0xc3, 0xd4], r)"

definition no_keylog :: "duration \<Rightarrow> keylog_source" where
  "no_keylog interval = \<lparr>ks_path = None, reload_interval = interval, last_reload_attempt = 0, last_seen_mtime = None,
     last_seen_len = None, ks_current = keylog_parse hex_decode_lower []\<rparr>"

lemma demo_run_decodes:
  "map_sum id (\<lambda>r. (length (fst r), concat (map snd (fst r)), tls_records_nokey (snd r)))
     (decode_all demo_main_libs (rn_iters demo_run_env) demo_capture 0
       (orchestrator_new (no_keylog interval) (new_engine ()) (demo_config_with sweep) 0 0))
     = Inr (2, [], 1)"
  by code_simp

lemma demo_main_starts:
  "open_keylog (w_hex (lib_world demo_main_libs)) demo_cli demo_run_env = Inr (no_keylog duration_MAX)"
  "load_plugins (w_host (lib_world demo_main_libs)) demo_cli demo_run_env = Inr (0, new_engine ())"
  "rotate_by_of (cli_rotate_count demo_cli) (cli_rotate_seconds demo_cli) = Inr (Count 2)"
  "open_capture (lib_pcap demo_main_libs) demo_read () = Inr demo_capture"
proof -
  show "open_capture (lib_pcap demo_main_libs) demo_read () = Inr demo_capture"
    unfolding demo_main_libs_def demo_capture_def demo_read_def by (simp add: open_capture_def read_magic.simps detect_format_def)
qed (simp_all add: open_keylog_def load_plugins_def demo_cli_def demo_run_env_def demo_main_libs_def demo_libs_def
    demo_world_def load_scripts_def from_parsed_def no_keylog_def)

theorem main_panics_by_script_only_witness:
  "\<exists>status s. main_fn demo_main_libs demo_cli demo_run_env demo_read () = Inr (status, Some s) \<and> status < 2
     \<and> ms_packet_events_written s = 2 \<and> tls_records_nokey (ms_orc s) = 1"
proof -
  have ok: "payload_sub_slice (lib_etherparse demo_main_libs)" using demo_libs_ok by (simp add: demo_main_libs_def)
  let ?kl = "no_keylog duration_MAX"
  let ?start = "start_state demo_cli demo_run_env ?kl (new_engine ()) (Count 2)"
  obtain ds orc' where d: "decode_all demo_main_libs (rn_iters demo_run_env) demo_capture 0
      (orchestrator_new ?kl (new_engine ()) (config_of_cli demo_cli) (rn_sweep_now demo_run_env) (rn_gc_now demo_run_env))
        = Inr (ds, orc')" "length ds = 2" "tls_records_nokey orc' = 1"
    using demo_run_decodes [of duration_MAX "secs 60"] unfolding demo_config_of_cli
    by (auto simp: map_sum_def demo_run_env_def split: sum.splits)
  from main_loop_from_start [OF ok demo_cli_ok(1-3) d(1), of "stats_interval_of demo_cli" "Count 2"]
  obtain s' where s': "main_loop demo_main_libs (writer_of_cli demo_cli) (stats_interval_of demo_cli) (rn_iters demo_run_env)
      demo_capture ?start = Inr (None, s')" "ms_orc s' = orc'" "ms_packet_events_written s' = 2"
    using d(2) by (auto simp: written_def demo_cli_def)
  obtain e s'' where f: "finish_outputs demo_run_env s' = Inr (e, s'')" using finish_outputs_total by blast
  have keeps: "ms_packet_events_written s'' = 2" "ms_orc s'' = orc'"
    using f s'(2,3) by (auto simp: finish_outputs_def Let_def split: prod.splits option.splits if_splits)
  have "run demo_main_libs demo_cli demo_run_env demo_read () = Inr (Inr (e, drop_outputs demo_run_env s''))"
    using s'(1) f by (simp add: run_def demo_main_starts and_then_def)
  then have "\<exists>status. main_fn demo_main_libs demo_cli demo_run_env demo_read () = Inr (status, Some (drop_outputs demo_run_env s''))"
    using demo_cli_ok(1) by (cases e) (simp_all add: main_fn_def)
  then show ?thesis
    using main_panics_by_script_only [OF ok, of demo_cli demo_run_env demo_read "()"] keeps d(3) demo_cli_ok(1)
    by (auto simp: drop_outputs_def)
qed

theorem output_is_decoded_messages_witness:
  "\<exists>s'. main_loop demo_libs (writer_of_cli demo_cli) None (rn_iters demo_run_env) demo_capture
       (start_state demo_cli demo_run_env demo_source demo_engine (Count 2)) = Inr (None, s')
     \<and> ms_messages_written s' = 1 \<and> ms_packet_events_written s' = 2"
proof -
  obtain ds orc' m where d: "decode_all demo_libs (rn_iters demo_run_env) demo_capture 0
     (orchestrator_new demo_source demo_engine (config_of_cli demo_cli) (rn_sweep_now demo_run_env) (rn_gc_now demo_run_env)) = Inr (ds, orc')"
     "length ds = 2" "concat (map snd ds) = [m]" using demo_decode by blast
  from output_is_decoded_messages [OF demo_libs_ok demo_cli_ok(1-3) d(1), of None "Count 2"] d(2,3)
  show ?thesis by (auto simp: demo_cli_def)
qed

theorem ndjson_output_parses_witness:
  "\<exists>s' txt j. main_loop demo_libs (writer_of_cli demo_cli) None (rn_iters demo_run_env) demo_capture
       (start_state demo_cli demo_run_env demo_source demo_engine (Count 2)) = Inr (None, s')
     \<and> main_text s' = str_bytes txt \<and> map parse_json (str_lines txt) = [Some j]"
proof -
  obtain ds orc' m where d: "decode_all demo_libs (rn_iters demo_run_env) demo_capture 0
     (orchestrator_new demo_source demo_engine (config_of_cli demo_cli) (rn_sweep_now demo_run_env) (rn_gc_now demo_run_env)) = Inr (ds, orc')"
     "concat (map snd ds) = [m]" using demo_decode by blast
  have "explosions (ndjson_new (cli_fields demo_cli) (cli_ndjson_explode demo_cli) (cli_ndjson_map demo_cli)) m = [None]"
    by (simp add: explosions_def ndjson_new_def demo_cli_def split: prod.splits)
  with ndjson_output_parses [OF demo_libs_ok demo_cli_ok(1,4,2,3) d(1) refl, of None "Count 2"] d(2)
  obtain s' ls j where
    "main_loop demo_libs (writer_of_cli demo_cli) None (rn_iters demo_run_env) demo_capture
       (start_state demo_cli demo_run_env demo_source demo_engine (Count 2)) = Inr (None, s')"
    "main_text s' = str_bytes ls" "map parse_json (str_lines ls) = [Some j]"
    by auto
  then show ?thesis by (intro exI conjI)
qed

end
