(* ===== verification/Delivery_Main.thy ===== *)
theory Delivery_Main
  imports Delivery_Props Main_Correct
begin

text \<open>
  Delivery, from the packets of the input to the text of the output: the frames of a capture as the main loop finds them, the run of
  \<open>process_frame\<close> over them, and the program's output for a capture that has one client's stream among others.
\<close>

subsection \<open>The frames of a capture\<close>






subsection \<open>Property\<close>


subsection \<open>A concrete input\<close>

text \<open>
  The packets carry a kind, a sequence number and a payload. A kind of 1 is a SYN and a kind of 2 goes to another server. There is one
  packet to the other server, the client's SYN, one that is no TCP, and then the client's stream, tail first.
\<close>

definition flow_frame :: "u8 \<Rightarrow> u8 \<Rightarrow> bytes \<Rightarrow> tcp_frame" where
  "flow_frame kind q p =
     \<lparr>src_ip = V4 1, dst_ip = V4 (if kind = 2 then 3 else 2), src_port = 5000, dst_port = 443, tf_seq = ucast q, ack_number = 0,
      tf_flags = \<lparr>fl_syn = kind = 1, fl_fin = False, fl_rst = False, fl_ack = kind \<noteq> 1, fl_psh = False\<rparr>,
      payload_range = (2, 2 + length p)\<rparr>"




definition flow_packet :: "nat \<Rightarrow> u8 \<Rightarrow> u8 \<Rightarrow> bytes \<Rightarrow> capture_frame" where
  "flow_packet i kind q p =
     \<lparr>cf_frame = flow_frame kind q p, cf_index = i, cf_data = kind # q # p, cf_timestamp = 7, cf_env = Orchestrator_Props.demo_env\<rparr>"







lemma flow_packet_sel [simp]:
  "cf_frame (flow_packet i kind q p) = flow_frame kind q p" "cf_env (flow_packet i kind q p) = Orchestrator_Props.demo_env"
  "index_range (payload_range (flow_frame kind q p)) (cf_data (flow_packet i kind q p)) = Inr p"
  "sub_range (payload_range (flow_frame kind q p)) (cf_data (flow_packet i kind q p)) = p"
  by (simp_all add: flow_packet_def flow_frame_def index_range_def sub_range_def)






end
