(* ===== verification/Spec2Isabelle.thy ===== *)
theory Spec2Isabelle
  imports Reassembly_Reach Keylog_Source Connection_Correct Ek_Correct Delivery_Main
begin

text \<open>
  tlscap reads a packet capture on standard input, reassembles its TCP streams, decrypts their TLS records with the
  secrets of a key log file that grows while it runs, hands the plaintext to Lua dissectors, and writes one line per
  decoded message. This library models the program as it is written under \<open>src/\<close> and proves what makes it correct. Every
  Rust function with behaviour of its own is a definition of the same name, and a comment beside it says where
  they differ.

  \<^bold>\<open>The parts and how they interact.\<close> \<open>main.rs\<close> checks the command line, opens the key log and the plugins and loops
  over the packets of \<open>pcap_input.rs\<close>. Each TCP frame goes to \<open>Orchestrator::process_frame\<close>, which finds its connection, feeds
  the payload to the reassembler of its direction, takes complete TLS records off the reassembled bytes, decrypts them with
  the connection's state and the key log, and calls the dissector registered for the port. The messages go to one of
  two writers of \<open>ek_output.rs\<close>, and their text to standard output or to the rotating files of \<open>rotation.rs\<close>.

  \<^bold>\<open>Theories and sources.\<close>
  \<^item> \<open>Prelude\<close>, \<open>Strings\<close>, \<open>Utf8\<close>, \<open>Ordered_Map\<close>: machine types, panics, slices, the string functions of the standard library,
    lossy decoding, and \<open>BTreeMap\<close> behind the locale \<open>ordered_map\<close>.
  \<^item> \<open>Reassembly\<close>, \<open>Reassembly_Correct\<close>, \<open>Reassembly_Reach\<close>: \<open>reassembly.rs\<close>. The state is the record \<open>stream_reassembler\<close>.
  \<^item> \<open>Keylog\<close>, \<open>Keylog_Source\<close>: \<open>keylog.rs\<close>, \<open>keylog_source.rs\<close>.
  \<^item> \<open>Tls13\<close>, \<open>Tls12\<close>, \<open>Connection\<close>, \<open>Connection_Correct\<close>: \<open>tls13.rs\<close>, \<open>tls12.rs\<close>, \<open>connection.rs\<close>.
  \<^item> \<open>Framing\<close>: the record framing at the top of \<open>drain_records\<close>, over the locale \<open>byte_stream\<close> that the reassembler meets.
  \<^item> \<open>Lua_Fields\<close>, \<open>Lua_Tree\<close>, \<open>Lua_Tree_Correct\<close>, \<open>Lua_Engine\<close>, \<open>Plugin_Loader\<close>: \<open>lua/tree.rs\<close>, \<open>lua/tvb.rs\<close>, \<open>lua/pinfo.rs\<close>,
    \<open>lua/mod.rs\<close>, \<open>lua/dissector_table.rs\<close>, \<open>plugin_loader.rs\<close>.
  \<^item> \<open>Pcap_Input\<close>: \<open>pcap_input.rs\<close>.
  \<^item> \<open>Orchestrator\<close>, \<open>Orchestrator_Correct\<close>, \<open>Orchestrator_Invariant\<close>, \<open>Orchestrator_Props\<close>: \<open>orchestrator.rs\<close>. The state is the
    record \<open>orchestrator\<close>; its connections are an association list, since the order of a \<open>HashMap\<close> is never observed.
  \<^item> \<open>Delivery\<close>, \<open>Delivery_Correct\<close>, \<open>Delivery_Steps\<close>, \<open>Delivery_Run\<close>, \<open>Delivery_Demo\<close>, \<open>Delivery_Props\<close>,
    \<open>Delivery_Main\<close>: \<open>process_frame\<close> over whole captures, and the program on them. \<open>session\<close> is a sender of either TLS version, client or
    server, with its secrets, its byte stream and its records: hello, change of cipher spec, what it sends in the clear, and what it
    seals under its TLS 1.3 handshake and application keys or its TLS 1.2 keys. \<open>process_frames\<close> is a run.
  \<^item> \<open>Json\<close>, \<open>Calendar\<close>, \<open>Ek_Output\<close>, \<open>Ek_Correct\<close>: \<open>ek_output.rs\<close>, with JSON values and a strict parser as the reference.
  \<^item> \<open>Rotation\<close>, \<open>Memstats\<close>, \<open>Main_Loop\<close>, \<open>Main_Correct\<close>: \<open>rotation.rs\<close>, \<open>memstats.rs\<close>, \<open>main.rs\<close>.

  \<^bold>\<open>Conventions.\<close> A panic, a Rust error and an early return are values of sum types: \<open>panic + 'a\<close> where the code can panic, the
  code's own error type otherwise. Integers are words where the code relies on their width (sequence numbers, counters,
  Lua offsets); lengths and indices are \<open>nat\<close>. What the clock, the file system or a write answers during an operation is an
  argument of it (\<open>frame_env\<close>, \<open>keylog_env\<close>, \<open>rotate_env\<close>, \<open>plugin_fs\<close>, \<open>iter_env\<close>, \<open>run_env\<close>), so the theorems hold for every
  answer. A mutable structure shared through \<open>Rc<RefCell<_>>\<close> is an explicit store (\<open>Lua_Tree\<close>).

  \<^bold>\<open>Parameters.\<close> Code outside the repository is an argument: the cipher and key derivation functions (\<open>crypto\<close>), the hexadecimal
  codec, the packet parser (\<open>etherparse_lib\<close>) and the capture readers (\<open>pcap_lib\<close>), and the Lua machine (\<open>lua_host\<close>, which answers
  with the registrations and method calls a script makes, and which of them it makes under a \<open>pcall\<close>). The hypotheses used
  about them are that opening inverts sealing
  (\<open>aead_inverts\<close>), that the records of a session do not open under the other keys of its key log, and those in the clear under none (\<open>other_keys_fail\<close>), and that a
  TCP payload lies in the bytes parsed (\<open>payload_sub_slice\<close>); each has a concrete instance in the witnesses.

  \<^bold>\<open>Panics.\<close> A call of a script that reads a byte range outside its buffer panics, in a callback of the Lua machine, which
  carries the panic to the nearest \<open>pcall\<close> or resumes it out of \<open>dissect\<close>; \<open>tree_step\<close>, \<open>run_calls\<close> and \<open>dissect\<close> do the same, and
  from there it goes through \<open>process_frame\<close> to \<open>main_fn\<close>. Only negative offsets and lengths lead to such a range.
  \<open>careful\<close> says that scripts use none, \<open>calm\<close>, which follows, that they panic nowhere. The first is in the theorems
  about panics, the second a hypothesis of those that say the program comes to its end.

  \<^bold>\<open>What the lemmas show.\<close>
  \<^item> Reassembly: in every reachable state the counters, the order of the pending map and the limits hold; as long as no gap is
    given up, what is read is the sender's byte stream, for every arrival order and overlap; a gap given up is accounted for to
    the byte; every piece of provenance names the packet bytes it came from.
  \<^item> Key log: a lookup finds the last line for its key, printed logs parse back, and secrets survive reloads of a
    growing file.
  \<^item> TLS: records round-trip, nonces do not repeat, key blocks follow RFC 5246; the stateful decryption with its caches
    refines a stateless reference, and its counters move exactly with successes.
  \<^item> Dissection: the shared accumulators refine a tree held as a value, the walk through them ends, and what they hold is
    valid text; byte windows with offsets that are not negative stay inside their buffer, so scripts that use no others do not
    panic.
  \<^item> Orchestrator: an invariant over all reachable states, no panics but those of scripts, bounds on what is buffered, eviction
    exactly on close or by a due sweep, isolation of connections, and what message a record gives.
  \<^item> Delivery: from the client's SYN, or from any record boundary of either direction, the application data of every record whose
    bytes the capture holds is emitted, in order and once, through any reordering, overlap and interleaving. The safety half supposes the direction was not desynchronised;
    the liveness half proves it from the capture fitting the pending limits, for scripts that do not panic. Both suppose no idle timeout,
    no RST, and no FIN from one of the ends, as the code drops a connection on these whatever is still to come. The key log may be reread at every record, as long as
    every version has the session's secrets, the first one included. A TLS 1.2 client is covered from a record boundary after the server's
    hello, whose random its keys need; a run from its SYN on covers what it sends up to there.
  \<^item> Output: every line is the text of a JSON value that a strict parser reads back; chunks hold exactly the configured number of
    messages and have distinct names; the date is the Gregorian calendar's.
  \<^item> The whole program: only a script can make it panic, and without write errors and with its outputs apart its output is the
    text of the decoded messages in packet order, whatever the rotation; on a capture with a client's whole stream these are the client's messages.

  \<^bold>\<open>Termination and fuel.\<close> Loops are recursive functions with a measure: the pending map for draining and eviction, the reassembled
  bytes for the record loop, the packets left for the main loop. \<open>resolve\<close>, the walk through accumulators, counts levels; as many
  levels as cells are enough, which \<open>recorded_tree_walk_ends\<close> proves. \<open>parse_json\<close> runs with fuel one above the length of the text,
  enough for every text the writers produce (\<open>parse_json_text\<close>).

  \<^bold>\<open>Not modelled.\<close> The parsing of arguments by \<open>clap\<close>; what is printed on standard error; the compression itself (a chunk is
  the bytes given to its encoder); the formatting of the local time stamp; the constant tables the shim gives to Lua; the interactive side of a script, which is given as the sequence of calls it makes. A
  subtree handle or a buffer that a script keeps beyond its call could still change a message not yet written, or be read; a message's
  fields are a value here, and a script is taken to use what its own call gave it. Arithmetic on \<open>usize\<close> wraps, as in a release
  build. \<open>lib.rs\<close> declares modules only.
\<close>

end
